theory Spec2Isabelle
  imports Main "HOL-Library.Multiset"
begin

section \<open>Values, outcomes and iterator states\<close>

text \<open>
  The package works on \<^verbatim>\<open>type T interface{}\<close>. A value of that type is either
  \<^verbatim>\<open>nil\<close> or a boxed value; it is modelled as \<open>'a option\<close> with \<open>None\<close> for
  \<^verbatim>\<open>nil\<close>. Callbacks (predicates, selectors, comparators) are total HOL
  functions, that is, side-effect free and never panicking.
\<close>

type_synonym 'a T = "'a option"

text \<open>
  A Go call either returns, panics, or does not return. The outcome of a call is
  \<open>Some (Ok v)\<close>, \<open>Some Panic\<close> or \<open>None\<close> (no return) respectively.
\<close>

datatype 'x res = Panic | Ok 'x

abbreviation bind_res :: "'x res option \<Rightarrow> ('x \<Rightarrow> 'y res option) \<Rightarrow> 'y res option" where
  "bind_res m k \<equiv> Option.bind m (\<lambda>r. case r of Panic \<Rightarrow> Some Panic | Ok x \<Rightarrow> k x)"

abbreviation return :: "'x \<Rightarrow> 'x res option" where
  "return x \<equiv> Some (Ok x)"

abbreviation panic :: "'x res option" where
  "panic \<equiv> Some Panic"

text \<open>\<^verbatim>\<open>type expState struct { outer T; inner []T; i int; len int }\<close>\<close>

record 'a expState =
  exp_outer :: "'a T"
  exp_inner :: "'a T list"
  exp_i :: nat
  exp_len :: nat

text \<open>
  The key selectors of \<^verbatim>\<open>Join\<close> return an \<^verbatim>\<open>interface{}\<close> that the package uses
  only to index the map \<^verbatim>\<open>type lut map[T][]T\<close>. As the key of a Go map, a value
  is of one of three kinds:
  \<^item> \<open>Unhashable\<close>: its dynamic type is a slice, a map or a function, or a
    struct or array holding one; indexing a map with it panics
    (\<^verbatim>\<open>runtime error: hash of unhashable type\<close>), whether the map is empty or not;
  \<^item> \<open>Unequal\<close>: it differs from itself under \<^verbatim>\<open>==\<close> (a floating-point NaN, or
    a struct or array holding one); a lookup with it finds no entry, and an
    assignment with it adds an entry that no lookup finds;
  \<^item> \<open>Key k\<close>: any other value; two such keys index the same entry exactly when
    they are equal under \<^verbatim>\<open>==\<close>, which is equality of \<open>k\<close>.
  The package never ranges over the map and never takes its length, so the
  entries that no lookup finds are not kept in the model.
\<close>

datatype 'a key = Unhashable | Unequal | Key "'a T"

type_synonym 'a lut = "'a T \<Rightarrow> 'a T list option"

text \<open>The index expression \<^verbatim>\<open>result[key]\<close> with its \<^verbatim>\<open>ok\<close> flag: \<open>None\<close> when absent.\<close>

definition lut_index :: "'a lut \<Rightarrow> 'a key \<Rightarrow> 'a T list option res" where
  "lut_index result key =
     (case key of
        Unhashable \<Rightarrow> Panic
      | Unequal \<Rightarrow> Ok None
      | Key k \<Rightarrow> Ok (result k))"

text \<open>
  The statement \<^verbatim>\<open>result[key] = append(result[key], elem)\<close>. Reading an absent
  key gives the nil slice.
\<close>

definition lut_append :: "'a lut \<Rightarrow> 'a key \<Rightarrow> 'a T \<Rightarrow> 'a lut res" where
  "lut_append result key elem =
     (case key of
        Unhashable \<Rightarrow> Panic
      | Unequal \<Rightarrow> Ok result
      | Key k \<Rightarrow> Ok (result(k \<mapsto> (case result k of None \<Rightarrow> [] | Some g \<Rightarrow> g) @ [elem])))"

text \<open>\<^verbatim>\<open>type joinState struct { outer T; inner []T; i int; len int }\<close>\<close>

record 'a joinState =
  join_outer :: "'a T"
  join_inner :: "'a T list"
  join_i :: nat
  join_len :: nat

text \<open>
  \<^verbatim>\<open>type Iterator func() (elem T, ok bool)\<close> is a closure over mutable local
  variables. Its state is the tuple of the variables each closure of
  \<^verbatim>\<open>query.go\<close> captures: the upstream iterator \<^verbatim>\<open>next\<close>, the callbacks, and the
  counters or state structs the closure updates. Calling the closure is \<open>next_it\<close>
  below, which returns the pair \<open>(elem, ok)\<close> together with the updated state.
\<close>

datatype 'a Iterator =
    from_it "'a T list" nat
  | where_it "'a Iterator" "('a T \<Rightarrow> bool) list"
  | mapTo_it "'a Iterator" "'a T \<Rightarrow> 'a T"
  | expand_it "'a Iterator" "'a T \<Rightarrow> 'a T list" "'a expState"
  | join_it "'a Iterator" "'a lut" "'a T \<Rightarrow> 'a key" "'a T \<Rightarrow> 'a T \<Rightarrow> 'a T" "'a joinState"
  | skip_it "'a Iterator" int
  | take_it "'a Iterator" int
  | sortBy_it "'a T list" nat

type_synonym 'a pull = "('a T \<times> bool) \<times> 'a Iterator"

text \<open>
  The inner loop shared by \<^verbatim>\<open>where\<close>, \<^verbatim>\<open>Any\<close> and \<^verbatim>\<open>Every\<close>:
  \<^verbatim>\<open>has := true; for k := 0; k < len(f); k++ { has = has && f[k](elem) }\<close>.
\<close>

definition all_pass :: "('a T \<Rightarrow> bool) list \<Rightarrow> 'a T \<Rightarrow> bool" where
  "all_pass f elem = foldl (\<lambda>has fk. has \<and> fk elem) True f"

text \<open>
  The tail of the closure of \<^verbatim>\<open>join\<close>:
  \<^verbatim>\<open>elem = resultSel(s.outer, s.inner[s.i]); s.i++; return elem, true\<close>.
  The index expression panics when out of range.
\<close>

definition join_emit ::
  "'a Iterator \<Rightarrow> 'a lut \<Rightarrow> ('a T \<Rightarrow> 'a key) \<Rightarrow> ('a T \<Rightarrow> 'a T \<Rightarrow> 'a T) \<Rightarrow> 'a joinState
     \<Rightarrow> 'a pull res option" where
  "join_emit nxt lut outKeySel resultSel s =
     (if join_i s < length (join_inner s)
      then return ((resultSel (join_outer s) (join_inner s ! join_i s), True),
                   join_it nxt lut outKeySel resultSel (s\<lparr>join_i := join_i s + 1\<rparr>))
      else panic)"

text \<open>
  One call of an iterator closure. Each loop of a closure body that pulls from
  upstream until some condition holds is a recursive call on the updated state;
  such a loop need not end for an arbitrary upstream, so the function is partial.
  \<^item> \<^verbatim>\<open>from\<close>, \<^verbatim>\<open>sortBy\<close>: \<^verbatim>\<open>ok = i < len(a); if ok { elem = a[i]; i++ }\<close>.
  \<^item> \<^verbatim>\<open>where\<close>: pull until an element passes every predicate or upstream ends.
  \<^item> \<^verbatim>\<open>mapTo\<close>: \<^verbatim>\<open>f(elem.(T))\<close>; the type assertion panics on a nil interface.
  \<^item> \<^verbatim>\<open>expand\<close>: refill \<^verbatim>\<open>s.inner\<close> from upstream while \<^verbatim>\<open>s.i >= s.len\<close>.
  \<^item> \<^verbatim>\<open>join\<close>: pull outer elements until the lookup has the key
    (\<^verbatim>\<open>s.inner, has = lut[outKeySel(s.outer)]\<close>).
  \<^item> \<^verbatim>\<open>skip\<close>: the captured \<^verbatim>\<open>n\<close> is counted down while skipping; a negative
    \<^verbatim>\<open>n\<close> returns \<^verbatim>\<open>(nil, false)\<close> at once.
  \<^item> \<^verbatim>\<open>take\<close>: \<^verbatim>\<open>if n <= 0 { return }; n--; return next()\<close>.
  The counters \<^verbatim>\<open>n\<close> are Go \<^verbatim>\<open>int\<close>s that are only decremented while positive, so
  they never wrap and are modelled as \<open>int\<close>.
\<close>

partial_function (option) next_it :: "'a Iterator \<Rightarrow> 'a pull res option" where
  "next_it it =
    (case it of
       from_it a i \<Rightarrow>
         (if i < length a then return ((a ! i, True), from_it a (i + 1))
          else return ((None, False), from_it a i))
     | where_it nxt f \<Rightarrow>
         bind_res (next_it nxt) (\<lambda>((elem, ok), nxt').
           if ok then
             (if all_pass f elem then return ((elem, True), where_it nxt' f)
              else next_it (where_it nxt' f))
           else return ((elem, False), where_it nxt' f))
     | mapTo_it nxt f \<Rightarrow>
         bind_res (next_it nxt) (\<lambda>((elem, ok), nxt').
           if ok then
             (case elem of None \<Rightarrow> panic
              | Some _ \<Rightarrow> return ((f elem, ok), mapTo_it nxt' f))
           else return ((elem, ok), mapTo_it nxt' f))
     | expand_it nxt f s \<Rightarrow>
         (if exp_i s \<ge> exp_len s then
            bind_res (next_it nxt) (\<lambda>((outer, ok), nxt').
              if \<not> ok then return ((None, False), expand_it nxt' f (s\<lparr>exp_outer := outer\<rparr>))
              else next_it (expand_it nxt' f
                     (s\<lparr>exp_outer := outer, exp_inner := f outer,
                        exp_len := length (f outer), exp_i := 0\<rparr>)))
          else if exp_i s < length (exp_inner s)
          then return ((exp_inner s ! exp_i s, True), expand_it nxt f (s\<lparr>exp_i := exp_i s + 1\<rparr>))
          else panic)
     | join_it nxt lut outKeySel resultSel s \<Rightarrow>
         (if join_i s \<ge> join_len s then
            bind_res (next_it nxt) (\<lambda>((outer, ok), nxt').
              if \<not> ok then return ((None, False),
                 join_it nxt' lut outKeySel resultSel (s\<lparr>join_outer := outer\<rparr>))
              else (case lut_index lut (outKeySel outer) of
                  Panic \<Rightarrow> panic
                | Ok None \<Rightarrow> next_it (join_it nxt' lut outKeySel resultSel
                     (s\<lparr>join_outer := outer, join_inner := [], join_len := 0, join_i := 0\<rparr>))
                | Ok (Some g) \<Rightarrow> join_emit nxt' lut outKeySel resultSel
                     (s\<lparr>join_outer := outer, join_inner := g, join_len := length g, join_i := 0\<rparr>)))
          else join_emit nxt lut outKeySel resultSel s)
     | skip_it nxt n \<Rightarrow>
         (if n < 0 then return ((None, False), skip_it nxt n)
          else if n > 0 then
            bind_res (next_it nxt) (\<lambda>((_, ok), nxt').
              if \<not> ok then return ((None, False), skip_it nxt' n)
              else next_it (skip_it nxt' (n - 1)))
          else bind_res (next_it nxt) (\<lambda>(r, nxt'). return (r, skip_it nxt' n)))
     | take_it nxt n \<Rightarrow>
         (if n \<le> 0 then return ((None, False), take_it nxt n)
          else bind_res (next_it nxt) (\<lambda>(r, nxt'). return (r, take_it nxt' (n - 1))))
     | sortBy_it a i \<Rightarrow>
         (if i < length a then return ((a ! i, True), sortBy_it a (i + 1))
          else return ((None, False), sortBy_it a i)))"

declare next_it.simps [code]

section \<open>Queries and the functions that build iterators\<close>

text \<open>
  \<^verbatim>\<open>type Query struct { Iterate func() Iterator }\<close>: the factory takes no argument
  and returns a fresh iterator. Building the iterator may itself pull from other
  queries (\<^verbatim>\<open>join\<close> drains the inner query, \<^verbatim>\<open>sortBy\<close> drains its upstream), so
  the factory has an outcome like any other call.
\<close>

record 'a Query =
  Iterate :: "unit \<Rightarrow> 'a Iterator res option"

definition from' :: "'a T list \<Rightarrow> 'a Iterator" where
  "from' a = from_it a 0"

definition From :: "'a T list \<Rightarrow> 'a Query" where
  "From a = \<lparr>Iterate = (\<lambda>_. return (from' a))\<rparr>"

definition where' :: "'a Query \<Rightarrow> ('a T \<Rightarrow> bool) list \<Rightarrow> 'a Iterator res option" where
  "where' q f = bind_res (Iterate q ()) (\<lambda>nxt. return (where_it nxt f))"

definition Where :: "'a Query \<Rightarrow> ('a T \<Rightarrow> bool) list \<Rightarrow> 'a Query" where
  "Where q f = \<lparr>Iterate = (\<lambda>_. where' q f)\<rparr>"

definition mapTo :: "'a Query \<Rightarrow> ('a T \<Rightarrow> 'a T) \<Rightarrow> 'a Iterator res option" where
  "mapTo q f = bind_res (Iterate q ()) (\<lambda>nxt. return (mapTo_it nxt f))"

definition MapTo :: "'a Query \<Rightarrow> ('a T \<Rightarrow> 'a T) \<Rightarrow> 'a Query" where
  "MapTo q f = \<lparr>Iterate = (\<lambda>_. mapTo q f)\<rparr>"

text \<open>\<^verbatim>\<open>s := expState{}\<close> is the zero value of the struct.\<close>

definition expand :: "'a Query \<Rightarrow> ('a T \<Rightarrow> 'a T list) \<Rightarrow> 'a Iterator res option" where
  "expand q f = bind_res (Iterate q ()) (\<lambda>nxt.
     return (expand_it nxt f \<lparr>exp_outer = None, exp_inner = [], exp_i = 0, exp_len = 0\<rparr>))"

definition Expand :: "'a Query \<Rightarrow> ('a T \<Rightarrow> 'a T list) \<Rightarrow> 'a Query" where
  "Expand q f = \<lparr>Iterate = (\<lambda>_. expand q f)\<rparr>"

definition skip :: "'a Query \<Rightarrow> int \<Rightarrow> 'a Iterator res option" where
  "skip q n = bind_res (Iterate q ()) (\<lambda>nxt. return (skip_it nxt n))"

definition Skip :: "'a Query \<Rightarrow> int \<Rightarrow> 'a Query" where
  "Skip q n = \<lparr>Iterate = (\<lambda>_. skip q n)\<rparr>"

definition take' :: "'a Query \<Rightarrow> int \<Rightarrow> 'a Iterator res option" where
  "take' q n = bind_res (Iterate q ()) (\<lambda>nxt. return (take_it nxt n))"

definition Take :: "'a Query \<Rightarrow> int \<Rightarrow> 'a Query" where
  "Take q n = \<lparr>Iterate = (\<lambda>_. take' q n)\<rparr>"

text \<open>
  \<^verbatim>\<open>makeLut\<close>: \<^verbatim>\<open>result = make(lut); for elem, ok := next(); ok; elem, ok = next() {
  key := f(elem); result[key] = append(result[key], elem) }\<close>.
\<close>

partial_function (option) makeLut_loop ::
  "'a Iterator \<Rightarrow> ('a T \<Rightarrow> 'a key) \<Rightarrow> 'a lut \<Rightarrow> 'a lut res option" where
  "makeLut_loop nxt f result =
     bind_res (next_it nxt) (\<lambda>((elem, ok), nxt').
       if ok then
         (case lut_append result (f elem) elem of
            Panic \<Rightarrow> panic
          | Ok result' \<Rightarrow> makeLut_loop nxt' f result')
       else return result)"

declare makeLut_loop.simps [code]

definition makeLut :: "'a Iterator \<Rightarrow> ('a T \<Rightarrow> 'a key) \<Rightarrow> 'a lut res option" where
  "makeLut it f = makeLut_loop it f Map.empty"

definition join ::
  "'a Query \<Rightarrow> 'a Query \<Rightarrow> ('a T \<Rightarrow> 'a key) \<Rightarrow> ('a T \<Rightarrow> 'a key) \<Rightarrow> ('a T \<Rightarrow> 'a T \<Rightarrow> 'a T)
     \<Rightarrow> 'a Iterator res option" where
  "join q inner outKeySel innKeySel resultSel =
     bind_res (Iterate q ()) (\<lambda>nxt.
     bind_res (Iterate inner ()) (\<lambda>it.
     bind_res (makeLut it innKeySel) (\<lambda>lut.
       return (join_it nxt lut outKeySel resultSel
                 \<lparr>join_outer = None, join_inner = [], join_i = 0, join_len = 0\<rparr>))))"

definition Join ::
  "'a Query \<Rightarrow> 'a Query \<Rightarrow> ('a T \<Rightarrow> 'a key) \<Rightarrow> ('a T \<Rightarrow> 'a key) \<Rightarrow> ('a T \<Rightarrow> 'a T \<Rightarrow> 'a T)
     \<Rightarrow> 'a Query" where
  "Join q inner outKeySel innKeySel resultSel =
     \<lparr>Iterate = (\<lambda>_. join q inner outKeySel innKeySel resultSel)\<rparr>"

section \<open>Terminal operations\<close>

text \<open>
  \<^verbatim>\<open>ToSlice\<close>: \<^verbatim>\<open>a := []interface{}{}; next := q.Iterate();
  for elem, ok := next(); ok; elem, ok = next() { a = append(a, elem) }; return a\<close>.
\<close>

partial_function (option) ToSlice_loop :: "'a Iterator \<Rightarrow> 'a T list \<Rightarrow> 'a T list res option" where
  "ToSlice_loop nxt a =
     bind_res (next_it nxt) (\<lambda>((elem, ok), nxt').
       if ok then ToSlice_loop nxt' (a @ [elem]) else return a)"

declare ToSlice_loop.simps [code]

definition ToSlice :: "'a Query \<Rightarrow> 'a T list res option" where
  "ToSlice q = bind_res (Iterate q ()) (\<lambda>nxt. ToSlice_loop nxt [])"

text \<open>\<^verbatim>\<open>First\<close>: \<^verbatim>\<open>next := q.Iterate(); first, _ = next(); return\<close>.\<close>

definition First :: "'a Query \<Rightarrow> 'a T res option" where
  "First q = bind_res (Iterate q ()) (\<lambda>nxt.
     bind_res (next_it nxt) (\<lambda>((first, _), _). return first))"

text \<open>
  \<^verbatim>\<open>At\<close>: \<^verbatim>\<open>if i < 0 { return nil }; next := q.Iterate();
  for ; i >= 0; i-- { elem, _ = next() }; return\<close>. The third argument of the loop
  is the named result \<^verbatim>\<open>elem\<close>.
\<close>

function At_loop :: "'a Iterator \<Rightarrow> int \<Rightarrow> 'a T \<Rightarrow> 'a T res option" where
  "At_loop nxt i elem =
     (if i \<ge> 0 then
        bind_res (next_it nxt) (\<lambda>((elem', _), nxt'). At_loop nxt' (i - 1) elem')
      else return elem)"
  by pat_completeness auto
termination
  by (relation "measure (\<lambda>(nxt, i, elem). nat (i + 1))") auto

declare At_loop.simps [simp del]

definition At :: "'a Query \<Rightarrow> int \<Rightarrow> 'a T res option" where
  "At q i = (if i < 0 then return None
             else bind_res (Iterate q ()) (\<lambda>nxt. At_loop nxt i None))"

text \<open>
  \<^verbatim>\<open>Last\<close>: \<^verbatim>\<open>for elem, ok := next(); ok; elem, ok = next() { last = elem }\<close>,
  starting from the zero value \<^verbatim>\<open>nil\<close> of the named result.
\<close>

partial_function (option) Last_loop :: "'a Iterator \<Rightarrow> 'a T \<Rightarrow> 'a T res option" where
  "Last_loop nxt last' =
     bind_res (next_it nxt) (\<lambda>((elem, ok), nxt').
       if ok then Last_loop nxt' elem else return last')"

declare Last_loop.simps [code]

definition Last :: "'a Query \<Rightarrow> 'a T res option" where
  "Last q = bind_res (Iterate q ()) (\<lambda>nxt. Last_loop nxt None)"

text \<open>
  \<^verbatim>\<open>Reduce\<close>: \<^verbatim>\<open>if v, ok := next(); ok { for elem, ok := next(); ok;
  elem, ok = next() { v = f(v, elem) }; return v }; return nil\<close>.
\<close>

partial_function (option) Reduce_loop ::
  "'a Iterator \<Rightarrow> ('a T \<Rightarrow> 'a T \<Rightarrow> 'a T) \<Rightarrow> 'a T \<Rightarrow> 'a T res option" where
  "Reduce_loop nxt f v =
     bind_res (next_it nxt) (\<lambda>((elem, ok), nxt').
       if ok then Reduce_loop nxt' f (f v elem) else return v)"

declare Reduce_loop.simps [code]

definition Reduce :: "'a Query \<Rightarrow> ('a T \<Rightarrow> 'a T \<Rightarrow> 'a T) \<Rightarrow> 'a T res option" where
  "Reduce q f = bind_res (Iterate q ()) (\<lambda>nxt.
     bind_res (next_it nxt) (\<lambda>((v, ok), nxt').
       if ok then Reduce_loop nxt' f v else return None))"

section \<open>Sorting\<close>

text \<open>
  \<^verbatim>\<open>type sorter struct { t []interface{}; less by }\<close> with its three methods of
  \<^verbatim>\<open>sort.Interface\<close>. Indexing a slice out of range panics.
\<close>

record 'a sorter =
  sorter_t :: "'a T list"
  sorter_less :: "('a T \<Rightarrow> 'a T \<Rightarrow> bool) list"

definition Len :: "'a sorter \<Rightarrow> nat" where
  "Len s = length (sorter_t s)"

definition Swap :: "'a sorter \<Rightarrow> nat \<Rightarrow> nat \<Rightarrow> 'a sorter res" where
  "Swap s i j =
     (if i < length (sorter_t s) \<and> j < length (sorter_t s)
      then Ok (s\<lparr>sorter_t := (sorter_t s)[i := sorter_t s ! j, j := sorter_t s ! i]\<rparr>)
      else Panic)"

text \<open>
  \<^verbatim>\<open>Less\<close>: the loop \<^verbatim>\<open>for k = 0; k < len(s.less)-1; k++\<close> tries all but the last
  comparison; after it \<^verbatim>\<open>return s.less[k](s.t[i], s.t[j])\<close>. The fourth argument
  of \<open>Less_from\<close> is the loop variable \<^verbatim>\<open>k\<close>.
\<close>

function Less_from :: "'a sorter \<Rightarrow> nat \<Rightarrow> nat \<Rightarrow> nat \<Rightarrow> bool res" where
  "Less_from s i j k =
     (if int k < int (length (sorter_less s)) - 1 then
        (if i < length (sorter_t s) \<and> j < length (sorter_t s) then
           (if (sorter_less s ! k) (sorter_t s ! i) (sorter_t s ! j) then Ok True
            else if (sorter_less s ! k) (sorter_t s ! j) (sorter_t s ! i) then Ok False
            else Less_from s i j (k + 1))
         else Panic)
      else if k < length (sorter_less s) \<and> i < length (sorter_t s) \<and> j < length (sorter_t s)
        then Ok ((sorter_less s ! k) (sorter_t s ! i) (sorter_t s ! j))
        else Panic)"
  by pat_completeness auto
termination
  by (relation "measure (\<lambda>(s, i, j, k). length (sorter_less s) - k)") auto

declare Less_from.simps [simp del]

definition Less :: "'a sorter \<Rightarrow> nat \<Rightarrow> nat \<Rightarrow> bool res" where
  "Less s i j = Less_from s i j 0"

text \<open>
  \<^verbatim>\<open>sort.Stable\<close> belongs to the Go standard library (package \<^verbatim>\<open>sort\<close>), not to
  this package; it reaches the slice only through \<^verbatim>\<open>Len\<close>, \<^verbatim>\<open>Less\<close> and \<^verbatim>\<open>Swap\<close>.
  The library's code is embedded function by function: \<^verbatim>\<open>insertionSort\<close>,
  \<^verbatim>\<open>swapRange\<close>, \<^verbatim>\<open>rotate\<close>, \<^verbatim>\<open>symMerge\<close> and \<^verbatim>\<open>stable\<close>. The indices are Go
  \<^verbatim>\<open>int\<close>s between 0 and \<^verbatim>\<open>Len\<close>, and the block size is at most doubled past
  \<^verbatim>\<open>Len\<close>, so nothing wraps and they are modelled as \<open>nat\<close>; \<^verbatim>\<open>int(uint(i+j) >> 1)\<close>
  is \<open>(i + j) div 2\<close>. Where \<^verbatim>\<open>stable\<close> calls them (\<^verbatim>\<open>a < m < b <= n\<close>), every
  subtraction below takes a smaller index from a larger one.

  \<^verbatim>\<open>insertionSort\<close>: \<^verbatim>\<open>for i := a + 1; i < b; i++ { for j := i; j > a &&
  data.Less(j, j-1); j-- { data.Swap(j, j-1) } }\<close>.
\<close>

function insertionSort_inner :: "'a sorter \<Rightarrow> nat \<Rightarrow> nat \<Rightarrow> 'a sorter res" where
  "insertionSort_inner s a j =
     (if j > a then
        (case Less s j (j - 1) of
           Panic \<Rightarrow> Panic
         | Ok lt \<Rightarrow>
             if lt then
               (case Swap s j (j - 1) of
                  Panic \<Rightarrow> Panic
                | Ok s' \<Rightarrow> insertionSort_inner s' a (j - 1))
             else Ok s)
      else Ok s)"
  by pat_completeness auto
termination
  by (relation "measure (\<lambda>(s, a, j). j)") auto

declare insertionSort_inner.simps [simp del]

function insertionSort_outer :: "'a sorter \<Rightarrow> nat \<Rightarrow> nat \<Rightarrow> nat \<Rightarrow> 'a sorter res" where
  "insertionSort_outer s a b i =
     (if i < b then
        (case insertionSort_inner s a i of
           Panic \<Rightarrow> Panic
         | Ok s' \<Rightarrow> insertionSort_outer s' a b (i + 1))
      else Ok s)"
  by pat_completeness auto
termination
  by (relation "measure (\<lambda>(s, a, b, i). b - i)") auto

declare insertionSort_outer.simps [simp del]

definition insertionSort :: "'a sorter \<Rightarrow> nat \<Rightarrow> nat \<Rightarrow> 'a sorter res" where
  "insertionSort s a b = insertionSort_outer s a b (a + 1)"

text \<open>\<^verbatim>\<open>swapRange\<close>: \<^verbatim>\<open>for i := 0; i < n; i++ { data.Swap(a+i, b+i) }\<close>.\<close>

function swapRange_loop :: "'a sorter \<Rightarrow> nat \<Rightarrow> nat \<Rightarrow> nat \<Rightarrow> nat \<Rightarrow> 'a sorter res" where
  "swapRange_loop data a b n i =
     (if i < n then
        (case Swap data (a + i) (b + i) of
           Panic \<Rightarrow> Panic
         | Ok data' \<Rightarrow> swapRange_loop data' a b n (i + 1))
      else Ok data)"
  by pat_completeness auto
termination
  by (relation "measure (\<lambda>(data, a, b, n, i). n - i)") auto

declare swapRange_loop.simps [simp del]

definition swapRange :: "'a sorter \<Rightarrow> nat \<Rightarrow> nat \<Rightarrow> nat \<Rightarrow> 'a sorter res" where
  "swapRange data a b n = swapRange_loop data a b n 0"

text \<open>
  \<^verbatim>\<open>rotate\<close>: \<^verbatim>\<open>i := m - a; j := b - m; for i != j { if i > j {
  swapRange(data, m-i, m, j); i -= j } else { swapRange(data, m-i, m+j-i, i);
  j -= i } }; swapRange(data, m-i, m, i)\<close>. The loop does not end when exactly one
  of the two blocks is empty, so the function is partial.
\<close>

partial_function (option) rotate_loop ::
  "'a sorter \<Rightarrow> nat \<Rightarrow> nat \<Rightarrow> nat \<Rightarrow> 'a sorter res option" where
  "rotate_loop data m i j =
     (if i \<noteq> j then
        (if i > j then
           (case swapRange data (m - i) m j of
              Panic \<Rightarrow> panic
            | Ok data' \<Rightarrow> rotate_loop data' m (i - j) j)
         else
           (case swapRange data (m - i) (m + j - i) i of
              Panic \<Rightarrow> panic
            | Ok data' \<Rightarrow> rotate_loop data' m i (j - i)))
      else Some (swapRange data (m - i) m i))"

declare rotate_loop.simps [code]

definition rotate :: "'a sorter \<Rightarrow> nat \<Rightarrow> nat \<Rightarrow> nat \<Rightarrow> 'a sorter res option" where
  "rotate data a m b = rotate_loop data m (m - a) (b - m)"

text \<open>
  The three binary searches of \<^verbatim>\<open>symMerge\<close> have one shape,
  \<^verbatim>\<open>for i < j { h := int(uint(i+j) >> 1); if cond(h) { i = h + 1 } else { j = h } }\<close>,
  and leave the result in \<^verbatim>\<open>i\<close>; \<open>cond\<close> is \<^verbatim>\<open>data.Less(h, a)\<close>,
  \<^verbatim>\<open>!data.Less(m, h)\<close> and \<^verbatim>\<open>!data.Less(p-c, c)\<close> respectively.
\<close>

function search_loop :: "(nat \<Rightarrow> bool res) \<Rightarrow> nat \<Rightarrow> nat \<Rightarrow> nat res" where
  "search_loop cond i j =
     (if i < j then
        (case cond ((i + j) div 2) of
           Panic \<Rightarrow> Panic
         | Ok c \<Rightarrow> if c then search_loop cond ((i + j) div 2 + 1) j
                   else search_loop cond i ((i + j) div 2))
      else Ok i)"
  by pat_completeness auto
termination
  by (relation "measure (\<lambda>(cond, i, j). j - i)") auto

declare search_loop.simps [simp del]

definition not_res :: "bool res \<Rightarrow> bool res" where
  "not_res r = (case r of Panic \<Rightarrow> Panic | Ok l \<Rightarrow> Ok (\<not> l))"

text \<open>
  The two loops of \<^verbatim>\<open>symMerge\<close> that move one element into a sorted block:
  \<^verbatim>\<open>for k := a; k < i-1; k++ { data.Swap(k, k+1) }\<close> and
  \<^verbatim>\<open>for k := m; k > i; k-- { data.Swap(k, k-1) }\<close>.
\<close>

function symMerge_forward :: "'a sorter \<Rightarrow> nat \<Rightarrow> nat \<Rightarrow> 'a sorter res" where
  "symMerge_forward data k i =
     (if k < i - 1 then
        (case Swap data k (k + 1) of
           Panic \<Rightarrow> Panic
         | Ok data' \<Rightarrow> symMerge_forward data' (k + 1) i)
      else Ok data)"
  by pat_completeness auto
termination
  by (relation "measure (\<lambda>(data, k, i). i - k)") auto

declare symMerge_forward.simps [simp del]

function symMerge_backward :: "'a sorter \<Rightarrow> nat \<Rightarrow> nat \<Rightarrow> 'a sorter res" where
  "symMerge_backward data k i =
     (if k > i then
        (case Swap data k (k - 1) of
           Panic \<Rightarrow> Panic
         | Ok data' \<Rightarrow> symMerge_backward data' (k - 1) i)
      else Ok data)"
  by pat_completeness auto
termination
  by (relation "measure (\<lambda>(data, k, i). k)") auto

declare symMerge_backward.simps [simp del]

text \<open>
  \<^verbatim>\<open>symMerge(data, a, m, b)\<close> merges the sorted blocks \<^verbatim>\<open>data[a:m]\<close> and
  \<^verbatim>\<open>data[m:b]\<close>:
  \<^item> \<^verbatim>\<open>if m-a == 1\<close>: search the lowest \<^verbatim>\<open>i\<close> in \<^verbatim>\<open>[m, b)\<close> with
    \<^verbatim>\<open>data[i] >= data[a]\<close>, move \<^verbatim>\<open>data[a]\<close> before it, return;
  \<^item> \<^verbatim>\<open>if b-m == 1\<close>: search the lowest \<^verbatim>\<open>i\<close> in \<^verbatim>\<open>[a, m)\<close> with
    \<^verbatim>\<open>data[i] > data[m]\<close>, move \<^verbatim>\<open>data[m]\<close> to it, return;
  \<^item> otherwise \<^verbatim>\<open>mid := int(uint(a+b) >> 1); n := mid + m;
    if m > mid { start = n - b; r = mid } else { start = a; r = m }; p := n - 1\<close>,
    the search \<^verbatim>\<open>for start < r { c := int(uint(start+r) >> 1);
    if !data.Less(p-c, c) { start = c + 1 } else { r = c } }\<close>, then
    \<^verbatim>\<open>end := n - start;
    if start < m && m < end { rotate(data, start, m, end) };
    if a < start && start < mid { symMerge(data, a, start, mid) };
    if mid < end && end < b { symMerge(data, mid, end, b) }\<close>.
\<close>

partial_function (option) symMerge ::
  "'a sorter \<Rightarrow> nat \<Rightarrow> nat \<Rightarrow> nat \<Rightarrow> 'a sorter res option" where
  "symMerge data a m b =
     (if m - a = 1 then
        (case search_loop (\<lambda>h. Less data h a) m b of
           Panic \<Rightarrow> panic
         | Ok i \<Rightarrow> Some (symMerge_forward data a i))
      else if b - m = 1 then
        (case search_loop (\<lambda>h. not_res (Less data m h)) a m of
           Panic \<Rightarrow> panic
         | Ok i \<Rightarrow> Some (symMerge_backward data m i))
      else
        (let mid = (a + b) div 2;
             n = mid + m;
             start = (if m > mid then n - b else a);
             r = (if m > mid then mid else m);
             p = n - 1
         in case search_loop (\<lambda>c. not_res (Less data (p - c) c)) start r of
           Panic \<Rightarrow> panic
         | Ok start \<Rightarrow>
             (let end' = n - start in
              bind_res (if start < m \<and> m < end' then rotate data start m end' else return data)
                (\<lambda>data.
              bind_res (if a < start \<and> start < mid then symMerge data a start mid else return data)
                (\<lambda>data.
              if mid < end' \<and> end' < b then symMerge data mid end' b else return data)))))"

declare symMerge.simps [code]

text \<open>
  \<^verbatim>\<open>stable(data, n)\<close>:
  \<^verbatim>\<open>blockSize := 20; a, b := 0, blockSize;
  for b <= n { insertionSort(data, a, b); a = b; b += blockSize };
  insertionSort(data, a, n);
  for blockSize < n { a, b = 0, 2*blockSize;
    for b <= n { symMerge(data, a, a+blockSize, b); a = b; b += 2 * blockSize };
    if m := a + blockSize; m < n { symMerge(data, a, m, n) };
    blockSize *= 2 }\<close>.
  The first loop is \<open>stable_insertion\<close>, the inner loop of the second one is
  \<open>stable_merge\<close> (both return \<^verbatim>\<open>a\<close> with the data), the outer loop is
  \<open>stable_passes\<close>.
\<close>

partial_function (option) stable_insertion ::
  "'a sorter \<Rightarrow> nat \<Rightarrow> nat \<Rightarrow> nat \<Rightarrow> nat \<Rightarrow> ('a sorter \<times> nat) res option" where
  "stable_insertion data n blockSize a b =
     (if b \<le> n then
        (case insertionSort data a b of
           Panic \<Rightarrow> panic
         | Ok data' \<Rightarrow> stable_insertion data' n blockSize b (b + blockSize))
      else return (data, a))"

declare stable_insertion.simps [code]

partial_function (option) stable_merge ::
  "'a sorter \<Rightarrow> nat \<Rightarrow> nat \<Rightarrow> nat \<Rightarrow> nat \<Rightarrow> ('a sorter \<times> nat) res option" where
  "stable_merge data n blockSize a b =
     (if b \<le> n then
        bind_res (symMerge data a (a + blockSize) b)
          (\<lambda>data'. stable_merge data' n blockSize b (b + 2 * blockSize))
      else return (data, a))"

declare stable_merge.simps [code]

partial_function (option) stable_passes :: "'a sorter \<Rightarrow> nat \<Rightarrow> nat \<Rightarrow> 'a sorter res option" where
  "stable_passes data n blockSize =
     (if blockSize < n then
        bind_res (stable_merge data n blockSize 0 (2 * blockSize)) (\<lambda>(data, a).
        bind_res (if a + blockSize < n then symMerge data a (a + blockSize) n else return data)
          (\<lambda>data.
        stable_passes data n (blockSize * 2)))
      else return data)"

declare stable_passes.simps [code]

definition stable :: "'a sorter \<Rightarrow> nat \<Rightarrow> 'a sorter res option" where
  "stable data n =
     bind_res (stable_insertion data n 20 0 20) (\<lambda>(data, a).
       case insertionSort data a n of
         Panic \<Rightarrow> panic
       | Ok data \<Rightarrow> stable_passes data n 20)"

text \<open>\<^verbatim>\<open>func Stable(data Interface) { stable(data, data.Len()) }\<close>\<close>

definition Stable :: "'a sorter \<Rightarrow> 'a sorter res option" where
  "Stable data = stable data (Len data)"

text \<open>
  \<^verbatim>\<open>func (f by) Sort(t []interface{})\<close> sorts \<^verbatim>\<open>t\<close> in place; the model returns the
  sorted slice.
\<close>

definition by_Sort :: "('a T \<Rightarrow> 'a T \<Rightarrow> bool) list \<Rightarrow> 'a T list \<Rightarrow> 'a T list res option" where
  "by_Sort f t =
     bind_res (Stable \<lparr>sorter_t = t, sorter_less = f\<rparr>) (\<lambda>s. return (sorter_t s))"

text \<open>\<^verbatim>\<open>sortBy\<close>: \<^verbatim>\<open>a := ToSlice(q); by(f).Sort(a); i := 0\<close>, then a closure like that of \<^verbatim>\<open>from\<close>.\<close>

definition sortBy :: "'a Query \<Rightarrow> ('a T \<Rightarrow> 'a T \<Rightarrow> bool) list \<Rightarrow> 'a Iterator res option" where
  "sortBy q f =
     bind_res (ToSlice q) (\<lambda>a.
     bind_res (by_Sort f a) (\<lambda>a'.
       return (sortBy_it a' 0)))"

definition Sort :: "'a Query \<Rightarrow> ('a T \<Rightarrow> 'a T \<Rightarrow> bool) list \<Rightarrow> 'a Query" where
  "Sort q f = \<lparr>Iterate = (\<lambda>_. sortBy q f)\<rparr>"

section \<open>The closures with their captured variables in a store\<close>

text \<open>
  A second embedding of the same closures, for properties that depend on which
  variables two iterators share. Every variable that a closure of \<^verbatim>\<open>query.go\<close>
  captures and assigns to is a cell of a store, and a closure is the tuple of the
  addresses of its variables together with its immutable callbacks:
  \<^item> \<^verbatim>\<open>from\<close>: the slice \<^verbatim>\<open>a\<close> (the caller's source, shared by every iterator of
    the query) and the local \<^verbatim>\<open>i\<close>;
  \<^item> \<^verbatim>\<open>expand\<close>, \<^verbatim>\<open>join\<close>: the local struct \<^verbatim>\<open>s\<close>;
  \<^item> \<^verbatim>\<open>skip\<close>, \<^verbatim>\<open>take\<close>: the parameter \<^verbatim>\<open>n\<close> of the called function;
  \<^item> \<^verbatim>\<open>sortBy\<close>: the local slice \<^verbatim>\<open>a\<close> returned by \<^verbatim>\<open>ToSlice\<close> and the local \<^verbatim>\<open>i\<close>.
  The store has one heap per Go type and one allocation counter \<open>st_free\<close>; a
  variable declaration allocates the cell at \<open>st_free\<close>.
\<close>

type_synonym addr = nat

record 'a store =
  st_ints :: "addr \<Rightarrow> int"
  st_idxs :: "addr \<Rightarrow> nat"
  st_exps :: "addr \<Rightarrow> 'a expState"
  st_joins :: "addr \<Rightarrow> 'a joinState"
  st_slices :: "addr \<Rightarrow> 'a T list"
  st_free :: addr

definition new_int :: "int \<Rightarrow> 'a store \<Rightarrow> addr \<times> 'a store" where
  "new_int v \<sigma> = (st_free \<sigma>, \<sigma>\<lparr>st_ints := (st_ints \<sigma>)(st_free \<sigma> := v), st_free := st_free \<sigma> + 1\<rparr>)"

definition new_idx :: "nat \<Rightarrow> 'a store \<Rightarrow> addr \<times> 'a store" where
  "new_idx v \<sigma> = (st_free \<sigma>, \<sigma>\<lparr>st_idxs := (st_idxs \<sigma>)(st_free \<sigma> := v), st_free := st_free \<sigma> + 1\<rparr>)"

definition new_exp :: "'a expState \<Rightarrow> 'a store \<Rightarrow> addr \<times> 'a store" where
  "new_exp v \<sigma> = (st_free \<sigma>, \<sigma>\<lparr>st_exps := (st_exps \<sigma>)(st_free \<sigma> := v), st_free := st_free \<sigma> + 1\<rparr>)"

definition new_join :: "'a joinState \<Rightarrow> 'a store \<Rightarrow> addr \<times> 'a store" where
  "new_join v \<sigma> = (st_free \<sigma>, \<sigma>\<lparr>st_joins := (st_joins \<sigma>)(st_free \<sigma> := v), st_free := st_free \<sigma> + 1\<rparr>)"

definition new_slice :: "'a T list \<Rightarrow> 'a store \<Rightarrow> addr \<times> 'a store" where
  "new_slice v \<sigma> = (st_free \<sigma>, \<sigma>\<lparr>st_slices := (st_slices \<sigma>)(st_free \<sigma> := v), st_free := st_free \<sigma> + 1\<rparr>)"

text \<open>An iterator closure: its upstream closure, its callbacks, the addresses of its variables.\<close>

datatype 'a closure =
    from_cl addr addr
  | where_cl "'a closure" "('a T \<Rightarrow> bool) list"
  | mapTo_cl "'a closure" "'a T \<Rightarrow> 'a T"
  | expand_cl "'a closure" "'a T \<Rightarrow> 'a T list" addr
  | join_cl "'a closure" "'a lut" "'a T \<Rightarrow> 'a key" "'a T \<Rightarrow> 'a T \<Rightarrow> 'a T" addr
  | skip_cl "'a closure" addr
  | take_cl "'a closure" addr
  | sortBy_cl addr addr

type_synonym 'a pull_st = "('a T \<times> bool) \<times> 'a store"

definition join_emit_st :: "('a T \<Rightarrow> 'a T \<Rightarrow> 'a T) \<Rightarrow> addr \<Rightarrow> 'a store \<Rightarrow> 'a pull_st res option" where
  "join_emit_st resultSel ps \<sigma> =
     (let s = st_joins \<sigma> ps in
      if join_i s < length (join_inner s)
      then return ((resultSel (join_outer s) (join_inner s ! join_i s), True),
                   \<sigma>\<lparr>st_joins := (st_joins \<sigma>)(ps := s\<lparr>join_i := join_i s + 1\<rparr>)\<rparr>)
      else panic)"

text \<open>
  One call of an iterator closure on a store. The statements are those of
  \<open>next_it\<close>; reads and assignments of captured variables go through the store,
  and a variable is read again after a call of the upstream closure.
\<close>

partial_function (option) next_st :: "'a closure \<Rightarrow> 'a store \<Rightarrow> 'a pull_st res option" where
  "next_st c \<sigma> =
    (case c of
       from_cl pa pi \<Rightarrow>
         (if st_idxs \<sigma> pi < length (st_slices \<sigma> pa)
          then return ((st_slices \<sigma> pa ! st_idxs \<sigma> pi, True),
                       \<sigma>\<lparr>st_idxs := (st_idxs \<sigma>)(pi := st_idxs \<sigma> pi + 1)\<rparr>)
          else return ((None, False), \<sigma>))
     | where_cl nxt f \<Rightarrow>
         bind_res (next_st nxt \<sigma>) (\<lambda>((elem, ok), \<sigma>').
           if ok then
             (if all_pass f elem then return ((elem, True), \<sigma>')
              else next_st (where_cl nxt f) \<sigma>')
           else return ((elem, False), \<sigma>'))
     | mapTo_cl nxt f \<Rightarrow>
         bind_res (next_st nxt \<sigma>) (\<lambda>((elem, ok), \<sigma>').
           if ok then
             (case elem of None \<Rightarrow> panic
              | Some _ \<Rightarrow> return ((f elem, ok), \<sigma>'))
           else return ((elem, ok), \<sigma>'))
     | expand_cl nxt f ps \<Rightarrow>
         (if exp_i (st_exps \<sigma> ps) \<ge> exp_len (st_exps \<sigma> ps) then
            bind_res (next_st nxt \<sigma>) (\<lambda>((outer, ok), \<sigma>').
              if \<not> ok then return ((None, False),
                 \<sigma>'\<lparr>st_exps := (st_exps \<sigma>')(ps := (st_exps \<sigma>' ps)\<lparr>exp_outer := outer\<rparr>)\<rparr>)
              else next_st (expand_cl nxt f ps)
                 (\<sigma>'\<lparr>st_exps := (st_exps \<sigma>')(ps := (st_exps \<sigma>' ps)
                     \<lparr>exp_outer := outer, exp_inner := f outer,
                      exp_len := length (f outer), exp_i := 0\<rparr>)\<rparr>))
          else if exp_i (st_exps \<sigma> ps) < length (exp_inner (st_exps \<sigma> ps))
          then return ((exp_inner (st_exps \<sigma> ps) ! exp_i (st_exps \<sigma> ps), True),
                 \<sigma>\<lparr>st_exps := (st_exps \<sigma>)(ps := (st_exps \<sigma> ps)
                     \<lparr>exp_i := exp_i (st_exps \<sigma> ps) + 1\<rparr>)\<rparr>)
          else panic)
     | join_cl nxt lut outKeySel resultSel ps \<Rightarrow>
         (if join_i (st_joins \<sigma> ps) \<ge> join_len (st_joins \<sigma> ps) then
            bind_res (next_st nxt \<sigma>) (\<lambda>((outer, ok), \<sigma>').
              if \<not> ok then return ((None, False),
                 \<sigma>'\<lparr>st_joins := (st_joins \<sigma>')(ps := (st_joins \<sigma>' ps)\<lparr>join_outer := outer\<rparr>)\<rparr>)
              else (case lut_index lut (outKeySel outer) of
                  Panic \<Rightarrow> panic
                | Ok None \<Rightarrow> next_st (join_cl nxt lut outKeySel resultSel ps)
                     (\<sigma>'\<lparr>st_joins := (st_joins \<sigma>')(ps := (st_joins \<sigma>' ps)
                        \<lparr>join_outer := outer, join_inner := [], join_len := 0, join_i := 0\<rparr>)\<rparr>)
                | Ok (Some g) \<Rightarrow> join_emit_st resultSel ps
                     (\<sigma>'\<lparr>st_joins := (st_joins \<sigma>')(ps := (st_joins \<sigma>' ps)
                        \<lparr>join_outer := outer, join_inner := g, join_len := length g, join_i := 0\<rparr>)\<rparr>)))
          else join_emit_st resultSel ps \<sigma>)
     | skip_cl nxt pn \<Rightarrow>
         (if st_ints \<sigma> pn < 0 then return ((None, False), \<sigma>)
          else if st_ints \<sigma> pn > 0 then
            bind_res (next_st nxt \<sigma>) (\<lambda>((_, ok), \<sigma>').
              if \<not> ok then return ((None, False), \<sigma>')
              else next_st (skip_cl nxt pn)
                     (\<sigma>'\<lparr>st_ints := (st_ints \<sigma>')(pn := st_ints \<sigma>' pn - 1)\<rparr>))
          else next_st nxt \<sigma>)
     | take_cl nxt pn \<Rightarrow>
         (if st_ints \<sigma> pn \<le> 0 then return ((None, False), \<sigma>)
          else next_st nxt (\<sigma>\<lparr>st_ints := (st_ints \<sigma>)(pn := st_ints \<sigma> pn - 1)\<rparr>))
     | sortBy_cl pa pi \<Rightarrow>
         (if st_idxs \<sigma> pi < length (st_slices \<sigma> pa)
          then return ((st_slices \<sigma> pa ! st_idxs \<sigma> pi, True),
                       \<sigma>\<lparr>st_idxs := (st_idxs \<sigma>)(pi := st_idxs \<sigma> pi + 1)\<rparr>)
          else return ((None, False), \<sigma>)))"

declare next_st.simps [code]

partial_function (option) ToSlice_st_loop ::
  "'a closure \<Rightarrow> 'a T list \<Rightarrow> 'a store \<Rightarrow> ('a T list \<times> 'a store) res option" where
  "ToSlice_st_loop nxt a \<sigma> =
     bind_res (next_st nxt \<sigma>) (\<lambda>((elem, ok), \<sigma>').
       if ok then ToSlice_st_loop nxt (a @ [elem]) \<sigma>' else return (a, \<sigma>'))"

declare ToSlice_st_loop.simps [code]

partial_function (option) makeLut_st_loop ::
  "'a closure \<Rightarrow> ('a T \<Rightarrow> 'a key) \<Rightarrow> 'a lut \<Rightarrow> 'a store \<Rightarrow> ('a lut \<times> 'a store) res option" where
  "makeLut_st_loop nxt f result \<sigma> =
     bind_res (next_st nxt \<sigma>) (\<lambda>((elem, ok), \<sigma>').
       if ok then
         (case lut_append result (f elem) elem of
            Panic \<Rightarrow> panic
          | Ok result' \<Rightarrow> makeLut_st_loop nxt f result' \<sigma>')
       else return (result, \<sigma>'))"

declare makeLut_st_loop.simps [code]

definition makeLut_st ::
  "'a closure \<Rightarrow> ('a T \<Rightarrow> 'a key) \<Rightarrow> 'a store \<Rightarrow> ('a lut \<times> 'a store) res option" where
  "makeLut_st it f \<sigma> = makeLut_st_loop it f Map.empty \<sigma>"

text \<open>
  The factory closure \<^verbatim>\<open>iterate\<close> of a query captures the upstream query and the
  arguments of the operator, and assigns to none of them. \<open>From_f\<close> holds the
  address of the source slice.
\<close>

datatype 'a factory =
    From_f addr
  | Where_f "'a factory" "('a T \<Rightarrow> bool) list"
  | MapTo_f "'a factory" "'a T \<Rightarrow> 'a T"
  | Expand_f "'a factory" "'a T \<Rightarrow> 'a T list"
  | Join_f "'a factory" "'a factory" "'a T \<Rightarrow> 'a key" "'a T \<Rightarrow> 'a key" "'a T \<Rightarrow> 'a T \<Rightarrow> 'a T"
  | Skip_f "'a factory" int
  | Sort_f "'a factory" "('a T \<Rightarrow> 'a T \<Rightarrow> bool) list"
  | Take_f "'a factory" int

text \<open>\<^verbatim>\<open>by(f).Sort(a)\<close> sorts the slice at an address in place.\<close>

definition by_Sort_st ::
  "('a T \<Rightarrow> 'a T \<Rightarrow> bool) list \<Rightarrow> addr \<Rightarrow> 'a store \<Rightarrow> 'a store res option" where
  "by_Sort_st f pa \<sigma> =
     bind_res (by_Sort f (st_slices \<sigma> pa)) (\<lambda>t.
       return (\<sigma>\<lparr>st_slices := (st_slices \<sigma>)(pa := t)\<rparr>))"

text \<open>
  Calling the factory: \<^verbatim>\<open>iterate := func() Iterator { return skip(q, n) }\<close> and its
  siblings. Each call runs the called function afresh: it calls the upstream
  factory, and allocates the parameters and locals that the returned closure
  captures (\<^verbatim>\<open>i := 0\<close>, \<^verbatim>\<open>s := expState{}\<close>, the copy of the argument \<^verbatim>\<open>n\<close>, ...).
\<close>

fun Iterate_st :: "'a factory \<Rightarrow> 'a store \<Rightarrow> ('a closure \<times> 'a store) res option" where
  "Iterate_st (From_f pa) \<sigma> =
     (case new_idx 0 \<sigma> of (pi, \<sigma>') \<Rightarrow> return (from_cl pa pi, \<sigma>'))"
| "Iterate_st (Where_f q f) \<sigma> =
     bind_res (Iterate_st q \<sigma>) (\<lambda>(nxt, \<sigma>'). return (where_cl nxt f, \<sigma>'))"
| "Iterate_st (MapTo_f q f) \<sigma> =
     bind_res (Iterate_st q \<sigma>) (\<lambda>(nxt, \<sigma>'). return (mapTo_cl nxt f, \<sigma>'))"
| "Iterate_st (Expand_f q f) \<sigma> =
     bind_res (Iterate_st q \<sigma>) (\<lambda>(nxt, \<sigma>').
       case new_exp \<lparr>exp_outer = None, exp_inner = [], exp_i = 0, exp_len = 0\<rparr> \<sigma>' of
         (ps, \<sigma>'') \<Rightarrow> return (expand_cl nxt f ps, \<sigma>''))"
| "Iterate_st (Join_f q inner outKeySel innKeySel resultSel) \<sigma> =
     bind_res (Iterate_st q \<sigma>) (\<lambda>(nxt, \<sigma>1).
     bind_res (Iterate_st inner \<sigma>1) (\<lambda>(it, \<sigma>2).
     bind_res (makeLut_st it innKeySel \<sigma>2) (\<lambda>(lut, \<sigma>3).
       case new_join \<lparr>join_outer = None, join_inner = [], join_i = 0, join_len = 0\<rparr> \<sigma>3 of
         (ps, \<sigma>4) \<Rightarrow> return (join_cl nxt lut outKeySel resultSel ps, \<sigma>4))))"
| "Iterate_st (Skip_f q n) \<sigma> =
     bind_res (Iterate_st q \<sigma>) (\<lambda>(nxt, \<sigma>').
       case new_int n \<sigma>' of (pn, \<sigma>'') \<Rightarrow> return (skip_cl nxt pn, \<sigma>''))"
| "Iterate_st (Sort_f q f) \<sigma> =
     bind_res (Iterate_st q \<sigma>) (\<lambda>(nxt, \<sigma>1).
     bind_res (ToSlice_st_loop nxt [] \<sigma>1) (\<lambda>(a, \<sigma>2).
       case new_slice a \<sigma>2 of (pa, \<sigma>3) \<Rightarrow>
         bind_res (by_Sort_st f pa \<sigma>3) (\<lambda>\<sigma>4.
           case new_idx 0 \<sigma>4 of (pi, \<sigma>5) \<Rightarrow> return (sortBy_cl pa pi, \<sigma>5))))"
| "Iterate_st (Take_f q n) \<sigma> =
     bind_res (Iterate_st q \<sigma>) (\<lambda>(nxt, \<sigma>').
       case new_int n \<sigma>' of (pn, \<sigma>'') \<Rightarrow> return (take_cl nxt pn, \<sigma>''))"

definition ToSlice_st :: "'a factory \<Rightarrow> 'a store \<Rightarrow> ('a T list \<times> 'a store) res option" where
  "ToSlice_st q \<sigma> = bind_res (Iterate_st q \<sigma>) (\<lambda>(nxt, \<sigma>'). ToSlice_st_loop nxt [] \<sigma>')"

section \<open>Notions used to state the properties\<close>

text \<open>
  An iterator \<^emph>\<open>drains to\<close> \<open>xs\<close> when the loop of \<^verbatim>\<open>ToSlice\<close> run on it returns
  \<open>xs\<close>: it yields the elements of \<open>xs\<close> in order with \<^verbatim>\<open>ok = true\<close> and then
  reports \<^verbatim>\<open>ok = false\<close>. A query is a finite sequence with elements \<open>xs\<close> when
  \<open>ToSlice q = return xs\<close>.
\<close>

definition drains :: "'a Iterator \<Rightarrow> 'a T list \<Rightarrow> bool" where
  "drains it xs \<longleftrightarrow> ToSlice_loop it [] = return xs"

text \<open>
  An iterator is \<^emph>\<open>stuck\<close> when its next call returns \<^verbatim>\<open>(nil, false)\<close>. A call
  \<^emph>\<open>ends well\<close> when, if it reports \<^verbatim>\<open>ok = false\<close>, the element it returns is
  \<^verbatim>\<open>nil\<close> and the iterator is left stuck.
\<close>

definition stuck :: "'a Iterator \<Rightarrow> bool" where
  "stuck it \<longleftrightarrow> (\<exists>it'. next_it it = return ((None, False), it'))"

definition ends_well :: "'a pull res \<Rightarrow> bool" where
  "ends_well r \<longleftrightarrow> (\<forall>e it'. r = Ok ((e, False), it') \<longrightarrow> e = None \<and> stuck it')"

text \<open>
  Two keys are the \<^emph>\<open>same map key\<close> when a lookup with one finds the entry
  assigned with the other.
\<close>

fun same_key :: "'a key \<Rightarrow> 'a key \<Rightarrow> bool" where
  "same_key (Key a) (Key b) = (a = b)"
| "same_key _ _ = False"

text \<open>
  A comparator is a binary less-than predicate. It is a \<^emph>\<open>strict weak order\<close>
  when it is asymmetric and its complement is transitive; two elements are
  \<^emph>\<open>tied\<close> under it when neither is less than the other.
\<close>

definition swo :: "('a \<Rightarrow> 'a \<Rightarrow> bool) \<Rightarrow> bool" where
  "swo f \<longleftrightarrow> (\<forall>a b. f a b \<longrightarrow> \<not> f b a) \<and> (\<forall>a b c. \<not> f a b \<and> \<not> f b c \<longrightarrow> \<not> f a c)"

definition tied :: "('a \<Rightarrow> 'a \<Rightarrow> bool) \<Rightarrow> 'a \<Rightarrow> 'a \<Rightarrow> bool" where
  "tied f a b \<longleftrightarrow> \<not> f a b \<and> \<not> f b a"

text \<open>
  The relation on elements that \<^verbatim>\<open>Less\<close> computes for a non-empty comparator
  list (lemma \<open>Less_chain\<close> below), and the insertion of one element into the
  reversed sorted prefix that one run of the inner loop of the insertion sort
  performs (lemma \<open>insertionSort_inner_pre\<close> below).
\<close>

fun less_chain :: "('a \<Rightarrow> 'a \<Rightarrow> bool) list \<Rightarrow> 'a \<Rightarrow> 'a \<Rightarrow> bool" where
  "less_chain [] a b = False"
| "less_chain [c] a b = c a b"
| "less_chain (c # c' # cs) a b =
     (if c a b then True else if c b a then False else less_chain (c' # cs) a b)"

fun ins :: "('a \<Rightarrow> 'a \<Rightarrow> bool) \<Rightarrow> 'a \<Rightarrow> 'a list \<Rightarrow> 'a list" where
  "ins lt x [] = [x]"
| "ins lt x (y # ys) = (if lt x y then y # ins lt x ys else x # y # ys)"

text \<open>
  A list is \<^emph>\<open>sorted\<close> under a less-than relation when no element is less than
  an earlier one. A list \<open>ys\<close> is the \<^emph>\<open>stable sorting\<close> of \<open>xs\<close> when it is sorted
  and, for every \<open>x\<close>, the elements tied with \<open>x\<close> are the same in both and in
  the same order. A list is the \<^emph>\<open>blockwise\<close> stable sorting of \<open>xs\<close> for the
  block size \<open>k\<close> when it consists of the stable sortings of the consecutive
  blocks of \<open>k\<close> elements of \<open>xs\<close>, the last block being possibly shorter.
\<close>

definition srt :: "('a \<Rightarrow> 'a \<Rightarrow> bool) \<Rightarrow> 'a list \<Rightarrow> bool" where
  "srt lt xs \<longleftrightarrow> sorted_wrt (\<lambda>a b. \<not> lt b a) xs"

definition stable_of :: "('a \<Rightarrow> 'a \<Rightarrow> bool) \<Rightarrow> 'a list \<Rightarrow> 'a list \<Rightarrow> bool" where
  "stable_of lt xs ys \<longleftrightarrow>
     srt lt ys \<and> (\<forall>x. filter (\<lambda>y. \<not> lt x y \<and> \<not> lt y x) ys = filter (\<lambda>y. \<not> lt x y \<and> \<not> lt y x) xs)"

inductive blocked :: "('a \<Rightarrow> 'a \<Rightarrow> bool) \<Rightarrow> nat \<Rightarrow> 'a list \<Rightarrow> 'a list \<Rightarrow> bool"
  for lt :: "'a \<Rightarrow> 'a \<Rightarrow> bool" and k :: nat where
  last_block: "length X \<le> k \<Longrightarrow> stable_of lt X Y \<Longrightarrow> blocked lt k X Y"
| next_block: "length X = k \<Longrightarrow> stable_of lt X Y \<Longrightarrow> blocked lt k X' Y' \<Longrightarrow>
     blocked lt k (X @ X') (Y @ Y')"

text \<open>
  The state of a closure in a store, read off as a state of the first embedding;
  the cells a closure assigns to and the slices it reads; closures whose cells
  are pairwise distinct; stores that agree outside a set of cells; a store that
  extends another one, leaving every cell allocated before unchanged.
\<close>

primrec abs_cl :: "'a store \<Rightarrow> 'a closure \<Rightarrow> 'a Iterator" where
  "abs_cl \<sigma> (from_cl pa pi) = from_it (st_slices \<sigma> pa) (st_idxs \<sigma> pi)"
| "abs_cl \<sigma> (where_cl nxt f) = where_it (abs_cl \<sigma> nxt) f"
| "abs_cl \<sigma> (mapTo_cl nxt f) = mapTo_it (abs_cl \<sigma> nxt) f"
| "abs_cl \<sigma> (expand_cl nxt f ps) = expand_it (abs_cl \<sigma> nxt) f (st_exps \<sigma> ps)"
| "abs_cl \<sigma> (join_cl nxt lut outKeySel resultSel ps) =
     join_it (abs_cl \<sigma> nxt) lut outKeySel resultSel (st_joins \<sigma> ps)"
| "abs_cl \<sigma> (skip_cl nxt pn) = skip_it (abs_cl \<sigma> nxt) (st_ints \<sigma> pn)"
| "abs_cl \<sigma> (take_cl nxt pn) = take_it (abs_cl \<sigma> nxt) (st_ints \<sigma> pn)"
| "abs_cl \<sigma> (sortBy_cl pa pi) = sortBy_it (st_slices \<sigma> pa) (st_idxs \<sigma> pi)"

primrec cells :: "'a closure \<Rightarrow> addr set" where
  "cells (from_cl pa pi) = {pi}"
| "cells (where_cl nxt f) = cells nxt"
| "cells (mapTo_cl nxt f) = cells nxt"
| "cells (expand_cl nxt f ps) = insert ps (cells nxt)"
| "cells (join_cl nxt lut outKeySel resultSel ps) = insert ps (cells nxt)"
| "cells (skip_cl nxt pn) = insert pn (cells nxt)"
| "cells (take_cl nxt pn) = insert pn (cells nxt)"
| "cells (sortBy_cl pa pi) = {pi}"

primrec reads :: "'a closure \<Rightarrow> addr set" where
  "reads (from_cl pa pi) = {pa}"
| "reads (where_cl nxt f) = reads nxt"
| "reads (mapTo_cl nxt f) = reads nxt"
| "reads (expand_cl nxt f ps) = reads nxt"
| "reads (join_cl nxt lut outKeySel resultSel ps) = reads nxt"
| "reads (skip_cl nxt pn) = reads nxt"
| "reads (take_cl nxt pn) = reads nxt"
| "reads (sortBy_cl pa pi) = {pa}"

primrec wf_cl :: "'a closure \<Rightarrow> bool" where
  "wf_cl (from_cl pa pi) = True"
| "wf_cl (where_cl nxt f) = wf_cl nxt"
| "wf_cl (mapTo_cl nxt f) = wf_cl nxt"
| "wf_cl (expand_cl nxt f ps) = (wf_cl nxt \<and> ps \<notin> cells nxt)"
| "wf_cl (join_cl nxt lut outKeySel resultSel ps) = (wf_cl nxt \<and> ps \<notin> cells nxt)"
| "wf_cl (skip_cl nxt pn) = (wf_cl nxt \<and> pn \<notin> cells nxt)"
| "wf_cl (take_cl nxt pn) = (wf_cl nxt \<and> pn \<notin> cells nxt)"
| "wf_cl (sortBy_cl pa pi) = True"

definition same_outside :: "addr set \<Rightarrow> 'a store \<Rightarrow> 'a store \<Rightarrow> bool" where
  "same_outside A \<sigma> \<sigma>' \<longleftrightarrow>
     st_free \<sigma>' = st_free \<sigma> \<and> st_slices \<sigma>' = st_slices \<sigma> \<and>
     (\<forall>p. p \<notin> A \<longrightarrow> st_ints \<sigma>' p = st_ints \<sigma> p \<and> st_idxs \<sigma>' p = st_idxs \<sigma> p
        \<and> st_exps \<sigma>' p = st_exps \<sigma> p \<and> st_joins \<sigma>' p = st_joins \<sigma> p)"

definition sim :: "'a closure \<Rightarrow> 'a store \<Rightarrow> 'a pull_st res \<Rightarrow> 'a pull res \<Rightarrow> bool" where
  "sim c \<sigma> rs rp \<longleftrightarrow>
     (case rs of
        Panic \<Rightarrow> rp = Panic
      | Ok ((e, ok), \<sigma>') \<Rightarrow> rp = Ok ((e, ok), abs_cl \<sigma>' c) \<and> same_outside (cells c) \<sigma> \<sigma>')"

primrec abs_q :: "'a store \<Rightarrow> 'a factory \<Rightarrow> 'a Query" where
  "abs_q \<sigma> (From_f pa) = From (st_slices \<sigma> pa)"
| "abs_q \<sigma> (Where_f q f) = Where (abs_q \<sigma> q) f"
| "abs_q \<sigma> (MapTo_f q f) = MapTo (abs_q \<sigma> q) f"
| "abs_q \<sigma> (Expand_f q f) = Expand (abs_q \<sigma> q) f"
| "abs_q \<sigma> (Join_f q inner outKeySel innKeySel resultSel) =
     Join (abs_q \<sigma> q) (abs_q \<sigma> inner) outKeySel innKeySel resultSel"
| "abs_q \<sigma> (Skip_f q n) = Skip (abs_q \<sigma> q) n"
| "abs_q \<sigma> (Sort_f q f) = Sort (abs_q \<sigma> q) f"
| "abs_q \<sigma> (Take_f q n) = Take (abs_q \<sigma> q) n"

primrec sources :: "'a factory \<Rightarrow> addr set" where
  "sources (From_f pa) = {pa}"
| "sources (Where_f q f) = sources q"
| "sources (MapTo_f q f) = sources q"
| "sources (Expand_f q f) = sources q"
| "sources (Join_f q inner outKeySel innKeySel resultSel) = sources q \<union> sources inner"
| "sources (Skip_f q n) = sources q"
| "sources (Sort_f q f) = sources q"
| "sources (Take_f q n) = sources q"

definition extends :: "'a store \<Rightarrow> 'a store \<Rightarrow> bool" where
  "extends \<sigma> \<sigma>' \<longleftrightarrow>
     st_free \<sigma> \<le> st_free \<sigma>' \<and>
     (\<forall>p<st_free \<sigma>. st_ints \<sigma>' p = st_ints \<sigma> p \<and> st_idxs \<sigma>' p = st_idxs \<sigma> p
        \<and> st_exps \<sigma>' p = st_exps \<sigma> p \<and> st_joins \<sigma>' p = st_joins \<sigma> p
        \<and> st_slices \<sigma>' p = st_slices \<sigma> p)"

definition fresh_cl :: "'a store \<Rightarrow> 'a closure \<Rightarrow> 'a store \<Rightarrow> bool" where
  "fresh_cl \<sigma> c \<sigma>' \<longleftrightarrow>
     wf_cl c \<and> (\<forall>p\<in>cells c. st_free \<sigma> \<le> p \<and> p < st_free \<sigma>')
     \<and> (\<forall>p\<in>reads c. p < st_free \<sigma>') \<and> extends \<sigma> \<sigma>'"

definition example_store :: "nat store" where
  "example_store = \<lparr>st_ints = (\<lambda>_. 0), st_idxs = (\<lambda>_. 0),
     st_exps = (\<lambda>_. \<lparr>exp_outer = None, exp_inner = [], exp_i = 0, exp_len = 0\<rparr>),
     st_joins = (\<lambda>_. \<lparr>join_outer = None, join_inner = [], join_i = 0, join_len = 0\<rparr>),
     st_slices = (\<lambda>_. [])(0 := [Some 4, Some 3, Some 7, Some 2]), st_free = 1\<rparr>"

section \<open>Outcomes and the draining loop\<close>

lemma bind_res_eq_Some:
  "bind_res m k = Some r \<longleftrightarrow> (m = panic \<and> r = Panic) \<or> (\<exists>x. m = return x \<and> k x = Some r)"
  by (cases m; simp split: res.splits) auto

lemma bind_res_eq_return:
  "bind_res m k = return y \<longleftrightarrow> (\<exists>x. m = return x \<and> k x = return y)"
  by (simp add: bind_res_eq_Some)

lemma lut_index_cases:
  obtains (Panic) "lut_index lut k = Panic" | (None) "lut_index lut k = Ok None"
    | (Some) g where "lut_index lut k = Ok (Some g)"
  by (cases "lut_index lut k") auto

lemma all_pass_foldl: "foldl (\<lambda>has fk. has \<and> fk elem) b f \<longleftrightarrow> b \<and> (\<forall>p\<in>set f. p elem)"
  by (induction f arbitrary: b) auto

lemma all_pass_iff: "all_pass f elem \<longleftrightarrow> (\<forall>p\<in>set f. p elem)"
  by (simp add: all_pass_def all_pass_foldl)

lemma ToSlice_loop_step:
  "ToSlice_loop it acc = return ys \<longleftrightarrow>
     (\<exists>e ok it'. next_it it = return ((e, ok), it') \<and>
         (if ok then ToSlice_loop it' (acc @ [e]) = return ys else ys = acc))"
  by (subst ToSlice_loop.simps) (auto simp: bind_res_eq_return)

text \<open>
  The slice returned by the loop extends the accumulator, and the extension does
  not depend on the accumulator. Proved by fixpoint induction on the loop.
\<close>

lemma ToSlice_loop_acc_aux:
  assumes "ToSlice_loop it acc = Some r"
  shows "\<forall>ys. r = Ok ys \<longrightarrow>
           (\<exists>xs. ys = acc @ xs \<and> (\<forall>acc'. ToSlice_loop it acc' = return (acc' @ xs)))"
proof (rule ToSlice_loop.raw_induct[where P = "\<lambda>it acc r. \<forall>ys. r = Ok ys \<longrightarrow>
           (\<exists>xs. ys = acc @ xs \<and> (\<forall>acc'. ToSlice_loop it acc' = return (acc' @ xs)))", OF _ assms])
  fix loop :: "'a Iterator \<Rightarrow> 'a T list \<Rightarrow> 'a T list res option" and it acc r
  assume IH: "\<And>a b y. loop a b = Some y \<Longrightarrow> \<forall>ys. y = Ok ys \<longrightarrow>
           (\<exists>xs. ys = b @ xs \<and> (\<forall>acc'. ToSlice_loop a acc' = return (acc' @ xs)))"
    and body: "bind_res (next_it it) (\<lambda>((elem, ok), nxt').
                 if ok then loop nxt' (acc @ [elem]) else return acc) = Some r"
  show "\<forall>ys. r = Ok ys \<longrightarrow>
           (\<exists>xs. ys = acc @ xs \<and> (\<forall>acc'. ToSlice_loop it acc' = return (acc' @ xs)))"
  proof (intro allI impI)
    fix ys assume r: "r = Ok ys"
    from body r obtain e ok it' where nx: "next_it it = return ((e, ok), it')"
      and b: "(if ok then loop it' (acc @ [e]) else return acc) = return ys"
      by (auto simp: bind_res_eq_return)
    show "\<exists>xs. ys = acc @ xs \<and> (\<forall>acc'. ToSlice_loop it acc' = return (acc' @ xs))"
    proof (cases ok)
      case True
      with b have "loop it' (acc @ [e]) = return ys" by simp
      from IH[OF this] obtain xs where xs: "ys = (acc @ [e]) @ xs"
        and all: "\<forall>acc'. ToSlice_loop it' acc' = return (acc' @ xs)" by blast
      have "\<forall>acc'. ToSlice_loop it acc' = return (acc' @ (e # xs))"
        using nx True all by (subst ToSlice_loop.simps) simp
      with xs show ?thesis by auto
    next
      case False
      with b have "ys = acc" by simp
      moreover have "\<forall>acc'. ToSlice_loop it acc' = return (acc' @ [])"
        using nx False by (subst ToSlice_loop.simps) simp
      ultimately show ?thesis by auto
    qed
  qed
qed

lemma drains_Nil: "drains it [] \<longleftrightarrow> (\<exists>e it'. next_it it = return ((e, False), it'))"
proof
  assume "drains it []"
  then have t: "ToSlice_loop it [] = return []" by (simp add: drains_def)
  then obtain e ok it' where nx: "next_it it = return ((e, ok), it')"
      and body: "if ok then ToSlice_loop it' ([] @ [e]) = return [] else True"
    unfolding ToSlice_loop_step[of it] by (auto split: if_splits)
  have "\<not> ok"
  proof
    assume ok
    with body have "ToSlice_loop it' [e] = return []" by simp
    from ToSlice_loop_acc_aux[OF this] show False by simp
  qed
  with nx show "\<exists>e it'. next_it it = return ((e, False), it')" by auto
next
  assume "\<exists>e it'. next_it it = return ((e, False), it')"
  then show "drains it []"
    unfolding drains_def by (subst ToSlice_loop.simps) auto
qed

lemma drains_Cons:
  "drains it (x # xs) \<longleftrightarrow> (\<exists>it'. next_it it = return ((x, True), it') \<and> drains it' xs)"
proof
  assume "drains it (x # xs)"
  then have t: "ToSlice_loop it [] = return (x # xs)" by (simp add: drains_def)
  then obtain e ok it' where nx: "next_it it = return ((e, ok), it')"
      and body: "if ok then ToSlice_loop it' ([] @ [e]) = return (x # xs) else x # xs = []"
    unfolding ToSlice_loop_step[of it] by (auto split: if_splits)
  from body have ok: ok by (cases ok) auto
  with body have b: "ToSlice_loop it' [e] = return (x # xs)" by simp
  from ToSlice_loop_acc_aux[OF b] obtain zs where zs: "x # xs = [e] @ zs"
    and all: "\<forall>acc'. ToSlice_loop it' acc' = return (acc' @ zs)" by blast
  from zs have "e = x" "zs = xs" by auto
  with all have "drains it' xs" by (simp add: drains_def)
  with nx ok \<open>e = x\<close> show "\<exists>it'. next_it it = return ((x, True), it') \<and> drains it' xs" by auto
next
  assume "\<exists>it'. next_it it = return ((x, True), it') \<and> drains it' xs"
  then obtain it' where nx: "next_it it = return ((x, True), it')" and d: "drains it' xs" by blast
  from d have "ToSlice_loop it' [] = return xs" by (simp add: drains_def)
  from ToSlice_loop_acc_aux[OF this] have "ToSlice_loop it' [x] = return (x # xs)" by auto
  with nx show "drains it (x # xs)"
    unfolding drains_def by (subst ToSlice_loop.simps) auto
qed

lemma drains_cong: "next_it a = next_it b \<Longrightarrow> drains a xs = drains b xs"
  by (simp add: drains_def ToSlice_loop.simps[of a] ToSlice_loop.simps[of b])

lemma ToSlice_iff: "ToSlice q = return xs \<longleftrightarrow> (\<exists>it. Iterate q () = return it \<and> drains it xs)"
  by (simp add: ToSlice_def drains_def bind_res_eq_return)

section \<open>The source adapter\<close>

lemma next_from: "next_it (from_it a i) =
   (if i < length a then return ((a ! i, True), from_it a (i + 1))
    else return ((None, False), from_it a i))"
  by (subst next_it.simps) simp

lemma drains_from_it: "drains (from_it a i) (drop i a)"
proof (induction "length a - i" arbitrary: i)
  case 0
  then show ?case by (simp add: drains_Nil next_from)
next
  case (Suc k)
  then have lt: "i < length a" by simp
  from Suc have "drains (from_it a (Suc i)) (drop (Suc i) a)" by simp
  with lt show ?case
    by (simp add: drains_Cons next_from Cons_nth_drop_Suc[symmetric])
qed

lemma Iterate_From: "Iterate (From a) () = return (from_it a 0)"
  by (simp add: From_def from'_def)

lemma ToSlice_From: "ToSlice (From a) = return a"
  using drains_from_it[of a 0] by (simp add: ToSlice_iff Iterate_From)

section \<open>Where\<close>

lemma next_where:
  "next_it (where_it nxt f) =
     bind_res (next_it nxt) (\<lambda>((elem, ok), nxt').
           if ok then
             (if all_pass f elem then return ((elem, True), where_it nxt' f)
              else next_it (where_it nxt' f))
           else return ((elem, False), where_it nxt' f))"
  by (subst next_it.simps) simp

lemma where_drains: "drains nxt xs \<Longrightarrow> drains (where_it nxt f) (filter (all_pass f) xs)"
proof (induction xs arbitrary: nxt)
  case Nil
  then show ?case by (auto simp: drains_Nil next_where)
next
  case (Cons x xs)
  then obtain nxt' where nx: "next_it nxt = return ((x, True), nxt')" and d: "drains nxt' xs"
    by (auto simp: drains_Cons)
  note IH = Cons.IH[OF d]
  show ?case
  proof (cases "all_pass f x")
    case True
    with nx IH show ?thesis by (simp add: drains_Cons next_where)
  next
    case False
    with nx have "next_it (where_it nxt f) = next_it (where_it nxt' f)"
      by (simp add: next_where)
    from drains_cong[OF this] IH False show ?thesis by simp
  qed
qed

lemma Iterate_Where:
  "Iterate q () = return it \<Longrightarrow> Iterate (Where q f) () = return (where_it it f)"
  by (simp add: Where_def where'_def)

text \<open>
  Claim C4. If the upstream query is a finite sequence with elements \<open>s\<close>, then
  \<^verbatim>\<open>Where\<close> with predicates \<open>p\<close> returns exactly the elements of \<open>s\<close> that satisfy
  every predicate of \<open>p\<close>, in their original order; the result is a sub-multiset
  of \<open>s\<close>; and with no predicate the result is \<open>s\<close> itself.
\<close>

theorem Where_keeps_exactly_passing:
  assumes "ToSlice q = return s"
  shows "ToSlice (Where q p) = return (filter (\<lambda>e. \<forall>f\<in>set p. f e) s)
       \<and> mset (filter (\<lambda>e. \<forall>f\<in>set p. f e) s) \<subseteq># mset s
       \<and> ToSlice (Where q []) = return s"
proof -
  from assms obtain it where it: "Iterate q () = return it" and d: "drains it s"
    by (auto simp: ToSlice_iff)
  have gen: "ToSlice (Where q p') = return (filter (\<lambda>e. \<forall>f\<in>set p'. f e) s)" for p'
    using where_drains[OF d, of p'] Iterate_Where[OF it, of p']
    by (simp add: ToSlice_iff all_pass_iff[abs_def])
  from gen[of p] gen[of "[]"] show ?thesis by simp
qed

theorem Where_keeps_exactly_passing_witness:
  "ToSlice (From [Some (1::nat), Some 2, Some 3, Some 4, Some 5])
      = return [Some 1, Some 2, Some 3, Some 4, Some 5]
   \<and> ToSlice (Where (From [Some (1::nat), Some 2, Some 3, Some 4, Some 5])
        [\<lambda>e. e \<noteq> None, \<lambda>e. case e of None \<Rightarrow> False | Some n \<Rightarrow> 3 < n]) = return [Some 4, Some 5]"
proof -
  have h: "ToSlice (From [Some (1::nat), Some 2, Some 3, Some 4, Some 5])
      = return [Some 1, Some 2, Some 3, Some 4, Some 5]"
    by (rule ToSlice_From)
  from Where_keeps_exactly_passing[OF h, of "[\<lambda>e. e \<noteq> None, \<lambda>e. case e of None \<Rightarrow> False | Some n \<Rightarrow> 3 < n]"] h
  show ?thesis by simp
qed

section \<open>Take and Skip\<close>

lemma next_take:
  "next_it (take_it nxt n) =
         (if n \<le> 0 then return ((None, False), take_it nxt n)
          else bind_res (next_it nxt) (\<lambda>(r, nxt'). return (r, take_it nxt' (n - 1))))"
  by (subst next_it.simps) simp

lemma take_drains: "drains nxt xs \<Longrightarrow> drains (take_it nxt n) (take (nat n) xs)"
proof (induction xs arbitrary: nxt n)
  case Nil
  then show ?case by (auto simp: drains_Nil next_take)
next
  case (Cons x xs)
  then obtain nxt' where nx: "next_it nxt = return ((x, True), nxt')" and d: "drains nxt' xs"
    by (auto simp: drains_Cons)
  show ?case
  proof (cases "n \<le> 0")
    case True
    then show ?thesis by (simp add: drains_Nil next_take)
  next
    case False
    then obtain k where k: "nat n = Suc k" "nat (n - 1) = k" by (cases "nat n") auto
    from Cons.IH[OF d, of "n - 1"] nx False k show ?thesis
      by (simp add: drains_Cons next_take)
  qed
qed

lemma take_nonpos_drains: "n \<le> 0 \<Longrightarrow> drains (take_it nxt n) []"
  by (simp add: drains_Nil next_take)

lemma next_skip:
  "next_it (skip_it nxt n) =
         (if n < 0 then return ((None, False), skip_it nxt n)
          else if n > 0 then
            bind_res (next_it nxt) (\<lambda>((_, ok), nxt').
              if \<not> ok then return ((None, False), skip_it nxt' n)
              else next_it (skip_it nxt' (n - 1)))
          else bind_res (next_it nxt) (\<lambda>(r, nxt'). return (r, skip_it nxt' n)))"
  by (subst next_it.simps) simp

lemma skip_neg_drains: "n < 0 \<Longrightarrow> drains (skip_it nxt n) []"
  by (simp add: drains_Nil next_skip)

lemma skip_drains: "drains nxt xs \<Longrightarrow> 0 \<le> n \<Longrightarrow> drains (skip_it nxt n) (drop (nat n) xs)"
proof (induction xs arbitrary: nxt n)
  case Nil
  then show ?case by (auto simp: drains_Nil next_skip)
next
  case (Cons x xs)
  then obtain nxt' where nx: "next_it nxt = return ((x, True), nxt')" and d: "drains nxt' xs"
    by (auto simp: drains_Cons)
  show ?case
  proof (cases "n = 0")
    case True
    with Cons.IH[OF d, of 0] nx show ?thesis
      by (simp add: drains_Cons next_skip)
  next
    case False
    with Cons.prems have pos: "0 < n" by simp
    then obtain k where k: "nat n = Suc k" "nat (n - 1) = k" by (cases "nat n") auto
    from nx pos have "next_it (skip_it nxt n) = next_it (skip_it nxt' (n - 1))"
      by (simp add: next_skip)
    from drains_cong[OF this] Cons.IH[OF d, of "n - 1"] pos k show ?thesis by simp
  qed
qed

lemma Iterate_Take:
  "Iterate q () = return it \<Longrightarrow> Iterate (Take q n) () = return (take_it it n)"
  by (simp add: Take_def take'_def)

lemma Iterate_Skip:
  "Iterate q () = return it \<Longrightarrow> Iterate (Skip q n) () = return (skip_it it n)"
  by (simp add: Skip_def skip_def)

lemma ToSlice_Take: "ToSlice q = return s \<Longrightarrow> ToSlice (Take q n) = return (take (nat n) s)"
  using take_drains Iterate_Take by (fastforce simp: ToSlice_iff)

lemma ToSlice_Skip:
  "ToSlice q = return s \<Longrightarrow> 0 \<le> n \<Longrightarrow> ToSlice (Skip q n) = return (drop (nat n) s)"
  using skip_drains Iterate_Skip by (fastforce simp: ToSlice_iff)

lemma ToSlice_Skip_neg:
  "Iterate q () = return it \<Longrightarrow> n < 0 \<Longrightarrow> ToSlice (Skip q n) = return []"
  using skip_neg_drains Iterate_Skip by (fastforce simp: ToSlice_iff)

lemma ToSlice_Take_nonpos:
  "Iterate q () = return it \<Longrightarrow> n \<le> 0 \<Longrightarrow> ToSlice (Take q n) = return []"
  using take_nonpos_drains Iterate_Take by (fastforce simp: ToSlice_iff)

text \<open>
  Claim C3, as stated for every integer \<open>n\<close>, fails for a negative \<open>n\<close> on a
  non-empty sequence: \<^verbatim>\<open>take\<close> returns at once for \<^verbatim>\<open>n <= 0\<close> and \<^verbatim>\<open>skip\<close> has the
  guard \<^verbatim>\<open>if n < 0 { return }\<close>, so both parts are empty and the element of the
  source is in neither.
\<close>

theorem Take_Skip_negative_counterexample:
  "ToSlice (Take (From [Some (1::nat)]) (- 1)) = return []
   \<and> ToSlice (Skip (From [Some (1::nat)]) (- 1)) = return []
   \<and> [] @ [] \<noteq> [Some (1::nat)]"
  using ToSlice_Take_nonpos[OF Iterate_From, of "- 1" "[Some (1::nat)]"]
    ToSlice_Skip_neg[OF Iterate_From, of "- 1" "[Some (1::nat)]"]
  by simp

text \<open>
  Claim C3, amended. For a finite sequence with elements \<open>s\<close> and every
  \<open>n \<ge> 0\<close>, \<^verbatim>\<open>Take\<close> returns the first \<open>min n |s|\<close> elements of \<open>s\<close> and \<^verbatim>\<open>Skip\<close>
  returns the remaining ones, so that the two results concatenated are \<open>s\<close>.
\<close>

theorem Take_Skip_partition:
  assumes "ToSlice q = return s" and "0 \<le> n"
  shows "ToSlice (Take q n) = return (take (nat n) s)
       \<and> ToSlice (Skip q n) = return (drop (nat n) s)
       \<and> take (nat n) s @ drop (nat n) s = s
       \<and> length (take (nat n) s) = min (nat n) (length s)"
  using ToSlice_Take[OF assms(1), of n] ToSlice_Skip[OF assms] by (simp add: min.commute)

theorem Take_Skip_partition_witness:
  "ToSlice (From [Some (1::nat), Some 2, Some 3]) = return [Some 1, Some 2, Some 3]
   \<and> (0::int) \<le> 2
   \<and> ToSlice (Take (From [Some (1::nat), Some 2, Some 3]) 2) = return [Some 1, Some 2]
   \<and> ToSlice (Skip (From [Some (1::nat), Some 2, Some 3]) 2) = return [Some 3]"
proof -
  have h: "ToSlice (From [Some (1::nat), Some 2, Some 3]) = return [Some 1, Some 2, Some 3]"
    by (rule ToSlice_From)
  have n: "(0::int) \<le> 2" by simp
  from Take_Skip_partition[OF h n] h show ?thesis by simp
qed

text \<open>
  Claim C7. For every query whose factory returns an iterator, \<^verbatim>\<open>Skip\<close> with a
  negative count is the empty sequence, and \<^verbatim>\<open>Take\<close> with a count \<open>\<le> 0\<close> is the
  empty sequence.
\<close>

theorem Skip_Take_nonpositive_empty:
  assumes "Iterate q () = return it" and "n < 0" and "m \<le> 0"
  shows "ToSlice (Skip q n) = return [] \<and> ToSlice (Take q m) = return []"
  using ToSlice_Skip_neg[OF assms(1,2)] ToSlice_Take_nonpos[OF assms(1,3)] by simp

theorem Skip_Take_nonpositive_empty_witness:
  "Iterate (From [Some (1::nat), Some 2]) () = return (from_it [Some 1, Some 2] 0)
   \<and> (- 3 :: int) < 0 \<and> (0::int) \<le> 0
   \<and> ToSlice (Skip (From [Some (1::nat), Some 2]) (- 3)) = return []
   \<and> ToSlice (Take (From [Some (1::nat), Some 2]) 0) = return []"
proof -
  have h: "Iterate (From [Some (1::nat), Some 2]) () = return (from_it [Some 1, Some 2] 0)"
    by (rule Iterate_From)
  have n: "(- 3 :: int) < 0" and m: "(0::int) \<le> 0" by simp_all
  from Skip_Take_nonpositive_empty[OF h n m] h show ?thesis by simp
qed

section \<open>Expand\<close>

lemma next_expand:
  "next_it (expand_it nxt f s) =
         (if exp_i s \<ge> exp_len s then
            bind_res (next_it nxt) (\<lambda>((outer, ok), nxt').
              if \<not> ok then return ((None, False), expand_it nxt' f (s\<lparr>exp_outer := outer\<rparr>))
              else next_it (expand_it nxt' f
                     (s\<lparr>exp_outer := outer, exp_inner := f outer,
                        exp_len := length (f outer), exp_i := 0\<rparr>)))
          else if exp_i s < length (exp_inner s)
          then return ((exp_inner s ! exp_i s, True), expand_it nxt f (s\<lparr>exp_i := exp_i s + 1\<rparr>))
          else panic)"
  by (subst next_it.simps) simp

text \<open>Emitting the rest of the current expansion.\<close>

lemma expand_pending:
  assumes "drains (expand_it nxt f (s\<lparr>exp_i := exp_len s\<rparr>)) ys"
    and "exp_len s \<le> length (exp_inner s)" and "exp_i s \<le> exp_len s"
  shows "drains (expand_it nxt f s) (drop (exp_i s) (take (exp_len s) (exp_inner s)) @ ys)"
  using assms
proof (induction "exp_len s - exp_i s" arbitrary: s)
  case 0
  then have "exp_i s = exp_len s" by simp
  then have "s\<lparr>exp_i := exp_len s\<rparr> = s" by simp
  with 0 show ?case by simp
next
  case (Suc k)
  then have lt: "exp_i s < exp_len s" by simp
  let ?s' = "s\<lparr>exp_i := exp_i s + 1\<rparr>"
  have "drains (expand_it nxt f ?s') (drop (exp_i ?s') (take (exp_len ?s') (exp_inner ?s')) @ ys)"
    using Suc by (intro Suc.hyps(1)) auto
  then have d: "drains (expand_it nxt f ?s')
      (drop (Suc (exp_i s)) (take (exp_len s) (exp_inner s)) @ ys)" by simp
  have nx: "next_it (expand_it nxt f s) = return ((exp_inner s ! exp_i s, True), expand_it nxt f ?s')"
    using lt Suc.prems(2) by (simp add: next_expand)
  have "drop (exp_i s) (take (exp_len s) (exp_inner s))
      = exp_inner s ! exp_i s # drop (Suc (exp_i s)) (take (exp_len s) (exp_inner s))"
    using lt Suc.prems(2) by (simp add: Cons_nth_drop_Suc[symmetric])
  with nx d show ?case by (simp add: drains_Cons)
qed

lemma expand_drains:
  "drains nxt xs \<Longrightarrow> exp_len s \<le> exp_i s \<Longrightarrow>
     drains (expand_it nxt f s) (concat (map f xs))"
proof (induction xs arbitrary: nxt s)
  case Nil
  then show ?case by (auto simp: drains_Nil next_expand)
next
  case (Cons x xs)
  then obtain nxt' where nx: "next_it nxt = return ((x, True), nxt')" and d: "drains nxt' xs"
    by (auto simp: drains_Cons)
  let ?s' = "s\<lparr>exp_outer := x, exp_inner := f x, exp_len := length (f x), exp_i := 0\<rparr>"
  have "drains (expand_it nxt' f (?s'\<lparr>exp_i := exp_len ?s'\<rparr>)) (concat (map f xs))"
    by (rule Cons.IH[OF d]) simp
  from expand_pending[OF this]
  have "drains (expand_it nxt' f ?s') (f x @ concat (map f xs))" by simp
  moreover have "next_it (expand_it nxt f s) = next_it (expand_it nxt' f ?s')"
    using nx Cons.prems(2) by (simp add: next_expand)
  ultimately show ?case using drains_cong by fastforce
qed

lemma Iterate_Expand:
  "Iterate q () = return it \<Longrightarrow> Iterate (Expand q f) () =
     return (expand_it it f \<lparr>exp_outer = None, exp_inner = [], exp_i = 0, exp_len = 0\<rparr>)"
  by (simp add: Expand_def expand_def)

text \<open>
  Claim C6. If the upstream query is a finite sequence with elements \<open>s\<close>, then
  \<^verbatim>\<open>Expand\<close> with \<open>f\<close> returns the concatenation, in upstream order, of \<open>f\<close> applied
  to each element of \<open>s\<close>; for \<open>f = (\<lambda>x. [x])\<close> it returns \<open>s\<close>.
\<close>

theorem Expand_concat:
  assumes "ToSlice q = return s"
  shows "ToSlice (Expand q f) = return (concat (map f s))
       \<and> ToSlice (Expand q (\<lambda>x. [x])) = return s"
proof -
  from assms obtain it where it: "Iterate q () = return it" and d: "drains it s"
    by (auto simp: ToSlice_iff)
  have gen: "ToSlice (Expand q g) = return (concat (map g s))" for g
    using expand_drains[OF d, of "\<lparr>exp_outer = None, exp_inner = [], exp_i = 0, exp_len = 0\<rparr>" g]
      Iterate_Expand[OF it, of g]
    by (simp add: ToSlice_iff)
  have "concat (map (\<lambda>x. [x]) s) = s" by (induction s) auto
  with gen[of f] gen[of "\<lambda>x. [x]"] show ?thesis by simp
qed

theorem Expand_concat_witness:
  "ToSlice (From [Some (1::nat), Some 2, Some 3]) = return [Some 1, Some 2, Some 3]
   \<and> ToSlice (Expand (From [Some (1::nat), Some 2, Some 3]) (\<lambda>x. [x, x]))
       = return [Some 1, Some 1, Some 2, Some 2, Some 3, Some 3]
   \<and> ToSlice (Expand (From [Some (1::nat), Some 2, Some 3]) (\<lambda>x. [x]))
       = return [Some 1, Some 2, Some 3]"
proof -
  have h: "ToSlice (From [Some (1::nat), Some 2, Some 3]) = return [Some 1, Some 2, Some 3]"
    by (rule ToSlice_From)
  from Expand_concat[OF h, of "\<lambda>x. [x, x]"] h show ?thesis by simp
qed

section \<open>Exhausted iterators\<close>

lemma next_mapTo:
  "next_it (mapTo_it nxt f) =
         bind_res (next_it nxt) (\<lambda>((elem, ok), nxt').
           if ok then
             (case elem of None \<Rightarrow> panic
              | Some _ \<Rightarrow> return ((f elem, ok), mapTo_it nxt' f))
           else return ((elem, ok), mapTo_it nxt' f))"
  by (subst next_it.simps) simp

lemma next_join:
  "next_it (join_it nxt lut outKeySel resultSel s) =
         (if join_i s \<ge> join_len s then
            bind_res (next_it nxt) (\<lambda>((outer, ok), nxt').
              if \<not> ok then return ((None, False),
                 join_it nxt' lut outKeySel resultSel (s\<lparr>join_outer := outer\<rparr>))
              else (case lut_index lut (outKeySel outer) of
                  Panic \<Rightarrow> panic
                | Ok None \<Rightarrow> next_it (join_it nxt' lut outKeySel resultSel
                     (s\<lparr>join_outer := outer, join_inner := [], join_len := 0, join_i := 0\<rparr>))
                | Ok (Some g) \<Rightarrow> join_emit nxt' lut outKeySel resultSel
                     (s\<lparr>join_outer := outer, join_inner := g, join_len := length g, join_i := 0\<rparr>)))
          else join_emit nxt lut outKeySel resultSel s)"
  by (subst next_it.simps) simp

lemma next_sortBy: "next_it (sortBy_it a i) =
   (if i < length a then return ((a ! i, True), sortBy_it a (i + 1))
    else return ((None, False), sortBy_it a i))"
  by (subst next_it.simps) simp

text \<open>
  Every closure of the package ends well from every state: once an iterator has
  reported \<^verbatim>\<open>ok = false\<close> it keeps returning \<^verbatim>\<open>(nil, false)\<close>. Proved by fixpoint
  induction on \<open>next_it\<close>, with one case per closure.
\<close>

lemma next_ends_well:
  assumes "next_it it = Some r"
  shows "ends_well r"
proof (rule next_it.raw_induct[where P = "\<lambda>it r. ends_well r", OF _ assms])
  fix nx :: "'a Iterator \<Rightarrow> 'a pull res option" and it r
  assume IH: "\<And>x y. nx x = Some y \<Longrightarrow> ends_well y"
  assume body: "(case it of
       from_it a i \<Rightarrow>
         (if i < length a then return ((a ! i, True), from_it a (i + 1))
          else return ((None, False), from_it a i))
     | where_it nxt f \<Rightarrow>
         bind_res (nx nxt) (\<lambda>((elem, ok), nxt').
           if ok then
             (if all_pass f elem then return ((elem, True), where_it nxt' f)
              else nx (where_it nxt' f))
           else return ((elem, False), where_it nxt' f))
     | mapTo_it nxt f \<Rightarrow>
         bind_res (nx nxt) (\<lambda>((elem, ok), nxt').
           if ok then
             (case elem of None \<Rightarrow> panic
              | Some _ \<Rightarrow> return ((f elem, ok), mapTo_it nxt' f))
           else return ((elem, ok), mapTo_it nxt' f))
     | expand_it nxt f s \<Rightarrow>
         (if exp_i s \<ge> exp_len s then
            bind_res (nx nxt) (\<lambda>((outer, ok), nxt').
              if \<not> ok then return ((None, False), expand_it nxt' f (s\<lparr>exp_outer := outer\<rparr>))
              else nx (expand_it nxt' f
                     (s\<lparr>exp_outer := outer, exp_inner := f outer,
                        exp_len := length (f outer), exp_i := 0\<rparr>)))
          else if exp_i s < length (exp_inner s)
          then return ((exp_inner s ! exp_i s, True), expand_it nxt f (s\<lparr>exp_i := exp_i s + 1\<rparr>))
          else panic)
     | join_it nxt lut outKeySel resultSel s \<Rightarrow>
         (if join_i s \<ge> join_len s then
            bind_res (nx nxt) (\<lambda>((outer, ok), nxt').
              if \<not> ok then return ((None, False),
                 join_it nxt' lut outKeySel resultSel (s\<lparr>join_outer := outer\<rparr>))
              else (case lut_index lut (outKeySel outer) of
                  Panic \<Rightarrow> panic
                | Ok None \<Rightarrow> nx (join_it nxt' lut outKeySel resultSel
                     (s\<lparr>join_outer := outer, join_inner := [], join_len := 0, join_i := 0\<rparr>))
                | Ok (Some g) \<Rightarrow> join_emit nxt' lut outKeySel resultSel
                     (s\<lparr>join_outer := outer, join_inner := g, join_len := length g, join_i := 0\<rparr>)))
          else join_emit nxt lut outKeySel resultSel s)
     | skip_it nxt n \<Rightarrow>
         (if n < 0 then return ((None, False), skip_it nxt n)
          else if n > 0 then
            bind_res (nx nxt) (\<lambda>((_, ok), nxt').
              if \<not> ok then return ((None, False), skip_it nxt' n)
              else nx (skip_it nxt' (n - 1)))
          else bind_res (nx nxt) (\<lambda>(r, nxt'). return (r, skip_it nxt' n)))
     | take_it nxt n \<Rightarrow>
         (if n \<le> 0 then return ((None, False), take_it nxt n)
          else bind_res (nx nxt) (\<lambda>(r, nxt'). return (r, take_it nxt' (n - 1))))
     | sortBy_it a i \<Rightarrow>
         (if i < length a then return ((a ! i, True), sortBy_it a (i + 1))
          else return ((None, False), sortBy_it a i))) = Some r"
  show "ends_well r"
  proof (cases it)
    case (from_it a i)
    with body show ?thesis
      by (auto simp: ends_well_def stuck_def next_from split: if_splits)
  next
    case (where_it nxt f)
    with body consider "r = Panic"
      | e ok nxt' where "nx nxt = return ((e, ok), nxt')"
          "(if ok then (if all_pass f e then return ((e, True), where_it nxt' f)
              else nx (where_it nxt' f))
           else return ((e, False), where_it nxt' f)) = Some r"
      by (auto simp: bind_res_eq_Some)
    then show ?thesis
    proof cases
      case 1 then show ?thesis by (simp add: ends_well_def)
    next
      case 2
      from IH[OF 2(1)] have up: "\<not> ok \<Longrightarrow> e = None \<and> stuck nxt'"
        by (auto simp: ends_well_def)
      show ?thesis
      proof (cases ok)
        case True
        with 2(2) IH show ?thesis by (auto simp: ends_well_def split: if_splits)
      next
        case False
        with up obtain nxt'' where "next_it nxt' = return ((None, False), nxt'')" "e = None"
          by (auto simp: stuck_def)
        then have "stuck (where_it nxt' f)" by (simp add: stuck_def next_where)
        with False 2(2) \<open>e = None\<close> show ?thesis by (auto simp: ends_well_def)
      qed
    qed
  next
    case (mapTo_it nxt f)
    with body consider "r = Panic"
      | e ok nxt' where "nx nxt = return ((e, ok), nxt')"
          "(if ok then
             (case e of None \<Rightarrow> panic
              | Some _ \<Rightarrow> return ((f e, ok), mapTo_it nxt' f))
           else return ((e, ok), mapTo_it nxt' f)) = Some r"
      by (auto simp: bind_res_eq_Some)
    then show ?thesis
    proof cases
      case 1 then show ?thesis by (simp add: ends_well_def)
    next
      case 2
      from IH[OF 2(1)] have up: "\<not> ok \<Longrightarrow> e = None \<and> stuck nxt'"
        by (auto simp: ends_well_def)
      show ?thesis
      proof (cases ok)
        case True
        with 2(2) show ?thesis by (auto simp: ends_well_def split: option.splits)
      next
        case False
        with up obtain nxt'' where "next_it nxt' = return ((None, False), nxt'')" "e = None"
          by (auto simp: stuck_def)
        then have "stuck (mapTo_it nxt' f)" by (simp add: stuck_def next_mapTo)
        with False 2(2) \<open>e = None\<close> show ?thesis by (auto simp: ends_well_def)
      qed
    qed
  next
    case (expand_it nxt f s)
    show ?thesis
    proof (cases "exp_len s \<le> exp_i s")
      case ge: True
      with body expand_it consider "r = Panic"
        | e ok nxt' where "nx nxt = return ((e, ok), nxt')"
            "(if \<not> ok then return ((None, False), expand_it nxt' f (s\<lparr>exp_outer := e\<rparr>))
              else nx (expand_it nxt' f
                     (s\<lparr>exp_outer := e, exp_inner := f e,
                        exp_len := length (f e), exp_i := 0\<rparr>))) = Some r"
        by (auto simp: bind_res_eq_Some)
      then show ?thesis
      proof cases
        case 1 then show ?thesis by (simp add: ends_well_def)
      next
        case 2
        from IH[OF 2(1)] have up: "\<not> ok \<Longrightarrow> e = None \<and> stuck nxt'"
          by (auto simp: ends_well_def)
        show ?thesis
        proof (cases ok)
          case True
          with 2(2) IH show ?thesis by auto
        next
          case False
          with up obtain nxt'' where "next_it nxt' = return ((None, False), nxt'')" "e = None"
            by (auto simp: stuck_def)
          then have "stuck (expand_it nxt' f (s\<lparr>exp_outer := e\<rparr>))"
            using ge by (simp add: stuck_def next_expand)
          with False 2(2) show ?thesis by (auto simp: ends_well_def)
        qed
      qed
    next
      case False
      with body expand_it show ?thesis
        by (auto simp: ends_well_def split: if_splits)
    qed
  next
    case (join_it nxt lut outKeySel resultSel s)
    have emit: "join_emit a b c d s' = Some r \<Longrightarrow> ends_well r" for a b c d s'
      by (auto simp: join_emit_def ends_well_def split: if_splits)
    show ?thesis
    proof (cases "join_len s \<le> join_i s")
      case ge: True
      with body join_it consider "r = Panic"
        | e ok nxt' where "nx nxt = return ((e, ok), nxt')"
            "(if \<not> ok then return ((None, False),
                 join_it nxt' lut outKeySel resultSel (s\<lparr>join_outer := e\<rparr>))
              else (case lut_index lut (outKeySel e) of
                  Panic \<Rightarrow> panic
                | Ok None \<Rightarrow> nx (join_it nxt' lut outKeySel resultSel
                     (s\<lparr>join_outer := e, join_inner := [], join_len := 0, join_i := 0\<rparr>))
                | Ok (Some g) \<Rightarrow> join_emit nxt' lut outKeySel resultSel
                     (s\<lparr>join_outer := e, join_inner := g, join_len := length g, join_i := 0\<rparr>))) = Some r"
        by (auto simp: bind_res_eq_Some)
      then show ?thesis
      proof cases
        case 1 then show ?thesis by (simp add: ends_well_def)
      next
        case 2
        from IH[OF 2(1)] have up: "\<not> ok \<Longrightarrow> e = None \<and> stuck nxt'"
          by (auto simp: ends_well_def)
        show ?thesis
        proof (cases ok)
          case True
          with 2(2) IH emit show ?thesis
            by (auto simp: ends_well_def split: option.splits res.splits)
        next
          case False
          with up obtain nxt'' where "next_it nxt' = return ((None, False), nxt'')" "e = None"
            by (auto simp: stuck_def)
          then have "stuck (join_it nxt' lut outKeySel resultSel (s\<lparr>join_outer := e\<rparr>))"
            using ge by (simp add: stuck_def next_join)
          with False 2(2) show ?thesis by (auto simp: ends_well_def)
        qed
      qed
    next
      case False
      with body join_it emit show ?thesis by auto
    qed
  next
    case (skip_it nxt n)
    consider "n < 0" | "n > 0" | "n = 0" by linarith
    then show ?thesis
    proof cases
      case 1
      with body skip_it show ?thesis by (auto simp: ends_well_def stuck_def next_skip)
    next
      case 2
      with body skip_it consider "r = Panic"
        | e ok nxt' where "nx nxt = return ((e, ok), nxt')"
            "(if \<not> ok then return ((None, False), skip_it nxt' n)
              else nx (skip_it nxt' (n - 1))) = Some r"
        by (auto simp: bind_res_eq_Some)
      then show ?thesis
      proof cases
        case 1 then show ?thesis by (simp add: ends_well_def)
      next
        case 2
        note c = this
        from IH[OF c(1)] have up: "\<not> ok \<Longrightarrow> e = None \<and> stuck nxt'"
          by (auto simp: ends_well_def)
        show ?thesis
        proof (cases ok)
          case True
          with c(2) IH show ?thesis by auto
        next
          case False
          with up obtain nxt'' where "next_it nxt' = return ((None, False), nxt'')"
            by (auto simp: stuck_def)
          then have "stuck (skip_it nxt' n)"
            using \<open>n > 0\<close> by (simp add: stuck_def next_skip)
          with False c(2) show ?thesis by (auto simp: ends_well_def)
        qed
      qed
    next
      case 3
      with body skip_it consider "r = Panic"
        | e ok nxt' where "nx nxt = return ((e, ok), nxt')" "r = Ok ((e, ok), skip_it nxt' n)"
        by (auto simp: bind_res_eq_Some)
      then show ?thesis
      proof cases
        case 1 then show ?thesis by (simp add: ends_well_def)
      next
        case 2
        note c = this
        from IH[OF c(1)] have up: "\<not> ok \<Longrightarrow> e = None \<and> stuck nxt'"
          by (auto simp: ends_well_def)
        show ?thesis
        proof (cases ok)
          case True
          with c(2) show ?thesis by (auto simp: ends_well_def)
        next
          case False
          with up obtain nxt'' where "next_it nxt' = return ((None, False), nxt'')" "e = None"
            by (auto simp: stuck_def)
          then have "stuck (skip_it nxt' n)"
            using \<open>n = 0\<close> by (simp add: stuck_def next_skip)
          with False c(2) \<open>e = None\<close> show ?thesis by (auto simp: ends_well_def)
        qed
      qed
    qed
  next
    case (take_it nxt n)
    show ?thesis
    proof (cases "n \<le> 0")
      case True
      with body take_it show ?thesis by (auto simp: ends_well_def stuck_def next_take)
    next
      case False
      with body take_it consider "r = Panic"
        | e ok nxt' where "nx nxt = return ((e, ok), nxt')" "r = Ok ((e, ok), take_it nxt' (n - 1))"
        by (auto simp: bind_res_eq_Some)
      then show ?thesis
      proof cases
        case 1 then show ?thesis by (simp add: ends_well_def)
      next
        case 2
        note c = this
        from IH[OF c(1)] have up: "\<not> ok \<Longrightarrow> e = None \<and> stuck nxt'"
          by (auto simp: ends_well_def)
        show ?thesis
        proof (cases ok)
          case True
          with c(2) show ?thesis by (auto simp: ends_well_def)
        next
          case False
          with up obtain nxt'' where "next_it nxt' = return ((None, False), nxt'')" "e = None"
            by (auto simp: stuck_def)
          then have "stuck (take_it nxt' (n - 1))"
            by (simp add: stuck_def next_take)
          with False c(2) \<open>e = None\<close> show ?thesis by (auto simp: ends_well_def)
        qed
      qed
    qed
  next
    case (sortBy_it a i)
    with body show ?thesis
      by (auto simp: ends_well_def stuck_def next_sortBy split: if_splits)
  qed
qed

section \<open>At, First, Last and Reduce\<close>

lemma stuck_next: "stuck it \<Longrightarrow> \<exists>it'. next_it it = return ((None, False), it') \<and> stuck it'"
proof -
  assume "stuck it"
  then obtain it' where nx: "next_it it = return ((None, False), it')" by (auto simp: stuck_def)
  from next_ends_well[OF nx] have "stuck it'" by (simp add: ends_well_def)
  with nx show ?thesis by blast
qed

lemma drains_Nil_stuck: "drains it [] \<Longrightarrow> stuck it"
proof -
  assume "drains it []"
  then obtain e it' where nx: "next_it it = return ((e, False), it')" by (auto simp: drains_Nil)
  from next_ends_well[OF nx] have "e = None" by (simp add: ends_well_def)
  with nx show ?thesis by (auto simp: stuck_def)
qed

lemma At_loop_stuck: "stuck it \<Longrightarrow> 0 \<le> i \<Longrightarrow> At_loop it i e0 = return None"
proof (induction "nat i" arbitrary: i it e0)
  case 0
  then have i: "i = 0" by simp
  from stuck_next[OF 0(2)] obtain it' where nx: "next_it it = return ((None, False), it')" by blast
  show ?case unfolding i
    by (subst At_loop.simps, simp add: nx) (subst At_loop.simps, simp)
next
  case (Suc k)
  from stuck_next[OF Suc(3)] obtain it' where nx: "next_it it = return ((None, False), it')"
    and st: "stuck it'" by blast
  from Suc have "At_loop it' (i - 1) None = return None" by (intro Suc(1)[OF _ st]) auto
  with nx Suc(4) show ?case by (subst At_loop.simps) simp
qed

lemma At_loop_drains:
  "drains it xs \<Longrightarrow> int (length xs) \<le> i \<Longrightarrow> At_loop it i e0 = return None"
proof (induction xs arbitrary: it i e0)
  case Nil
  then show ?case using At_loop_stuck[OF drains_Nil_stuck] by simp
next
  case (Cons x xs)
  then obtain it' where nx: "next_it it = return ((x, True), it')" and d: "drains it' xs"
    by (auto simp: drains_Cons)
  from Cons.prems(2) have "At_loop it' (i - 1) x = return None"
    by (intro Cons.IH[OF d]) simp
  with nx Cons.prems(2) show ?case by (subst At_loop.simps) simp
qed

lemma Last_loop_step:
  "next_it it = return ((e, False), it') \<Longrightarrow> Last_loop it l = return l"
  by (subst Last_loop.simps) simp

text \<open>
  Claim C8. \<^verbatim>\<open>At\<close> with a negative index returns \<^verbatim>\<open>nil\<close> on every query; on a
  finite sequence with elements \<open>s\<close>, \<^verbatim>\<open>At\<close> with an index at or beyond the
  length of \<open>s\<close> returns \<^verbatim>\<open>nil\<close>; on an empty sequence \<^verbatim>\<open>First\<close>, \<^verbatim>\<open>Last\<close> and
  \<^verbatim>\<open>Reduce\<close> return \<^verbatim>\<open>nil\<close>. Each call returns: the outcome is \<open>return None\<close>,
  neither a panic nor a call that does not return.
\<close>

theorem absent_value_when_out_of_range_or_empty:
  assumes "i < 0"
    and "ToSlice q = return s" and "int (length s) \<le> j"
    and "ToSlice q0 = return []"
  shows "At q' i = return None \<and> At q j = return None
       \<and> First q0 = return None \<and> Last q0 = return None \<and> Reduce q0 f = return None"
proof -
  from assms(1) have neg: "At q' i = return None" by (simp add: At_def)
  from assms(2) obtain it where it: "Iterate q () = return it" and d: "drains it s"
    by (auto simp: ToSlice_iff)
  from assms(3) have "0 \<le> j" by linarith
  with At_loop_drains[OF d assms(3)] it have beyond: "At q j = return None"
    by (simp add: At_def)
  from assms(4) obtain it0 where it0: "Iterate q0 () = return it0" and d0: "drains it0 []"
    by (auto simp: ToSlice_iff)
  from stuck_next[OF drains_Nil_stuck[OF d0]] obtain it1
    where nx: "next_it it0 = return ((None, False), it1)" by blast
  have "First q0 = return None" using it0 nx by (simp add: First_def)
  moreover have "Last q0 = return None"
    using it0 Last_loop_step[OF nx] by (simp add: Last_def)
  moreover have "Reduce q0 f = return None" using it0 nx by (simp add: Reduce_def)
  ultimately show ?thesis using neg beyond by simp
qed

theorem absent_value_when_out_of_range_or_empty_witness:
  "(- 100 :: int) < 0
   \<and> ToSlice (From [Some (1::nat), Some 2, Some 3, Some 4, Some 5])
        = return [Some 1, Some 2, Some 3, Some 4, Some 5]
   \<and> int (length [Some (1::nat), Some 2, Some 3, Some 4, Some 5]) \<le> 15
   \<and> ToSlice (From ([] :: nat T list)) = return []
   \<and> At (From [Some (1::nat), Some 2]) (- 100) = return None
   \<and> At (From [Some (1::nat), Some 2, Some 3, Some 4, Some 5]) 15 = return None
   \<and> First (From ([] :: nat T list)) = return None
   \<and> Last (From ([] :: nat T list)) = return None
   \<and> Reduce (From ([] :: nat T list)) (\<lambda>v e. v) = return None"
proof -
  have a: "(- 100 :: int) < 0" by simp
  have b: "ToSlice (From [Some (1::nat), Some 2, Some 3, Some 4, Some 5])
        = return [Some 1, Some 2, Some 3, Some 4, Some 5]" by (rule ToSlice_From)
  have c: "int (length [Some (1::nat), Some 2, Some 3, Some 4, Some 5]) \<le> 15" by simp
  have d: "ToSlice (From ([] :: nat T list)) = return []" by (rule ToSlice_From)
  from absent_value_when_out_of_range_or_empty[OF a b c d,
      of "From [Some (1::nat), Some 2]" "\<lambda>v e. v"] a b c d
  show ?thesis by simp
qed

text \<open>
  Claim C10. For every query, \<^verbatim>\<open>At(0)\<close> and \<^verbatim>\<open>First()\<close> have the same outcome: the
  same returned value (\<^verbatim>\<open>nil\<close> included), or both panic, or both do not return.
\<close>

theorem At_zero_is_First: "At q 0 = First q"
proof -
  have "At_loop nxt 0 None = bind_res (next_it nxt) (\<lambda>((first, _), _). return first)" for nxt :: "'a Iterator"
    by (subst At_loop.simps, simp) (subst At_loop.simps, simp)
  then show ?thesis by (simp add: At_def First_def)
qed

section \<open>Join\<close>

lemma same_key_Key: "same_key a (Key k) \<longleftrightarrow> a = Key k"
  by (cases a) auto

lemma same_key_Unequal: "\<not> same_key a Unequal"
  by (cases a) auto

lemma makeLut_loop_drains:
  "drains it es \<Longrightarrow> \<forall>e\<in>set es. f e \<noteq> Unhashable \<Longrightarrow> makeLut_loop it f m =
     return (foldl (\<lambda>m e. case f e of
                 Key k \<Rightarrow> m(k \<mapsto> (case m k of None \<Rightarrow> [] | Some g \<Rightarrow> g) @ [e])
               | _ \<Rightarrow> m) m es)"
proof (induction es arbitrary: it m)
  case Nil
  then show ?case by (subst makeLut_loop.simps) (auto simp: drains_Nil)
next
  case (Cons e es)
  then obtain it' where nx: "next_it it = return ((e, True), it')" and d: "drains it' es"
    by (auto simp: drains_Cons)
  from Cons.prems(2) have h: "f e \<noteq> Unhashable" and hs: "\<forall>e\<in>set es. f e \<noteq> Unhashable"
    by simp_all
  show ?case
  proof (cases "f e")
    case Unhashable
    with h show ?thesis by simp
  next
    case Unequal
    with nx show ?thesis
      by (subst makeLut_loop.simps) (simp add: Cons.IH[OF d hs] lut_append_def)
  next
    case (Key k)
    with nx show ?thesis
      by (subst makeLut_loop.simps) (simp add: Cons.IH[OF d hs] lut_append_def fun_upd_def)
  qed
qed

lemma foldl_lut:
  "foldl (\<lambda>m e. case f e of
             Key k \<Rightarrow> m(k \<mapsto> (case m k of None \<Rightarrow> [] | Some g \<Rightarrow> g) @ [e])
           | _ \<Rightarrow> m) m es k =
     (if filter (\<lambda>e. f e = Key k) es = [] then m k
      else Some ((case m k of None \<Rightarrow> [] | Some g \<Rightarrow> g) @ filter (\<lambda>e. f e = Key k) es))"
  by (induction es arbitrary: m) (auto split: option.splits key.splits)

lemma makeLut_drains:
  "drains it es \<Longrightarrow> \<forall>e\<in>set es. f e \<noteq> Unhashable \<Longrightarrow> \<exists>lut. makeLut it f = return lut \<and>
     (\<forall>k. lut k = (if filter (\<lambda>e. f e = Key k) es = [] then None
                    else Some (filter (\<lambda>e. f e = Key k) es)))"
  by (simp add: makeLut_def makeLut_loop_drains foldl_lut)

lemma makeLut_Unhashable:
  "next_it it = return ((e, True), it') \<Longrightarrow> f e = Unhashable \<Longrightarrow> makeLut it f = panic"
  by (simp add: makeLut_def lut_append_def makeLut_loop.simps[of it])

lemma join_pending:
  assumes "drains (join_it nxt lut ok rs (s\<lparr>join_i := join_len s\<rparr>)) ys"
    and "join_len s \<le> length (join_inner s)" and "join_i s \<le> join_len s"
  shows "drains (join_it nxt lut ok rs s)
           (map (rs (join_outer s)) (drop (join_i s) (take (join_len s) (join_inner s))) @ ys)"
  using assms
proof (induction "join_len s - join_i s" arbitrary: s)
  case 0
  then have "join_i s = join_len s" by simp
  then have "s\<lparr>join_i := join_len s\<rparr> = s" by simp
  with 0 show ?case by simp
next
  case (Suc k)
  then have lt: "join_i s < join_len s" by simp
  let ?s' = "s\<lparr>join_i := join_i s + 1\<rparr>"
  have "drains (join_it nxt lut ok rs ?s')
     (map (rs (join_outer ?s')) (drop (join_i ?s') (take (join_len ?s') (join_inner ?s'))) @ ys)"
    using Suc by (intro Suc.hyps(1)) auto
  then have d: "drains (join_it nxt lut ok rs ?s')
      (map (rs (join_outer s)) (drop (Suc (join_i s)) (take (join_len s) (join_inner s))) @ ys)"
    by simp
  have nx: "next_it (join_it nxt lut ok rs s) =
      return ((rs (join_outer s) (join_inner s ! join_i s), True), join_it nxt lut ok rs ?s')"
    using lt Suc.prems(2) by (simp add: next_join join_emit_def)
  have "drop (join_i s) (take (join_len s) (join_inner s))
      = join_inner s ! join_i s # drop (Suc (join_i s)) (take (join_len s) (join_inner s))"
    using lt Suc.prems(2) by (simp add: Cons_nth_drop_Suc[symmetric])
  with nx d show ?case by (simp add: drains_Cons)
qed

lemma join_drains:
  assumes "drains nxt os" and "join_len s \<le> join_i s" and "\<forall>k. lut k \<noteq> Some []"
    and "\<forall>x\<in>set os. ok x \<noteq> Unhashable"
  shows "drains (join_it nxt lut ok rs s)
     (concat (map (\<lambda>outer. map (rs outer)
        (case lut_index lut (ok outer) of Ok (Some g) \<Rightarrow> g | _ \<Rightarrow> [])) os))"
  using assms(1,2,4)
proof (induction os arbitrary: nxt s)
  case Nil
  then show ?case by (auto simp: drains_Nil next_join)
next
  case (Cons x os)
  then obtain nxt' where nx: "next_it nxt = return ((x, True), nxt')" and d: "drains nxt' os"
    by (auto simp: drains_Cons)
  from Cons.prems(3) have h: "ok x \<noteq> Unhashable" and hs: "\<forall>x\<in>set os. ok x \<noteq> Unhashable"
    by simp_all
  let ?rest = "concat (map (\<lambda>outer. map (rs outer)
                  (case lut_index lut (ok outer) of Ok (Some g) \<Rightarrow> g | _ \<Rightarrow> [])) os)"
  from h consider "lut_index lut (ok x) = Ok None" | g where "lut_index lut (ok x) = Ok (Some g)"
    by (cases "ok x"; cases "lut_index lut (ok x)") (auto simp: lut_index_def)
  then show ?case
  proof cases
    case 1
    let ?s0 = "s\<lparr>join_outer := x, join_inner := [], join_len := 0, join_i := 0\<rparr>"
    have "next_it (join_it nxt lut ok rs s) = next_it (join_it nxt' lut ok rs ?s0)"
      using nx Cons.prems(2) 1 by (simp add: next_join)
    moreover have "drains (join_it nxt' lut ok rs ?s0) ?rest"
      by (rule Cons.IH[OF d _ hs]) simp
    ultimately show ?thesis using 1 drains_cong by fastforce
  next
    case 2
    with assms(3) have g: "g \<noteq> []"
      by (cases "ok x") (auto simp: lut_index_def)
    let ?s1 = "s\<lparr>join_outer := x, join_inner := g, join_len := length g, join_i := 0\<rparr>"
    have "next_it (join_it nxt lut ok rs s) = next_it (join_it nxt' lut ok rs ?s1)"
      using nx Cons.prems(2) 2 g by (simp add: next_join[of nxt] next_join[of nxt'])
    moreover have "drains (join_it nxt' lut ok rs (?s1\<lparr>join_i := join_len ?s1\<rparr>)) ?rest"
      by (rule Cons.IH[OF d _ hs]) simp
    from join_pending[OF this]
    have "drains (join_it nxt' lut ok rs ?s1) (map (rs x) g @ ?rest)" by simp
    ultimately show ?thesis using 2 drains_cong by fastforce
  qed
qed

lemma Iterate_Join:
  "Iterate q () = return nxt \<Longrightarrow> Iterate inner () = return it \<Longrightarrow>
   makeLut it innKeySel = return lut \<Longrightarrow>
   Iterate (Join q inner outKeySel innKeySel resultSel) () =
     return (join_it nxt lut outKeySel resultSel
                 \<lparr>join_outer = None, join_inner = [], join_i = 0, join_len = 0\<rparr>)"
  by (simp add: Join_def join_def)

lemma Iterate_Join_panic:
  "Iterate q () = return nxt \<Longrightarrow> Iterate inner () = return it \<Longrightarrow>
   makeLut it innKeySel = panic \<Longrightarrow>
   Iterate (Join q inner outKeySel innKeySel resultSel) () = panic"
  by (simp add: Join_def join_def)

text \<open>
  Claim C1, as stated for every key selector, fails for a selector that returns
  a key that cannot be hashed (in Go, for instance
  \<^verbatim>\<open>func(e T) interface{} { return []int{1} }\<close>): the first statement
  \<^verbatim>\<open>result[key] = append(result[key], elem)\<close> of \<^verbatim>\<open>makeLut\<close> panics, and \<^verbatim>\<open>Join\<close>
  has no output at all, where the claim counts one row.
\<close>

theorem Join_unhashable_key_counterexample:
  "ToSlice (Join (From [Some (1::nat)]) (From [Some 1])
       (\<lambda>e. Unhashable) (\<lambda>e. Unhashable) (\<lambda>x e. x)) = panic
   \<and> (\<Sum>x\<leftarrow>[Some (1::nat)]. length (filter (\<lambda>e. e = x) [Some 1])) = 1"
proof -
  have "next_it (from_it [Some (1::nat)] 0) = return ((Some 1, True), from_it [Some 1] (0 + 1))"
    by (subst next_it.simps) simp
  then have "makeLut (from_it [Some (1::nat)] 0) (\<lambda>e. Unhashable) = panic"
    by (rule makeLut_Unhashable) simp
  with Iterate_From[of "[Some (1::nat)]"]
  have "Iterate (Join (From [Some (1::nat)]) (From [Some 1])
       (\<lambda>e. Unhashable) (\<lambda>e. Unhashable) (\<lambda>x e. x)) () = panic"
    by (intro Iterate_Join_panic[where nxt = "from_it [Some 1] 0" and it = "from_it [Some 1] 0"])
       (simp_all add: from'_def)
  then show ?thesis by (simp add: ToSlice_def)
qed

text \<open>
  Claim C1, amended. Let the outer query be a finite sequence with elements
  \<open>os\<close> and the inner query one with elements \<open>es\<close>, and let no key selected from
  them be unhashable. The matching inner group of an outer element \<open>x\<close> is the
  list of the inner elements whose key is the same map key as the key of \<open>x\<close>
  (equal under \<^verbatim>\<open>==\<close>, so that a key that differs from itself matches nothing),
  in the order of \<open>es\<close>. \<^verbatim>\<open>Join\<close> returns, for each outer element in outer
  order, one row \<open>resultSel x e\<close> per element \<open>e\<close> of its group in group order
  (no row when the group is empty); the number of rows is the sum over the outer
  elements of the sizes of their groups.
\<close>

theorem Join_rows:
  assumes "ToSlice outer = return os" and "ToSlice inner = return es"
    and "\<forall>x\<in>set os. outKeySel x \<noteq> Unhashable" and "\<forall>e\<in>set es. innKeySel e \<noteq> Unhashable"
  shows "ToSlice (Join outer inner outKeySel innKeySel resultSel) =
           return (concat (map (\<lambda>x. map (resultSel x)
                      (filter (\<lambda>e. same_key (innKeySel e) (outKeySel x)) es)) os))
       \<and> length (concat (map (\<lambda>x. map (resultSel x)
                      (filter (\<lambda>e. same_key (innKeySel e) (outKeySel x)) es)) os))
           = (\<Sum>x\<leftarrow>os. length (filter (\<lambda>e. same_key (innKeySel e) (outKeySel x)) es))"
proof -
  from assms(1) obtain nxt where nxt: "Iterate outer () = return nxt" and d: "drains nxt os"
    by (auto simp: ToSlice_iff)
  from assms(2) obtain it where it: "Iterate inner () = return it" and di: "drains it es"
    by (auto simp: ToSlice_iff)
  from makeLut_drains[OF di assms(4)] obtain lut where lut: "makeLut it innKeySel = return lut"
    and lk: "\<And>k. lut k = (if filter (\<lambda>e. innKeySel e = Key k) es = [] then None
                    else Some (filter (\<lambda>e. innKeySel e = Key k) es))" by blast
  have ne: "\<forall>k. lut k \<noteq> Some []" by (simp add: lk)
  have grp: "(case lut_index lut key of Ok (Some g) \<Rightarrow> g | _ \<Rightarrow> [])
      = filter (\<lambda>e. same_key (innKeySel e) key) es" for key
    by (cases key) (simp_all add: lut_index_def lk same_key_Key same_key_Unequal)
  let ?s = "\<lparr>join_outer = None, join_inner = [], join_i = 0, join_len = 0\<rparr> :: 'a joinState"
  have "drains (join_it nxt lut outKeySel resultSel ?s)
     (concat (map (\<lambda>x. map (resultSel x)
        (case lut_index lut (outKeySel x) of Ok (Some g) \<Rightarrow> g | _ \<Rightarrow> [])) os))"
    by (rule join_drains[OF d _ ne assms(3)]) simp
  then have "ToSlice (Join outer inner outKeySel innKeySel resultSel) =
           return (concat (map (\<lambda>x. map (resultSel x)
                      (filter (\<lambda>e. same_key (innKeySel e) (outKeySel x)) es)) os))"
    using Iterate_Join[OF nxt it lut, of outKeySel resultSel] by (simp add: ToSlice_iff grp)
  moreover have "length (concat (map (\<lambda>x. map (resultSel x)
                      (filter (\<lambda>e. same_key (innKeySel e) (outKeySel x)) es)) os))
           = (\<Sum>x\<leftarrow>os. length (filter (\<lambda>e. same_key (innKeySel e) (outKeySel x)) es))"
    by (simp add: length_concat comp_def)
  ultimately show ?thesis by simp
qed

theorem Join_rows_witness:
  "ToSlice (From [Some (4::nat), Some 5, Some 6, Some 7, Some 8, Some 9])
      = return [Some 4, Some 5, Some 6, Some 7, Some 8, Some 9]
   \<and> ToSlice (From [Some (1::nat), Some 2, Some 3, Some 4, Some 5, Some 6, Some 4])
      = return [Some 1, Some 2, Some 3, Some 4, Some 5, Some 6, Some 4]
   \<and> ToSlice (Join (From [Some (4::nat), Some 5, Some 6, Some 7, Some 8, Some 9])
                    (From [Some (1::nat), Some 2, Some 3, Some 4, Some 5, Some 6, Some 4])
                    (\<lambda>e. if e = Some 5 then Unequal else Key e)
                    (\<lambda>e. if e = Some 5 then Unequal else Key e) (\<lambda>x e. x))
      = return [Some 4, Some 4, Some 6]"
proof -
  have a: "ToSlice (From [Some (4::nat), Some 5, Some 6, Some 7, Some 8, Some 9])
      = return [Some 4, Some 5, Some 6, Some 7, Some 8, Some 9]" by (rule ToSlice_From)
  have b: "ToSlice (From [Some (1::nat), Some 2, Some 3, Some 4, Some 5, Some 6, Some 4])
      = return [Some 1, Some 2, Some 3, Some 4, Some 5, Some 6, Some 4]" by (rule ToSlice_From)
  from Join_rows[OF a b, of "\<lambda>e. if e = Some 5 then Unequal else Key e"
      "\<lambda>e. if e = Some 5 then Unequal else Key e" "\<lambda>x e. x"] a b
  show ?thesis by simp
qed

section \<open>Sort\<close>

lemma Less_from_chain:
  assumes "i < length t" "j < length t"
  shows "k < length fs \<Longrightarrow>
    Less_from \<lparr>sorter_t = t, sorter_less = fs\<rparr> i j k = Ok (less_chain (drop k fs) (t ! i) (t ! j))"
proof (induction "length fs - k" arbitrary: k)
  case 0
  then show ?case by simp
next
  case (Suc n)
  show ?case
  proof (cases "Suc k < length fs")
    case True
    then obtain c c' cs where d: "drop k fs = c # c' # cs"
      by (metis Cons_nth_drop_Suc Suc.prems)
    then have c: "fs ! k = c" using Suc.prems by (metis nth_via_drop)
    from d have d': "drop (Suc k) fs = c' # cs" by (metis drop_Suc tl_drop list.sel(3))
    have IH: "Less_from \<lparr>sorter_t = t, sorter_less = fs\<rparr> i j (k + 1)
        = Ok (less_chain (drop (k + 1) fs) (t ! i) (t ! j))"
      using Suc True by (intro Suc.hyps(1)) auto
    show ?thesis
      using True assms c d d' IH by (subst Less_from.simps) auto
  next
    case False
    with Suc.prems have k: "Suc k = length fs" by simp
    then have "drop k fs = [fs ! k]"
      by (metis Cons_nth_drop_Suc Suc.prems drop_all order_refl)
    with k assms Suc.prems show ?thesis by (subst Less_from.simps) auto
  qed
qed

lemma Less_chain:
  "fs \<noteq> [] \<Longrightarrow> i < length t \<Longrightarrow> j < length t \<Longrightarrow>
     Less \<lparr>sorter_t = t, sorter_less = fs\<rparr> i j = Ok (less_chain fs (t ! i) (t ! j))"
  using Less_from_chain[of i t j 0 fs] by (simp add: Less_def)

lemma Less_no_comparators: "Less \<lparr>sorter_t = t, sorter_less = []\<rparr> i j = Panic"
  by (simp add: Less_def Less_from.simps)

lemma less_chain_last:
  "fs \<noteq> [] \<Longrightarrow> \<forall>f\<in>set (butlast fs). tied f a b \<Longrightarrow> less_chain fs a b = last fs a b"
  by (induction fs a b rule: less_chain.induct) (auto simp: tied_def)

lemma less_chain_tied:
  "fs \<noteq> [] \<Longrightarrow> (\<not> less_chain fs a b \<and> \<not> less_chain fs b a) \<longleftrightarrow> (\<forall>f\<in>set fs. tied f a b)"
  by (induction fs a b rule: less_chain.induct) (auto simp: tied_def)

lemma less_chain_Cons2:
  "less_chain (c # c' # cs) a b \<longleftrightarrow> c a b \<or> (\<not> c b a \<and> less_chain (c' # cs) a b)"
  by simp

lemma swo_asym: "swo f \<Longrightarrow> f a b \<Longrightarrow> \<not> f b a"
  unfolding swo_def by blast

lemma swo_negtrans: "swo f \<Longrightarrow> \<not> f a b \<Longrightarrow> \<not> f b c \<Longrightarrow> \<not> f a c"
  unfolding swo_def by blast

lemma swoI: "(\<And>a b. f a b \<Longrightarrow> \<not> f b a) \<Longrightarrow> (\<And>a b c. \<not> f a b \<Longrightarrow> \<not> f b c \<Longrightarrow> \<not> f a c) \<Longrightarrow> swo f"
  unfolding swo_def by blast

lemma lex_asym:
  assumes c: "swo c" and r: "swo L'"
    and L: "\<And>a b. L a b \<longleftrightarrow> c a b \<or> (\<not> c b a \<and> L' a b)"
    and ab: "L a b"
  shows "\<not> L b a"
proof -
  from ab consider "c a b" | "\<not> c b a" "L' a b" unfolding L by blast
  then show ?thesis
  proof cases
    case 1
    with swo_asym[OF c, of a b] show ?thesis unfolding L by blast
  next
    case 2
    with swo_asym[OF r, of a b] swo_asym[OF c, of b a] show ?thesis unfolding L by blast
  qed
qed

lemma lex_negtrans:
  assumes c: "swo c" and r: "swo L'"
    and L: "\<And>a b. L a b \<longleftrightarrow> c a b \<or> (\<not> c b a \<and> L' a b)"
    and ab: "\<not> L a b" and bd: "\<not> L b d"
  shows "\<not> L a d"
proof -
  from ab have 1: "\<not> c a b" and 2: "c b a \<or> \<not> L' a b" unfolding L by blast+
  from bd have 3: "\<not> c b d" and 4: "c d b \<or> \<not> L' b d" unfolding L by blast+
  from swo_negtrans[OF c 1 3] have 5: "\<not> c a d" .
  have "c d a \<or> \<not> L' a d"
  proof (cases "c d a")
    case True then show ?thesis by simp
  next
    case False
    from swo_negtrans[OF c 3 False] have "\<not> c b a" .
    moreover from swo_negtrans[OF c False 1] have "\<not> c d b" .
    ultimately have "\<not> L' a b" "\<not> L' b d" using 2 4 by blast+
    from swo_negtrans[OF r this] show ?thesis by simp
  qed
  with 5 show ?thesis unfolding L by blast
qed

lemma swo_less_chain:
  "fs \<noteq> [] \<Longrightarrow> \<forall>f\<in>set fs. swo f \<Longrightarrow> swo (less_chain fs)"
proof (induction fs rule: induct_list012)
  case 1
  then show ?case by simp
next
  case (2 c)
  have "less_chain [c] = c" by (intro ext) simp
  with 2 show ?case by simp
next
  case (3 c c' cs)
  then have c: "swo c" and r: "swo (less_chain (c' # cs))" by simp_all
  show ?case
  proof (rule swoI)
    fix a b assume "less_chain (c # c' # cs) a b"
    then show "\<not> less_chain (c # c' # cs) b a"
      by (rule lex_asym[OF c r less_chain_Cons2])
  next
    fix a b d
    assume "\<not> less_chain (c # c' # cs) a b" "\<not> less_chain (c # c' # cs) b d"
    then show "\<not> less_chain (c # c' # cs) a d"
      by (rule lex_negtrans[OF c r less_chain_Cons2])
  qed
qed

lemma mset_ins: "mset (ins lt x ys) = add_mset x (mset ys)"
  by (induction ys) auto

lemma set_ins: "set (ins lt x ys) = insert x (set ys)"
  by (induction ys) auto

lemma length_ins: "length (ins lt x ys) = Suc (length ys)"
  by (induction ys) auto

lemma desc_ins:
  assumes lt: "swo lt"
  shows "sorted_wrt (\<lambda>a b. \<not> lt a b) ys \<Longrightarrow> sorted_wrt (\<lambda>a b. \<not> lt a b) (ins lt x ys)"
proof (induction ys)
  case Nil
  then show ?case by simp
next
  case (Cons y ys)
  show ?case
  proof (cases "lt x y")
    case True
    from swo_asym[OF lt True] have "\<not> lt y x" .
    with True Cons show ?thesis by (auto simp: set_ins)
  next
    case False
    have "\<not> lt x z" if "z \<in> set ys" for z
    proof -
      from Cons.prems that have "\<not> lt y z" by auto
      from swo_negtrans[OF lt False this] show ?thesis .
    qed
    with False Cons.prems show ?thesis by auto
  qed
qed

lemma stable_ins:
  assumes "\<And>y. P x \<Longrightarrow> P y \<Longrightarrow> \<not> lt x y"
  shows "filter P (rev (ins lt x ys)) = filter P (rev ys) @ filter P [x]"
proof (induction ys)
  case Nil
  then show ?case by simp
next
  case (Cons y ys)
  show ?case
  proof (cases "lt x y")
    case True
    with assms have "\<not> (P x \<and> P y)" by blast
    with True Cons show ?thesis by auto
  next
    case False
    then show ?thesis by simp
  qed
qed

lemma mset_isort: "mset (foldl (\<lambda>acc x. ins lt x acc) acc xs) = mset acc + mset xs"
  by (induction xs arbitrary: acc) (auto simp: mset_ins)

lemma desc_isort:
  "swo lt \<Longrightarrow> sorted_wrt (\<lambda>a b. \<not> lt a b) acc \<Longrightarrow>
     sorted_wrt (\<lambda>a b. \<not> lt a b) (foldl (\<lambda>acc x. ins lt x acc) acc xs)"
  by (induction xs arbitrary: acc) (auto simp: desc_ins)

lemma stable_isort:
  assumes "\<And>x y. P x \<Longrightarrow> P y \<Longrightarrow> \<not> lt x y"
  shows "filter P (rev (foldl (\<lambda>acc x. ins lt x acc) acc xs)) = filter P (rev acc) @ filter P xs"
proof (induction xs arbitrary: acc)
  case Nil
  then show ?case by simp
next
  case (Cons x xs)
  have "filter P (rev (ins lt x acc)) = filter P (rev acc) @ filter P [x]"
    by (rule stable_ins) (rule assms)
  with Cons[of "ins lt x acc"] show ?case by simp
qed

lemma Swap_adjacent:
  "Swap \<lparr>sorter_t = p @ [y] @ x # rest, sorter_less = fs\<rparr> (Suc (length p)) (length p)
     = Ok \<lparr>sorter_t = p @ [x] @ y # rest, sorter_less = fs\<rparr>"
  by (simp add: Swap_def nth_append list_update_append)

text \<open>
  The insertion sort turns a block into its stable sorting.
\<close>

lemma insertionSort_inner_pre:
  assumes "fs \<noteq> []"
  shows "insertionSort_inner \<lparr>sorter_t = pre @ p @ x # rest, sorter_less = fs\<rparr>
           (length pre) (length pre + length p)
     = Ok \<lparr>sorter_t = pre @ rev (ins (less_chain fs) x (rev p)) @ rest, sorter_less = fs\<rparr>"
proof (induction p arbitrary: rest rule: rev_induct)
  case Nil
  then show ?case by (subst insertionSort_inner.simps) simp
next
  case (snoc y p)
  let ?s = "\<lparr>sorter_t = pre @ (p @ [y]) @ x # rest, sorter_less = fs\<rparr>"
  let ?j = "length pre + length (p @ [y])"
  have j: "?j = Suc (length (pre @ p))" "?j - 1 = length (pre @ p)" by simp_all
  have L: "Less ?s ?j (?j - 1) = Ok (less_chain fs x y)"
    using Less_chain[OF assms, of ?j "pre @ (p @ [y]) @ x # rest" "?j - 1"]
    by (simp add: nth_append)
  show ?case
  proof (cases "less_chain fs x y")
    case True
    have sw: "Swap ?s ?j (?j - 1)
        = Ok \<lparr>sorter_t = pre @ p @ x # (y # rest), sorter_less = fs\<rparr>"
      unfolding j using Swap_adjacent[of "pre @ p" y x rest fs] by simp
    have gt: "?j > length pre" by simp
    have IH: "insertionSort_inner \<lparr>sorter_t = pre @ p @ x # (y # rest), sorter_less = fs\<rparr>
       (length pre) (?j - 1)
     = Ok \<lparr>sorter_t = pre @ rev (ins (less_chain fs) x (rev p)) @ (y # rest), sorter_less = fs\<rparr>"
      using snoc[of "y # rest"] by simp
    show ?thesis
      using L True sw IH gt by (subst insertionSort_inner.simps) simp
  next
    case False
    with L show ?thesis by (subst insertionSort_inner.simps) simp
  qed
qed

lemma insertionSort_outer_pre:
  assumes "fs \<noteq> []"
  shows "insertionSort_outer \<lparr>sorter_t = pre @ p @ rest @ post, sorter_less = fs\<rparr> (length pre)
            (length pre + length p + length rest) (length pre + length p)
     = Ok \<lparr>sorter_t = pre @ rev (foldl (\<lambda>acc x. ins (less_chain fs) x acc) (rev p) rest) @ post,
           sorter_less = fs\<rparr>"
proof (induction rest arbitrary: p)
  case Nil
  then show ?case by (subst insertionSort_outer.simps) simp
next
  case (Cons x rest)
  let ?p' = "rev (ins (less_chain fs) x (rev p))"
  have len: "length ?p' = Suc (length p)" by (simp add: length_ins)
  have "insertionSort_outer \<lparr>sorter_t = pre @ ?p' @ rest @ post, sorter_less = fs\<rparr> (length pre)
          (length pre + length ?p' + length rest) (length pre + length ?p')
     = Ok \<lparr>sorter_t = pre @ rev (foldl (\<lambda>acc x. ins (less_chain fs) x acc) (rev ?p') rest) @ post,
           sorter_less = fs\<rparr>"
    by (rule Cons)
  then show ?case
    using insertionSort_inner_pre[OF assms, of pre p x "rest @ post"] len
    by (subst insertionSort_outer.simps) simp
qed

lemma insertionSort_blocks:
  assumes "fs \<noteq> []" and "length P = a" and "a + length X = b"
  shows "insertionSort \<lparr>sorter_t = P @ X @ S, sorter_less = fs\<rparr> a b
     = Ok \<lparr>sorter_t = P @ rev (foldl (\<lambda>acc x. ins (less_chain fs) x acc) [] X) @ S,
           sorter_less = fs\<rparr>"
proof (cases X)
  case Nil
  with assms show ?thesis
    by (simp add: insertionSort_def insertionSort_outer.simps)
next
  case (Cons x r)
  from insertionSort_outer_pre[OF assms(1), of P "[x]" r S] Cons assms(2,3) show ?thesis
    by (simp add: insertionSort_def)
qed

text \<open>
  Exchanging two blocks of equal length, rotating two adjacent blocks, the
  binary search, and moving one element across a block.
\<close>

lemma Swap_blocks:
  "Swap \<lparr>sorter_t = P @ x # Q @ y # S, sorter_less = fs\<rparr> (length P) (Suc (length P + length Q))
     = Ok \<lparr>sorter_t = P @ y # Q @ x # S, sorter_less = fs\<rparr>"
  by (simp add: Swap_def nth_append list_update_append)

lemma Swap_blocks':
  "Swap \<lparr>sorter_t = P @ x # Q @ y # S, sorter_less = fs\<rparr> (Suc (length P + length Q)) (length P)
     = Ok \<lparr>sorter_t = P @ y # Q @ x # S, sorter_less = fs\<rparr>"
  by (simp add: Swap_def nth_append list_update_append)

lemma swapRange_loop_blocks:
  "length X = length Y \<Longrightarrow> length P = a + i \<Longrightarrow> length P + length X + length M = b + i \<Longrightarrow>
   n = i + length X \<Longrightarrow>
   swapRange_loop \<lparr>sorter_t = P @ X @ M @ Y @ S, sorter_less = fs\<rparr> a b n i
     = Ok \<lparr>sorter_t = P @ Y @ M @ X @ S, sorter_less = fs\<rparr>"
proof (induction X Y arbitrary: P M i rule: list_induct2)
  case Nil
  then show ?case by (subst swapRange_loop.simps) simp
next
  case (Cons x X y Y)
  have i1: "a + i = length P" and i2: "b + i = Suc (length P + length (X @ M))"
    using Cons.prems by simp_all
  have sw: "Swap \<lparr>sorter_t = P @ (x # X) @ M @ (y # Y) @ S, sorter_less = fs\<rparr> (a + i) (b + i)
      = Ok \<lparr>sorter_t = (P @ [y]) @ X @ (M @ [x]) @ Y @ S, sorter_less = fs\<rparr>"
    unfolding i1 i2 using Swap_blocks[of P x "X @ M" y "Y @ S" fs] by simp
  have "swapRange_loop \<lparr>sorter_t = (P @ [y]) @ X @ (M @ [x]) @ Y @ S, sorter_less = fs\<rparr> a b n (i + 1)
      = Ok \<lparr>sorter_t = (P @ [y]) @ Y @ (M @ [x]) @ X @ S, sorter_less = fs\<rparr>"
    using Cons.prems by (intro Cons.IH) auto
  with sw Cons.prems show ?case by (subst swapRange_loop.simps) simp
qed

lemma swapRange_blocks:
  "length X = n \<Longrightarrow> length Y = n \<Longrightarrow> length P = a \<Longrightarrow> a + n + length M = b \<Longrightarrow>
   swapRange \<lparr>sorter_t = P @ X @ M @ Y @ S, sorter_less = fs\<rparr> a b n
     = Ok \<lparr>sorter_t = P @ Y @ M @ X @ S, sorter_less = fs\<rparr>"
  unfolding swapRange_def by (rule swapRange_loop_blocks) auto

lemma rotate_loop_blocks:
  "length U = i \<Longrightarrow> length V = j \<Longrightarrow> 0 < i \<Longrightarrow> 0 < j \<Longrightarrow> length P + i = m \<Longrightarrow>
   rotate_loop \<lparr>sorter_t = P @ U @ V @ S, sorter_less = fs\<rparr> m i j
     = return \<lparr>sorter_t = P @ V @ U @ S, sorter_less = fs\<rparr>"
proof (induction "i + j" arbitrary: i j P U V S rule: less_induct)
  case less
  consider "i = j" | "i > j" | "i < j" by linarith
  then show ?case
  proof cases
    case 1
    have "swapRange \<lparr>sorter_t = P @ U @ [] @ V @ S, sorter_less = fs\<rparr> (m - i) m i
      = Ok \<lparr>sorter_t = P @ V @ [] @ U @ S, sorter_less = fs\<rparr>"
      using less.prems 1 by (intro swapRange_blocks) auto
    with 1 show ?thesis by (subst rotate_loop.simps) simp
  next
    case 2
    define U1 where "U1 = take j U"
    define U2 where "U2 = drop j U"
    have U: "U = U1 @ U2" and l1: "length U1 = j" and l2: "length U2 = i - j"
      using less.prems 2 by (simp_all add: U1_def U2_def)
    have sw: "swapRange \<lparr>sorter_t = P @ U1 @ U2 @ V @ S, sorter_less = fs\<rparr> (m - i) m j
      = Ok \<lparr>sorter_t = P @ V @ U2 @ U1 @ S, sorter_less = fs\<rparr>"
      using less.prems 2 l1 l2 by (intro swapRange_blocks) auto
    have "rotate_loop \<lparr>sorter_t = (P @ V) @ U2 @ U1 @ S, sorter_less = fs\<rparr> m (i - j) j
      = return \<lparr>sorter_t = (P @ V) @ U1 @ U2 @ S, sorter_less = fs\<rparr>"
      using less.prems 2 l1 l2 by (intro less.hyps) auto
    with sw 2 show ?thesis unfolding U
      by (subst rotate_loop.simps) simp
  next
    case 3
    define V1 where "V1 = take (j - i) V"
    define V2 where "V2 = drop (j - i) V"
    have V: "V = V1 @ V2" and l1: "length V1 = j - i" and l2: "length V2 = i"
      using less.prems 3 by (simp_all add: V1_def V2_def)
    have sw: "swapRange \<lparr>sorter_t = P @ U @ V1 @ V2 @ S, sorter_less = fs\<rparr> (m - i) (m + j - i) i
      = Ok \<lparr>sorter_t = P @ V2 @ V1 @ U @ S, sorter_less = fs\<rparr>"
      using less.prems 3 l1 l2 by (intro swapRange_blocks) auto
    have "rotate_loop \<lparr>sorter_t = P @ V2 @ V1 @ (U @ S), sorter_less = fs\<rparr> m i (j - i)
      = return \<lparr>sorter_t = P @ V1 @ V2 @ (U @ S), sorter_less = fs\<rparr>"
      using less.prems 3 l1 l2 by (intro less.hyps) auto
    with sw 3 show ?thesis unfolding V
      by (subst rotate_loop.simps) simp
  qed
qed

lemma rotate_blocks:
  "length P = a \<Longrightarrow> a + length U = m \<Longrightarrow> m + length V = b \<Longrightarrow> U \<noteq> [] \<Longrightarrow> V \<noteq> [] \<Longrightarrow>
   rotate \<lparr>sorter_t = P @ U @ V @ S, sorter_less = fs\<rparr> a m b
     = return \<lparr>sorter_t = P @ V @ U @ S, sorter_less = fs\<rparr>"
  unfolding rotate_def by (rule rotate_loop_blocks) auto

lemma search_loop_spec:
  assumes "\<And>h. i \<le> h \<Longrightarrow> h < j \<Longrightarrow> cond h = Ok (p h)" and "i \<le> j"
  shows "\<exists>k. search_loop cond i j = Ok k \<and> i \<le> k \<and> k \<le> j
            \<and> (k = i \<or> p (k - 1)) \<and> (k = j \<or> \<not> p k)"
  using assms
proof (induction "j - i" arbitrary: i j rule: less_induct)
  case less
  show ?case
  proof (cases "i < j")
    case False
    with less.prems show ?thesis by (subst search_loop.simps) simp
  next
    case True
    let ?h = "(i + j) div 2"
    from True have h: "i \<le> ?h" "?h < j" by simp_all
    from less.prems(1)[OF h] have c: "cond ?h = Ok (p ?h)" .
    show ?thesis
    proof (cases "p ?h")
      case ph: True
      have "\<exists>k. search_loop cond (?h + 1) j = Ok k \<and> ?h + 1 \<le> k \<and> k \<le> j
            \<and> (k = ?h + 1 \<or> p (k - 1)) \<and> (k = j \<or> \<not> p k)"
        using h less.prems by (intro less.hyps) auto
      then obtain k where k: "search_loop cond (?h + 1) j = Ok k" "?h + 1 \<le> k" "k \<le> j"
        "k = ?h + 1 \<or> p (k - 1)" "k = j \<or> \<not> p k" by blast
      from k(4) ph have "p (k - 1)" by auto
      with k h c ph True show ?thesis by (subst search_loop.simps) auto
    next
      case nph: False
      have "\<exists>k. search_loop cond i ?h = Ok k \<and> i \<le> k \<and> k \<le> ?h
            \<and> (k = i \<or> p (k - 1)) \<and> (k = ?h \<or> \<not> p k)"
        using h less.prems by (intro less.hyps) auto
      then obtain k where k: "search_loop cond i ?h = Ok k" "i \<le> k" "k \<le> ?h"
        "k = i \<or> p (k - 1)" "k = ?h \<or> \<not> p k" by blast
      from k(5) nph have "\<not> p k" by auto
      with k h c nph True show ?thesis by (subst search_loop.simps) auto
    qed
  qed
qed

lemma symMerge_forward_blocks:
  "length P = k \<Longrightarrow> k + length R1 + 1 = i \<Longrightarrow>
   symMerge_forward \<lparr>sorter_t = P @ x # R1 @ S, sorter_less = fs\<rparr> k i
     = Ok \<lparr>sorter_t = P @ R1 @ x # S, sorter_less = fs\<rparr>"
proof (induction R1 arbitrary: P k)
  case Nil
  then show ?case by (subst symMerge_forward.simps) auto
next
  case (Cons r R1)
  have i1: "k = length P" and lt: "k < i - 1" using Cons.prems by simp_all
  have sw: "Swap \<lparr>sorter_t = P @ x # (r # R1) @ S, sorter_less = fs\<rparr> k (k + 1)
      = Ok \<lparr>sorter_t = (P @ [r]) @ x # R1 @ S, sorter_less = fs\<rparr>"
    unfolding i1 using Swap_blocks[of P x "[]" r "R1 @ S" fs] by simp
  have "symMerge_forward \<lparr>sorter_t = (P @ [r]) @ x # R1 @ S, sorter_less = fs\<rparr> (k + 1) i
      = Ok \<lparr>sorter_t = (P @ [r]) @ R1 @ x # S, sorter_less = fs\<rparr>"
    using Cons.prems by (intro Cons.IH) auto
  with sw lt show ?case by (subst symMerge_forward.simps) simp
qed

lemma symMerge_backward_blocks:
  "length P + length L2 = k \<Longrightarrow> length P = i \<Longrightarrow>
   symMerge_backward \<lparr>sorter_t = P @ L2 @ y # S, sorter_less = fs\<rparr> k i
     = Ok \<lparr>sorter_t = P @ y # L2 @ S, sorter_less = fs\<rparr>"
proof (induction L2 arbitrary: k S rule: rev_induct)
  case Nil
  then show ?case by (subst symMerge_backward.simps) auto
next
  case (snoc l L2)
  have i1: "k = Suc (length (P @ L2) + length ([] :: 'a T list))" and i2: "k - 1 = length (P @ L2)"
    and gt: "k > i" using snoc.prems by simp_all
  have sw: "Swap \<lparr>sorter_t = P @ (L2 @ [l]) @ y # S, sorter_less = fs\<rparr> k (k - 1)
      = Ok \<lparr>sorter_t = P @ L2 @ y # (l # S), sorter_less = fs\<rparr>"
    unfolding i2 unfolding i1 using Swap_blocks'[of "P @ L2" l "[]" y S fs] by simp
  have "symMerge_backward \<lparr>sorter_t = P @ L2 @ y # (l # S), sorter_less = fs\<rparr> (k - 1) i
      = Ok \<lparr>sorter_t = P @ y # L2 @ (l # S), sorter_less = fs\<rparr>"
    using snoc.prems by (intro snoc.IH) auto
  with sw gt show ?case by (subst symMerge_backward.simps) simp
qed

text \<open>
  Sorted lists and stable sortings under a strict weak order. If two sorted
  lists are split as \<open>L1 @ L2\<close> and \<open>R1 @ R2\<close> such that every element of \<open>R1\<close>
  is less than every element of \<open>L2\<close> and no element of \<open>R2\<close> is less than an
  element of \<open>L1\<close>, then the stable sorting of \<open>(L1 @ L2) @ (R1 @ R2)\<close> is the
  stable sorting of \<open>L1 @ R1\<close> followed by that of \<open>L2 @ R2\<close> (\<open>merge_split\<close>).
\<close>

lemma swo_irrefl: "swo lt \<Longrightarrow> \<not> lt a a"
  unfolding swo_def by blast

lemma srt_Nil [simp]: "srt lt []"
  by (simp add: srt_def)

lemma srt_single [simp]: "srt lt [x]"
  by (simp add: srt_def)

lemma srt_append:
  "srt lt (xs @ ys) \<longleftrightarrow> srt lt xs \<and> srt lt ys \<and> (\<forall>x\<in>set xs. \<forall>y\<in>set ys. \<not> lt y x)"
  by (auto simp: srt_def sorted_wrt_append)

lemma srt_Cons: "srt lt (x # xs) \<longleftrightarrow> srt lt xs \<and> (\<forall>y\<in>set xs. \<not> lt y x)"
  by (auto simp: srt_def)

lemma srt_take: "srt lt xs \<Longrightarrow> srt lt (take n xs)"
  by (metis append_take_drop_id srt_append)

lemma srt_drop: "srt lt xs \<Longrightarrow> srt lt (drop n xs)"
  by (metis append_take_drop_id srt_append)

lemma srt_last:
  assumes "swo lt" "srt lt xs" "x \<in> set xs"
  shows "\<not> lt (last xs) x"
proof -
  from assms(3) have ne: "xs \<noteq> []" by auto
  then have xs: "xs = butlast xs @ [last xs]" by simp
  from assms(3) have "x \<in> set (butlast xs) \<or> x = last xs"
    by (subst (asm) xs) auto
  moreover from assms(2) have "\<forall>y\<in>set (butlast xs). \<not> lt (last xs) y"
    by (subst (asm) xs) (simp add: srt_append)
  ultimately show ?thesis using swo_irrefl[OF assms(1)] by auto
qed

lemma srt_hd:
  assumes "swo lt" "srt lt xs" "x \<in> set xs"
  shows "\<not> lt x (hd xs)"
proof (cases xs)
  case Nil
  with assms(3) show ?thesis by simp
next
  case (Cons y ys)
  with assms(2,3) swo_irrefl[OF assms(1)] show ?thesis by (auto simp: srt_Cons)
qed

lemma block_strict:
  assumes lt: "swo lt" and "srt lt R1" and "srt lt L2"
    and b: "R1 = [] \<or> L2 = [] \<or> lt (last R1) (hd L2)"
  shows "\<forall>r\<in>set R1. \<forall>l\<in>set L2. lt r l"
proof (intro ballI)
  fix r l assume r: "r \<in> set R1" and l: "l \<in> set L2"
  with b have s: "lt (last R1) (hd L2)" by auto
  show "lt r l"
  proof (rule ccontr)
    assume n: "\<not> lt r l"
    from swo_negtrans[OF lt srt_last[OF lt assms(2) r] n] have "\<not> lt (last R1) l" .
    from swo_negtrans[OF lt this srt_hd[OF lt assms(3) l]] s show False by simp
  qed
qed

lemma block_weak:
  assumes lt: "swo lt" and "srt lt L1" and "srt lt R2"
    and b: "L1 = [] \<or> R2 = [] \<or> \<not> lt (hd R2) (last L1)"
  shows "\<forall>l\<in>set L1. \<forall>r\<in>set R2. \<not> lt r l"
proof (intro ballI)
  fix l r assume l: "l \<in> set L1" and r: "r \<in> set R2"
  with b have s: "\<not> lt (hd R2) (last L1)" by auto
  from swo_negtrans[OF lt srt_hd[OF lt assms(3) r] s] have "\<not> lt r (last L1)" .
  from swo_negtrans[OF lt this srt_last[OF lt assms(2) l]] show "\<not> lt r l" .
qed

lemma stable_of_refl: "srt lt xs \<Longrightarrow> stable_of lt xs xs"
  by (simp add: stable_of_def)

lemma stable_of_srt: "stable_of lt xs ys \<Longrightarrow> srt lt ys"
  by (simp add: stable_of_def)

lemma stable_of_mset:
  assumes "swo lt" and "stable_of lt xs ys"
  shows "mset ys = mset xs"
proof (rule multiset_eqI)
  fix x
  let ?E = "\<lambda>y. \<not> lt x y \<and> \<not> lt y x"
  have c: "count (mset zs) x = count (mset (filter ?E zs)) x" for zs
    using swo_irrefl[OF assms(1), of x] by (induction zs) auto
  from assms(2) have "filter ?E ys = filter ?E xs" by (simp add: stable_of_def)
  with c[of ys] c[of xs] show "count (mset ys) x = count (mset xs) x" by simp
qed

lemma stable_of_set: "swo lt \<Longrightarrow> stable_of lt xs ys \<Longrightarrow> set ys = set xs"
  by (metis stable_of_mset set_mset_mset)

lemma stable_of_length: "swo lt \<Longrightarrow> stable_of lt xs ys \<Longrightarrow> length ys = length xs"
  by (metis stable_of_mset size_mset)

lemma stable_of_Nil: "swo lt \<Longrightarrow> stable_of lt [] ys \<Longrightarrow> ys = []"
  using stable_of_length by fastforce

lemma stable_of_blocks:
  "stable_of lt X L \<Longrightarrow> stable_of lt Y R \<Longrightarrow> stable_of lt (L @ R) M \<Longrightarrow> stable_of lt (X @ Y) M"
  by (simp add: stable_of_def)

lemma stable_of_isort:
  assumes lt: "swo lt"
  shows "stable_of lt X (rev (foldl (\<lambda>acc x. ins lt x acc) [] X))"
proof -
  have "sorted_wrt (\<lambda>a b. \<not> lt a b) (foldl (\<lambda>acc x. ins lt x acc) [] X)"
    by (rule desc_isort[OF lt]) simp
  then have s: "srt lt (rev (foldl (\<lambda>acc x. ins lt x acc) [] X))"
    by (simp add: srt_def sorted_wrt_rev)
  have "filter (\<lambda>y. \<not> lt x y \<and> \<not> lt y x) (rev (foldl (\<lambda>acc x. ins lt x acc) [] X))
      = filter (\<lambda>y. \<not> lt x y \<and> \<not> lt y x) X" for x
  proof -
    have "\<not> lt a b" if "\<not> lt x a \<and> \<not> lt a x" and "\<not> lt x b \<and> \<not> lt b x" for a b
      using that swo_negtrans[OF lt, of a x b] by blast
    from stable_isort[of "\<lambda>y. \<not> lt x y \<and> \<not> lt y x" lt "[]" X, OF this]
    show ?thesis by simp
  qed
  with s show ?thesis by (simp add: stable_of_def)
qed

lemma merge_split:
  assumes lt: "swo lt"
    and L: "srt lt (L1 @ L2)" and R: "srt lt (R1 @ R2)"
    and strict: "\<forall>r\<in>set R1. \<forall>l\<in>set L2. lt r l"
    and weak: "\<forall>l\<in>set L1. \<forall>r\<in>set R2. \<not> lt r l"
    and M1: "stable_of lt (L1 @ R1) M1" and M2: "stable_of lt (L2 @ R2) M2"
  shows "stable_of lt ((L1 @ L2) @ (R1 @ R2)) (M1 @ M2)"
proof -
  have s1: "set M1 = set L1 \<union> set R1" using stable_of_set[OF lt M1] by simp
  have s2: "set M2 = set L2 \<union> set R2" using stable_of_set[OF lt M2] by simp
  have "\<not> lt y x" if "x \<in> set M1" "y \<in> set M2" for x y
  proof -
    from that s1 s2 consider "x \<in> set L1" "y \<in> set L2" | "x \<in> set L1" "y \<in> set R2"
      | "x \<in> set R1" "y \<in> set L2" | "x \<in> set R1" "y \<in> set R2" by auto
    then show ?thesis
    proof cases
      case 1 with L show ?thesis by (auto simp: srt_append)
    next
      case 2 with weak show ?thesis by auto
    next
      case 3 with strict swo_asym[OF lt, of x y] show ?thesis by auto
    next
      case 4 with R show ?thesis by (auto simp: srt_append)
    qed
  qed
  then have s: "srt lt (M1 @ M2)"
    using stable_of_srt[OF M1] stable_of_srt[OF M2] by (simp add: srt_append)
  have "filter (\<lambda>y. \<not> lt x y \<and> \<not> lt y x) (M1 @ M2)
      = filter (\<lambda>y. \<not> lt x y \<and> \<not> lt y x) ((L1 @ L2) @ (R1 @ R2))" for x
  proof -
    let ?E = "\<lambda>y. \<not> lt x y \<and> \<not> lt y x"
    have "filter ?E R1 = [] \<or> filter ?E L2 = []"
    proof (rule ccontr)
      assume "\<not> (filter ?E R1 = [] \<or> filter ?E L2 = [])"
      then obtain r l where r: "r \<in> set R1" "?E r" and l: "l \<in> set L2" "?E l"
        by (auto simp: filter_empty_conv)
      from strict r(1) l(1) have "lt r l" by simp
      moreover from swo_negtrans[OF lt, of r x l] r(2) l(2) have "\<not> lt r l" by blast
      ultimately show False by simp
    qed
    then have c: "filter ?E R1 @ filter ?E L2 = filter ?E L2 @ filter ?E R1" by auto
    from M1 have "filter ?E M1 = filter ?E L1 @ filter ?E R1" by (simp add: stable_of_def)
    moreover from M2 have "filter ?E M2 = filter ?E L2 @ filter ?E R2" by (simp add: stable_of_def)
    ultimately show ?thesis using c by simp
  qed
  with s show ?thesis by (simp add: stable_of_def)
qed

text \<open>
  \<^verbatim>\<open>symMerge\<close> returns, and replaces two adjacent sorted blocks by the stable
  sorting of their concatenation. The boundary found by the binary search is
  characterised by the test at its two neighbours only.
\<close>

lemma symMerge_one_left:
  "m - a = 1 \<Longrightarrow> search_loop (\<lambda>h. Less data h a) m b = Ok k \<Longrightarrow>
   symMerge_forward data a k = Ok d' \<Longrightarrow> symMerge data a m b = return d'"
  by (subst symMerge.simps) simp

lemma symMerge_one_right:
  "m - a \<noteq> 1 \<Longrightarrow> b - m = 1 \<Longrightarrow> search_loop (\<lambda>h. not_res (Less data m h)) a m = Ok k \<Longrightarrow>
   symMerge_backward data m k = Ok d' \<Longrightarrow> symMerge data a m b = return d'"
  by (subst symMerge.simps) simp

lemma symMerge_general:
  "m - a \<noteq> 1 \<Longrightarrow> b - m \<noteq> 1 \<Longrightarrow> mid = (a + b) div 2 \<Longrightarrow> n = mid + m \<Longrightarrow>
   start0 = (if m > mid then n - b else a) \<Longrightarrow> r0 = (if m > mid then mid else m) \<Longrightarrow>
   p = n - 1 \<Longrightarrow>
   search_loop (\<lambda>c. not_res (Less data (p - c) c)) start0 r0 = Ok k \<Longrightarrow> e = n - k \<Longrightarrow>
   (if k < m \<and> m < e then rotate data k m e else return data) = return d1 \<Longrightarrow>
   (if a < k \<and> k < mid then symMerge d1 a k mid else return d1) = return d2 \<Longrightarrow>
   (if mid < e \<and> e < b then symMerge d2 mid e b else return d2) = return d3 \<Longrightarrow>
   symMerge data a m b = return d3"
  by (subst symMerge.simps) (simp add: Let_def cong: if_cong)

lemma last_take_nth: "0 < n \<Longrightarrow> n \<le> length xs \<Longrightarrow> last (take n xs) = xs ! (n - 1)"
proof -
  assume n: "0 < n" "n \<le> length xs"
  then have "take n xs \<noteq> []" by auto
  then have "last (take n xs) = take n xs ! (length (take n xs) - 1)" by (rule last_conv_nth)
  also have "\<dots> = xs ! (n - 1)" using n by (simp add: min_def)
  finally show ?thesis .
qed

lemma nth_blocks_L:
  "length P = a \<Longrightarrow> a \<le> i \<Longrightarrow> i < a + length L \<Longrightarrow> (P @ L @ X) ! i = L ! (i - a)"
proof -
  assume a: "length P = a" "a \<le> i" "i < a + length L"
  then have "i - a < length L" by arith
  with a show ?thesis by (simp add: nth_append)
qed

lemma nth_blocks_R:
  "length P = a \<Longrightarrow> a + length L = m \<Longrightarrow> m \<le> j \<Longrightarrow> j < m + length R \<Longrightarrow>
   (P @ L @ R @ S) ! j = R ! (j - m)"
proof -
  assume a: "length P = a" "a + length L = m" "m \<le> j" "j < m + length R"
  then have "(P @ L @ R @ S) ! j = ((P @ L) @ R @ S) ! j" by simp
  also have "\<dots> = (R @ S) ! (j - m)" using a by (subst nth_append) auto
  also have "\<dots> = R ! (j - m)" using a by (subst nth_append) auto
  finally show ?thesis .
qed

lemma hd_drop_nth: "n < length xs \<Longrightarrow> hd (drop n xs) = xs ! n"
  by (simp add: hd_drop_conv_nth)

lemma symMerge_blocks:
  assumes fs: "fs \<noteq> []" and lt: "swo (less_chain fs)"
  shows "length P = a \<Longrightarrow> a + length L = m \<Longrightarrow> m + length R = b \<Longrightarrow> L \<noteq> [] \<Longrightarrow> R \<noteq> [] \<Longrightarrow>
     srt (less_chain fs) L \<Longrightarrow> srt (less_chain fs) R \<Longrightarrow>
     \<exists>M. symMerge \<lparr>sorter_t = P @ L @ R @ S, sorter_less = fs\<rparr> a m b
           = return \<lparr>sorter_t = P @ M @ S, sorter_less = fs\<rparr>
         \<and> stable_of (less_chain fs) (L @ R) M"
proof (induction "length L + length R" arbitrary: P L R S a m b rule: less_induct)
  case less
  let ?lt = "less_chain fs"
  define d where "d = \<lparr>sorter_t = P @ L @ R @ S, sorter_less = fs\<rparr>"
  note sL = \<open>srt ?lt L\<close> and sR = \<open>srt ?lt R\<close>
  have lenL: "length L = m - a" and lenR: "length R = b - m" and am: "a < m" and mb: "m < b"
    and lenP: "length P = a"
    using less.prems by auto
  have Less_LR: "Less d j i = Ok (?lt (R ! (j - m)) (L ! (i - a)))"
    if "a \<le> i" "i < m" "m \<le> j" "j < b" for i j
  proof -
    have "(P @ L @ R @ S) ! i = L ! (i - a)"
      using that lenP lenL by (intro nth_blocks_L) auto
    moreover have "(P @ L @ R @ S) ! j = R ! (j - m)"
      using that lenP lenL lenR am by (intro nth_blocks_R) auto
    ultimately show ?thesis
      using Less_chain[OF fs, of j "P @ L @ R @ S" i] that lenP lenL lenR unfolding d_def by simp
  qed
  have Less_RL: "Less d i j = Ok (?lt (L ! (i - a)) (R ! (j - m)))"
    if "a \<le> i" "i < m" "m \<le> j" "j < b" for i j
  proof -
    have "(P @ L @ R @ S) ! i = L ! (i - a)"
      using that lenP lenL by (intro nth_blocks_L) auto
    moreover have "(P @ L @ R @ S) ! j = R ! (j - m)"
      using that lenP lenL lenR am by (intro nth_blocks_R) auto
    ultimately show ?thesis
      using Less_chain[OF fs, of i "P @ L @ R @ S" j] that lenP lenL lenR unfolding d_def by simp
  qed
  consider (one_left) "m - a = 1" | (one_right) "m - a \<noteq> 1" "b - m = 1"
    | (general) "m - a \<noteq> 1" "b - m \<noteq> 1" by blast
  then have "\<exists>M. symMerge d a m b = return \<lparr>sorter_t = P @ M @ S, sorter_less = fs\<rparr>
         \<and> stable_of ?lt (L @ R) M"
  proof cases
    case one_left
    with lenL obtain x where L: "L = [x]" by (cases L) auto
    have c: "Less d h a = Ok (?lt (R ! (h - m)) x)" if "m \<le> h" "h < b" for h
      using Less_LR[of a h] that am L by simp
    from search_loop_spec[of m b "\<lambda>h. Less d h a" "\<lambda>h. ?lt (R ! (h - m)) x", OF c] mb
    obtain k where k: "search_loop (\<lambda>h. Less d h a) m b = Ok k" "m \<le> k" "k \<le> b"
      "k = m \<or> ?lt (R ! (k - 1 - m)) x" "k = b \<or> \<not> ?lt (R ! (k - m)) x" by auto
    define R1 where "R1 = take (k - m) R"
    define R2 where "R2 = drop (k - m) R"
    have R: "R = R1 @ R2" and l1: "length R1 = k - m"
      using k lenR by (simp_all add: R1_def R2_def)
    have s1: "srt ?lt R1" and s2: "srt ?lt R2"
      using sR by (simp_all add: R1_def R2_def srt_take srt_drop)
    have "symMerge_forward \<lparr>sorter_t = P @ x # R1 @ (R2 @ S), sorter_less = fs\<rparr> a k
        = Ok \<lparr>sorter_t = P @ R1 @ x # (R2 @ S), sorter_less = fs\<rparr>"
      using lenP l1 k one_left by (intro symMerge_forward_blocks) auto
    then have fw: "symMerge_forward d a k
        = Ok \<lparr>sorter_t = P @ (R1 @ x # R2) @ S, sorter_less = fs\<rparr>"
      by (simp add: d_def L R)
    have b1: "R1 = [] \<or> [x] = [] \<or> ?lt (last R1) (hd [x])"
    proof (cases "k = m")
      case True
      then show ?thesis by (simp add: R1_def)
    next
      case False
      with k have "0 < k - m" "k - m \<le> length R" "?lt (R ! (k - 1 - m)) x"
        using lenR by auto
      then show ?thesis by (simp add: R1_def last_take_nth)
    qed
    have b2: "[x] = [] \<or> R2 = [] \<or> \<not> ?lt (hd R2) (last [x])"
    proof (cases "k = b")
      case True
      then show ?thesis using lenR by (simp add: R2_def)
    next
      case False
      with k have "k - m < length R" "\<not> ?lt (R ! (k - m)) x" using lenR by auto
      then show ?thesis by (simp add: R2_def hd_drop_nth)
    qed
    from block_weak[OF lt srt_single s2 b2] s2 have s3: "srt ?lt (x # R2)"
      by (simp add: srt_Cons)
    have "stable_of ?lt (([] @ [x]) @ (R1 @ R2)) (R1 @ (x # R2))"
    proof (rule merge_split[OF lt])
      show "srt ?lt ([] @ [x])" by simp
      show "srt ?lt (R1 @ R2)" using sR R by simp
      show "\<forall>r\<in>set R1. \<forall>l\<in>set [x]. ?lt r l" by (rule block_strict[OF lt s1 srt_single b1])
      show "\<forall>l\<in>set []. \<forall>r\<in>set R2. \<not> ?lt r l" by simp
      show "stable_of ?lt ([] @ R1) R1" using s1 by (simp add: stable_of_refl)
      show "stable_of ?lt ([x] @ R2) (x # R2)" using s3 by (simp add: stable_of_refl)
    qed
    then have "stable_of ?lt (L @ R) (R1 @ x # R2)" by (simp add: L R)
    with symMerge_one_left[OF one_left k(1) fw] show ?thesis by blast
  next
    case one_right
    with lenR obtain y where R: "R = [y]" by (cases R) auto
    have c: "not_res (Less d m h) = Ok (\<not> ?lt y (L ! (h - a)))" if "a \<le> h" "h < m" for h
      using Less_LR[of h m] that mb R by (simp add: not_res_def)
    from search_loop_spec[of a m "\<lambda>h. not_res (Less d m h)" "\<lambda>h. \<not> ?lt y (L ! (h - a))", OF c] am
    obtain k where k: "search_loop (\<lambda>h. not_res (Less d m h)) a m = Ok k" "a \<le> k" "k \<le> m"
      "k = a \<or> \<not> ?lt y (L ! (k - 1 - a))" "k = m \<or> ?lt y (L ! (k - a))" by auto
    define L1 where "L1 = take (k - a) L"
    define L2 where "L2 = drop (k - a) L"
    have L: "L = L1 @ L2" and l1: "length L1 = k - a" and l2: "length L2 = m - k"
      using k lenL by (simp_all add: L1_def L2_def)
    have s1: "srt ?lt L1" and s2: "srt ?lt L2"
      using sL by (simp_all add: L1_def L2_def srt_take srt_drop)
    have "symMerge_backward \<lparr>sorter_t = (P @ L1) @ L2 @ y # S, sorter_less = fs\<rparr> m k
        = Ok \<lparr>sorter_t = (P @ L1) @ y # L2 @ S, sorter_less = fs\<rparr>"
      using lenP l1 l2 k by (intro symMerge_backward_blocks) auto
    then have bw: "symMerge_backward d m k
        = Ok \<lparr>sorter_t = P @ (L1 @ y # L2) @ S, sorter_less = fs\<rparr>"
      by (simp add: d_def L R)
    have b1: "[y] = [] \<or> L2 = [] \<or> ?lt (last [y]) (hd L2)"
    proof (cases "k = m")
      case True
      then show ?thesis using lenL by (simp add: L2_def)
    next
      case False
      with k have "k - a < length L" "?lt y (L ! (k - a))" using lenL by auto
      then show ?thesis by (simp add: L2_def hd_drop_nth)
    qed
    have b2: "L1 = [] \<or> [y] = [] \<or> \<not> ?lt (hd [y]) (last L1)"
    proof (cases "k = a")
      case True
      then show ?thesis by (simp add: L1_def)
    next
      case False
      with k have "0 < k - a" "k - a \<le> length L" "\<not> ?lt y (L ! (k - 1 - a))"
        using lenL by auto
      then show ?thesis by (simp add: L1_def last_take_nth)
    qed
    from block_weak[OF lt s1 srt_single b2] s1 have s3: "srt ?lt (L1 @ [y])"
      by (simp add: srt_append)
    have "stable_of ?lt ((L1 @ L2) @ ([y] @ [])) ((L1 @ [y]) @ L2)"
    proof (rule merge_split[OF lt])
      show "srt ?lt (L1 @ L2)" using sL L by simp
      show "srt ?lt ([y] @ [])" by simp
      show "\<forall>r\<in>set [y]. \<forall>l\<in>set L2. ?lt r l" by (rule block_strict[OF lt srt_single s2 b1])
      show "\<forall>l\<in>set L1. \<forall>r\<in>set []. \<not> ?lt r l" by simp
      show "stable_of ?lt (L1 @ [y]) (L1 @ [y])" using s3 by (simp add: stable_of_refl)
      show "stable_of ?lt (L2 @ []) L2" using s2 by (simp add: stable_of_refl)
    qed
    then have "stable_of ?lt (L @ R) (L1 @ y # L2)" by (simp add: L R)
    with symMerge_one_right[OF one_right k(1) bw] show ?thesis by blast
  next
    case general
    define mid where "mid = (a + b) div 2"
    define n where "n = mid + m"
    define start0 where "start0 = (if m > mid then n - b else a)"
    define r0 where "r0 = (if m > mid then mid else m)"
    define p where "p = n - 1"
    have h1: "2 * mid \<le> a + b" and h2: "a + b < 2 * mid + 2" by (simp_all add: mid_def)
    have am2: "a + 2 \<le> m" and mb2: "m + 2 \<le> b" using general am mb by simp_all
    have r1: "a \<le> start0" "start0 \<le> r0" "r0 \<le> m" "r0 \<le> mid" "start0 + b \<ge> n"
      using h1 h2 am2 mb2 by (auto simp: start0_def r0_def n_def)
    have c: "not_res (Less d (p - c) c) = Ok (\<not> ?lt (R ! (p - c - m)) (L ! (c - a)))"
      if "start0 \<le> c" "c < r0" for c
    proof -
      from that r1 have "a \<le> c" "c < m" "m \<le> p - c" "p - c < b"
        by (auto simp: p_def n_def)
      from Less_LR[OF this] show ?thesis by (simp add: not_res_def)
    qed
    from search_loop_spec[of start0 r0 "\<lambda>c. not_res (Less d (p - c) c)"
        "\<lambda>c. \<not> ?lt (R ! (p - c - m)) (L ! (c - a))", OF c] r1
    obtain k where k: "search_loop (\<lambda>c. not_res (Less d (p - c) c)) start0 r0 = Ok k"
      "start0 \<le> k" "k \<le> r0"
      "k = start0 \<or> \<not> ?lt (R ! (p - (k - 1) - m)) (L ! (k - 1 - a))"
      "k = r0 \<or> ?lt (R ! (p - k - m)) (L ! (k - a))" by auto
    define e where "e = n - k"
    have r2: "a \<le> k" "k \<le> m" "k \<le> mid" "m \<le> e" "e \<le> b" "mid \<le> e"
      "e - m = mid - k" "e - mid = m - k" "a < mid" "mid < b"
      using r1 k(2,3) h1 h2 am2 mb2 by (auto simp: e_def n_def)
    define L1 where "L1 = take (k - a) L"
    define L2 where "L2 = drop (k - a) L"
    define R1 where "R1 = take (e - m) R"
    define R2 where "R2 = drop (e - m) R"
    have L: "L = L1 @ L2" and R: "R = R1 @ R2"
      and l1: "length L1 = k - a" and l2: "length L2 = m - k"
      and l3: "length R1 = e - m" and l4: "length R2 = b - e"
      using r2 lenL lenR by (simp_all add: L1_def L2_def R1_def R2_def)
    have s1: "srt ?lt L1" and s2: "srt ?lt L2" and s3: "srt ?lt R1" and s4: "srt ?lt R2"
      using sL sR by (simp_all add: L1_def L2_def R1_def R2_def srt_take srt_drop)
    define d1 where "d1 = \<lparr>sorter_t = P @ L1 @ R1 @ L2 @ R2 @ S, sorter_less = fs\<rparr>"
    have rot: "(if k < m \<and> m < e then rotate d k m e else return d) = return d1"
    proof (cases "k < m \<and> m < e")
      case True
      have "rotate \<lparr>sorter_t = (P @ L1) @ L2 @ R1 @ (R2 @ S), sorter_less = fs\<rparr> k m e
          = return \<lparr>sorter_t = (P @ L1) @ R1 @ L2 @ (R2 @ S), sorter_less = fs\<rparr>"
        using True lenP l1 l2 l3 r2 by (intro rotate_blocks) auto
      with True show ?thesis by (simp add: d_def d1_def L R)
    next
      case False
      with l2 l3 r2 have "L2 = [] \<or> R1 = []" by auto
      with False show ?thesis by (auto simp: d_def d1_def L R)
    qed
    have b1: "R1 = [] \<or> L2 = [] \<or> ?lt (last R1) (hd L2)"
    proof (cases "k = r0")
      case True
      with r2 l2 l3 have "R1 = [] \<or> L2 = []" by (auto simp: r0_def split: if_splits)
      then show ?thesis by blast
    next
      case False
      with k have kr: "k < r0" and x: "?lt (R ! (p - k - m)) (L ! (k - a))" by auto
      from kr r1 r2 have km: "k < m" "k < mid" by linarith+
      have i1: "k - a < length L" using km r2 lenL by linarith
      have i2: "0 < e - m" using km r2 by linarith
      have i3: "e - m \<le> length R" using r2 lenR by linarith
      have i4: "p - k - m = e - m - 1" by (simp add: p_def e_def)
      from x i1 i2 i3 show ?thesis unfolding i4
        by (simp add: L2_def R1_def hd_drop_nth last_take_nth)
    qed
    have b2: "L1 = [] \<or> R2 = [] \<or> \<not> ?lt (hd R2) (last L1)"
    proof (cases "k = start0")
      case True
      with r2 l1 l4 h1 h2 have "L1 = [] \<or> R2 = []"
        by (auto simp: start0_def e_def n_def split: if_splits)
      then show ?thesis by blast
    next
      case False
      with k have ks: "start0 < k" and x: "\<not> ?lt (R ! (p - (k - 1) - m)) (L ! (k - 1 - a))"
        by auto
      from ks r1 have ka: "a < k" by linarith
      have nk: "k \<le> n" using r2 by (simp add: n_def)
      have eb: "e < b" using ks r1 nk by (simp add: e_def)
      have i1: "0 < k - a" using ka by simp
      have i2: "k - a \<le> length L" using r2 lenL by linarith
      have i3: "e - m < length R" using eb r2 lenR by linarith
      have i4: "p - (k - 1) - m = e - m" using ka nk r2 by (simp add: p_def e_def)
      have i5: "k - 1 - a = k - a - 1" by simp
      from x i1 i2 i3 show ?thesis unfolding i4 i5
        by (simp add: L1_def R2_def hd_drop_nth last_take_nth)
    qed
    have "\<exists>M1. (if a < k \<and> k < mid then symMerge d1 a k mid else return d1)
            = return \<lparr>sorter_t = P @ M1 @ L2 @ R2 @ S, sorter_less = fs\<rparr>
          \<and> stable_of ?lt (L1 @ R1) M1"
    proof (cases "a < k \<and> k < mid")
      case True
      have meas: "length L1 + length R1 < length L + length R"
        using True l1 l3 r2 lenL lenR am mb by linarith
      have p2: "a + length L1 = k" and p3: "k + length R1 = mid"
        and p4: "L1 \<noteq> []" and p5: "R1 \<noteq> []"
        using True l1 l3 r2 by auto
      have "\<exists>M. symMerge \<lparr>sorter_t = P @ L1 @ R1 @ (L2 @ R2 @ S), sorter_less = fs\<rparr> a k mid
           = return \<lparr>sorter_t = P @ M @ (L2 @ R2 @ S), sorter_less = fs\<rparr>
         \<and> stable_of ?lt (L1 @ R1) M"
        by (rule less.hyps[OF meas lenP p2 p3 p4 p5 s1 s3])
      with True show ?thesis by (simp add: d1_def)
    next
      case False
      with l1 l3 r2 have "L1 = [] \<or> R1 = []" by auto
      with s1 s3 have "stable_of ?lt (L1 @ R1) (L1 @ R1)" by (auto simp: stable_of_refl)
      with False show ?thesis by (auto simp: d1_def)
    qed
    then obtain M1 where
      m1: "(if a < k \<and> k < mid then symMerge d1 a k mid else return d1)
            = return \<lparr>sorter_t = P @ M1 @ L2 @ R2 @ S, sorter_less = fs\<rparr>"
      and st1: "stable_of ?lt (L1 @ R1) M1" by blast
    define d2 where "d2 = \<lparr>sorter_t = P @ M1 @ L2 @ R2 @ S, sorter_less = fs\<rparr>"
    from stable_of_length[OF lt st1] l1 l3 r2 have lM1: "length M1 = mid - a" by simp
    have "\<exists>M2. (if mid < e \<and> e < b then symMerge d2 mid e b else return d2)
            = return \<lparr>sorter_t = P @ M1 @ M2 @ S, sorter_less = fs\<rparr>
          \<and> stable_of ?lt (L2 @ R2) M2"
    proof (cases "mid < e \<and> e < b")
      case True
      have meas: "length L2 + length R2 < length L + length R"
        using True l2 l4 r2 lenL lenR am mb by linarith
      have p1: "length (P @ M1) = mid" using lenP lM1 r2 by simp
      have p2: "mid + length L2 = e" and p3: "e + length R2 = b"
        and p4: "L2 \<noteq> []" and p5: "R2 \<noteq> []"
        using True l2 l4 r2 by auto
      have "\<exists>M. symMerge \<lparr>sorter_t = (P @ M1) @ L2 @ R2 @ S, sorter_less = fs\<rparr> mid e b
           = return \<lparr>sorter_t = (P @ M1) @ M @ S, sorter_less = fs\<rparr>
         \<and> stable_of ?lt (L2 @ R2) M"
        by (rule less.hyps[OF meas p1 p2 p3 p4 p5 s2 s4])
      with True show ?thesis by (simp add: d2_def)
    next
      case False
      with l2 l4 r2 have "L2 = [] \<or> R2 = []" by auto
      with s2 s4 have "stable_of ?lt (L2 @ R2) (L2 @ R2)" by (auto simp: stable_of_refl)
      with False show ?thesis by (auto simp: d2_def)
    qed
    then obtain M2 where
      m2: "(if mid < e \<and> e < b then symMerge d2 mid e b else return d2)
            = return \<lparr>sorter_t = P @ (M1 @ M2) @ S, sorter_less = fs\<rparr>"
      and st2: "stable_of ?lt (L2 @ R2) M2" by auto
    have "stable_of ?lt ((L1 @ L2) @ (R1 @ R2)) (M1 @ M2)"
    proof (rule merge_split[OF lt _ _ _ _ st1 st2])
      show "srt ?lt (L1 @ L2)" using sL L by simp
      show "srt ?lt (R1 @ R2)" using sR R by simp
      show "\<forall>r\<in>set R1. \<forall>l\<in>set L2. ?lt r l" by (rule block_strict[OF lt s3 s2 b1])
      show "\<forall>l\<in>set L1. \<forall>r\<in>set R2. \<not> ?lt r l" by (rule block_weak[OF lt s1 s4 b2])
    qed
    then have "stable_of ?lt (L @ R) (M1 @ M2)" using L R by simp
    with symMerge_general[OF general mid_def n_def start0_def r0_def p_def k(1) e_def rot
        m1[folded d2_def] m2]
    show ?thesis by blast
  qed
  then show ?case by (simp add: d_def)
qed

text \<open>
  The loops of \<^verbatim>\<open>stable\<close>: blocks of 20 elements are sorted by insertion, and
  each pass merges the blocks two by two; when the block size reaches the
  length, the slice is the stable sorting of the input.
\<close>

lemma blocked_length:
  assumes "swo lt"
  shows "blocked lt k X Y \<Longrightarrow> length Y = length X"
  by (induction rule: blocked.induct) (auto simp: stable_of_length[OF assms])

lemma blocked_short:
  assumes lt: "swo lt"
  shows "blocked lt k X Y \<Longrightarrow> length X \<le> k \<Longrightarrow> stable_of lt X Y"
proof (induction rule: blocked.induct)
  case (last_block X Y)
  then show ?case by simp
next
  case (next_block X Y X' Y')
  then have "X' = []" by simp
  with next_block blocked_length[OF lt next_block(3)] show ?case by simp
qed

lemma blocked_split:
  assumes lt: "swo lt"
  shows "blocked lt k X Y \<Longrightarrow> k \<le> length X \<Longrightarrow>
     \<exists>X1 Y1 X' Y'. X = X1 @ X' \<and> Y = Y1 @ Y' \<and> length X1 = k \<and> length Y1 = k
        \<and> stable_of lt X1 Y1 \<and> blocked lt k X' Y'"
proof (induction rule: blocked.induct)
  case (last_block X Y)
  then have "length X = k" by simp
  moreover have "blocked lt k [] []" by (rule blocked.last_block) (simp_all add: stable_of_refl)
  ultimately show ?case using last_block stable_of_length[OF lt last_block(2)]
    by (intro exI[of _ X] exI[of _ Y] exI[of _ "[]"]) simp
next
  case (next_block X Y X' Y')
  with stable_of_length[OF lt next_block(2)] show ?case by blast
qed

lemma stable_insertion_blocks:
  assumes fs: "fs \<noteq> []" and lt: "swo (less_chain fs)" and bs: "0 < bs"
  shows "length P = a \<Longrightarrow> a + length X = n \<Longrightarrow>
     \<exists>X1 X2 Y1. X = X1 @ X2 \<and> length X2 < bs \<and> length Y1 = length X1 \<and>
       stable_insertion \<lparr>sorter_t = P @ X, sorter_less = fs\<rparr> n bs a (a + bs)
         = return (\<lparr>sorter_t = P @ Y1 @ X2, sorter_less = fs\<rparr>, a + length X1) \<and>
       (\<forall>Y2. stable_of (less_chain fs) X2 Y2 \<longrightarrow> blocked (less_chain fs) bs X (Y1 @ Y2))"
proof (induction "length X" arbitrary: P X a rule: less_induct)
  case less
  let ?lt = "less_chain fs"
  show ?case
  proof (cases "a + bs \<le> n")
    case True
    define B where "B = take bs X"
    define X' where "X' = drop bs X"
    have X: "X = B @ X'" and lB: "length B = bs" and lX': "length X' < length X"
      using True less.prems bs by (auto simp: B_def X'_def)
    define B' where "B' = rev (foldl (\<lambda>acc x. ins ?lt x acc) [] B)"
    have sB: "stable_of ?lt B B'" unfolding B'_def by (rule stable_of_isort[OF lt])
    from stable_of_length[OF lt sB] lB have lB': "length B' = bs" by simp
    have isrt: "insertionSort \<lparr>sorter_t = P @ B @ X', sorter_less = fs\<rparr> a (a + bs)
        = Ok \<lparr>sorter_t = P @ B' @ X', sorter_less = fs\<rparr>"
      unfolding B'_def using less.prems lB by (intro insertionSort_blocks[OF fs]) auto
    have p1: "length (P @ B') = a + bs" using less.prems lB' by simp
    have p2: "a + bs + length X' = n" using less.prems X lB by simp
    from less.hyps[OF lX' p1 p2] obtain X1 X2 Y1 where
      r: "X' = X1 @ X2" "length X2 < bs" "length Y1 = length X1"
      "stable_insertion \<lparr>sorter_t = (P @ B') @ X', sorter_less = fs\<rparr> n bs (a + bs) (a + bs + bs)
         = return (\<lparr>sorter_t = (P @ B') @ Y1 @ X2, sorter_less = fs\<rparr>, a + bs + length X1)"
      "\<forall>Y2. stable_of ?lt X2 Y2 \<longrightarrow> blocked ?lt bs X' (Y1 @ Y2)" by blast
    have "stable_insertion \<lparr>sorter_t = P @ X, sorter_less = fs\<rparr> n bs a (a + bs)
         = return (\<lparr>sorter_t = P @ (B' @ Y1) @ X2, sorter_less = fs\<rparr>, a + length (B @ X1))"
      using True isrt r(4) lB unfolding X
      by (subst stable_insertion.simps) (simp add: add.assoc)
    moreover have "blocked ?lt bs X ((B' @ Y1) @ Y2)" if "stable_of ?lt X2 Y2" for Y2
      using blocked.next_block[OF lB sB r(5)[rule_format, OF that]] X by simp
    ultimately show ?thesis using r(1,2,3) lB lB' X
      by (intro exI[of _ "B @ X1"] exI[of _ X2] exI[of _ "B' @ Y1"]) simp
  next
    case False
    with less.prems have s: "length X < bs" by simp
    have "stable_insertion \<lparr>sorter_t = P @ X, sorter_less = fs\<rparr> n bs a (a + bs)
         = return (\<lparr>sorter_t = P @ [] @ X, sorter_less = fs\<rparr>, a + length ([] :: 'a T list))"
      using False by (subst stable_insertion.simps) simp
    moreover have "blocked ?lt bs X ([] @ Y2)" if "stable_of ?lt X Y2" for Y2
      using blocked.last_block[of X bs ?lt Y2] s that by simp
    ultimately show ?thesis using s
      by (intro exI[of _ "[]"] exI[of _ X]) simp
  qed
qed

lemma stable_merge_blocks:
  assumes fs: "fs \<noteq> []" and lt: "swo (less_chain fs)" and bs: "0 < bs"
  shows "length P = a \<Longrightarrow> a + length Y = n \<Longrightarrow> blocked (less_chain fs) bs X Y \<Longrightarrow>
     \<exists>Z data' a'.
       stable_merge \<lparr>sorter_t = P @ Y, sorter_less = fs\<rparr> n bs a (a + 2 * bs) = return (data', a') \<and>
       (if a' + bs < n then symMerge data' a' (a' + bs) n else return data')
         = return \<lparr>sorter_t = P @ Z, sorter_less = fs\<rparr> \<and>
       blocked (less_chain fs) (2 * bs) X Z"
proof (induction "length Y" arbitrary: P X Y a rule: less_induct)
  case less
  let ?lt = "less_chain fs"
  note bl = \<open>blocked ?lt bs X Y\<close>
  from blocked_length[OF lt bl] have lXY: "length Y = length X" .
  show ?case
  proof (cases "a + 2 * bs \<le> n")
    case True
    with less.prems lXY have "bs \<le> length X" by simp
    from blocked_split[OF lt bl this] obtain X1 B1 X' Y' where
      1: "X = X1 @ X'" "Y = B1 @ Y'" "length X1 = bs" "length B1 = bs"
         "stable_of ?lt X1 B1" "blocked ?lt bs X' Y'" by blast
    from blocked_length[OF lt 1(6)] have lXY': "length Y' = length X'" .
    with True less.prems 1 have "bs \<le> length X'" by simp
    from blocked_split[OF lt 1(6) this] obtain X2 B2 X'' Y'' where
      2: "X' = X2 @ X''" "Y' = B2 @ Y''" "length X2 = bs" "length B2 = bs"
         "stable_of ?lt X2 B2" "blocked ?lt bs X'' Y''" by blast
    have ne: "B1 \<noteq> []" "B2 \<noteq> []" using 1(4) 2(4) bs by auto
    from symMerge_blocks[OF fs lt less.prems(1) _ _ ne stable_of_srt[OF 1(5)] stable_of_srt[OF 2(5)],
        of "a + bs" "a + 2 * bs" Y''] 1(4) 2(4)
    obtain M where M: "symMerge \<lparr>sorter_t = P @ B1 @ B2 @ Y'', sorter_less = fs\<rparr> a (a + bs) (a + 2 * bs)
        = return \<lparr>sorter_t = P @ M @ Y'', sorter_less = fs\<rparr>" and sM: "stable_of ?lt (B1 @ B2) M"
      by auto
    from stable_of_blocks[OF 1(5) 2(5) sM] have sM': "stable_of ?lt (X1 @ X2) M" .
    from stable_of_length[OF lt sM'] 1(3) 2(3) have lM: "length M = 2 * bs" by simp
    have lt': "length Y'' < length Y" using 1 2 bs by simp
    have p1: "length (P @ M) = a + 2 * bs" using less.prems(1) lM by simp
    have p2: "a + 2 * bs + length Y'' = n" using less.prems(2) 1 2 by simp
    from less.hyps[OF lt' p1 p2 2(6)] obtain Z data' a' where
      r: "stable_merge \<lparr>sorter_t = (P @ M) @ Y'', sorter_less = fs\<rparr> n bs (a + 2 * bs)
            (a + 2 * bs + 2 * bs) = return (data', a')"
         "(if a' + bs < n then symMerge data' a' (a' + bs) n else return data')
            = return \<lparr>sorter_t = (P @ M) @ Z, sorter_less = fs\<rparr>"
         "blocked ?lt (2 * bs) X'' Z" by blast
    have "stable_merge \<lparr>sorter_t = P @ Y, sorter_less = fs\<rparr> n bs a (a + 2 * bs) = return (data', a')"
      using True M r(1) unfolding 1(2) 2(2)
      by (subst stable_merge.simps) simp
    moreover have "blocked ?lt (2 * bs) X (M @ Z)"
      using blocked.next_block[OF _ sM' r(3)] 1(1,3) 2(1,3) by simp
    ultimately show ?thesis using r(2) by (intro exI[of _ "M @ Z"] exI[of _ data'] exI[of _ a']) simp
  next
    case False
    have ret: "stable_merge \<lparr>sorter_t = P @ Y, sorter_less = fs\<rparr> n bs a (a + 2 * bs)
        = return (\<lparr>sorter_t = P @ Y, sorter_less = fs\<rparr>, a)"
      using False by (subst stable_merge.simps) simp
    show ?thesis
    proof (cases "a + bs < n")
      case True
      with less.prems lXY have "bs \<le> length X" by simp
      from blocked_split[OF lt bl this] obtain X1 B1 X' Y' where
        1: "X = X1 @ X'" "Y = B1 @ Y'" "length X1 = bs" "length B1 = bs"
           "stable_of ?lt X1 B1" "blocked ?lt bs X' Y'" by blast
      from blocked_length[OF lt 1(6)] have lXY': "length Y' = length X'" .
      with False True less.prems 1 have l': "length X' \<le> bs" "Y' \<noteq> []" by auto
      from blocked_short[OF lt 1(6) l'(1)] have s': "stable_of ?lt X' Y'" .
      have ne: "B1 \<noteq> []" using 1(4) bs by auto
      from symMerge_blocks[OF fs lt less.prems(1) _ _ ne l'(2) stable_of_srt[OF 1(5)]
          stable_of_srt[OF s'], of "a + bs" n "[]"] 1(2,4) less.prems(2)
      obtain M where M: "symMerge \<lparr>sorter_t = P @ B1 @ Y', sorter_less = fs\<rparr> a (a + bs) n
        = return \<lparr>sorter_t = P @ M, sorter_less = fs\<rparr>" and sM: "stable_of ?lt (B1 @ Y') M"
        by auto
      from stable_of_blocks[OF 1(5) s' sM] have "stable_of ?lt X M" using 1(1) by simp
      moreover have "length X \<le> 2 * bs" using 1(1,3) l'(1) by simp
      ultimately have "blocked ?lt (2 * bs) X M" by (intro blocked.last_block)
      with ret M True 1(2) show ?thesis by (intro exI[of _ M]) simp
    next
      case nt: False
      with less.prems lXY have "length X \<le> bs" by simp
      from blocked_short[OF lt bl this] this have "blocked ?lt (2 * bs) X Y"
        by (intro blocked.last_block) auto
      with ret nt show ?thesis by (intro exI[of _ Y]) simp
    qed
  qed
qed

lemma stable_passes_blocks:
  assumes fs: "fs \<noteq> []" and lt: "swo (less_chain fs)"
  shows "0 < bs \<Longrightarrow> length Y = n \<Longrightarrow> blocked (less_chain fs) bs X Y \<Longrightarrow>
     \<exists>Z. stable_passes \<lparr>sorter_t = Y, sorter_less = fs\<rparr> n bs = return \<lparr>sorter_t = Z, sorter_less = fs\<rparr>
        \<and> stable_of (less_chain fs) X Z"
proof (induction "n - bs" arbitrary: bs Y rule: less_induct)
  case less
  let ?lt = "less_chain fs"
  from blocked_length[OF lt less.prems(3)] less.prems(2) have lX: "length X = n" by simp
  show ?case
  proof (cases "bs < n")
    case True
    from stable_merge_blocks[OF fs lt less.prems(1), of "[]" 0 Y n X] less.prems(2,3)
    obtain Z data' a' where
      r: "stable_merge \<lparr>sorter_t = Y, sorter_less = fs\<rparr> n bs 0 (2 * bs) = return (data', a')"
         "(if a' + bs < n then symMerge data' a' (a' + bs) n else return data')
            = return \<lparr>sorter_t = Z, sorter_less = fs\<rparr>"
         "blocked ?lt (2 * bs) X Z" by auto
    from blocked_length[OF lt r(3)] lX have lZ: "length Z = n" by simp
    have m: "n - 2 * bs < n - bs" using True less.prems(1) by simp
    have b2: "0 < 2 * bs" using less.prems(1) by simp
    from less.hyps[OF m b2 lZ r(3)] obtain Z' where
      "stable_passes \<lparr>sorter_t = Z, sorter_less = fs\<rparr> n (2 * bs)
          = return \<lparr>sorter_t = Z', sorter_less = fs\<rparr>" "stable_of ?lt X Z'" by blast
    with r(1,2) True show ?thesis
      by (subst stable_passes.simps) (simp add: mult.commute)
  next
    case False
    with lX have "length X \<le> bs" by simp
    from blocked_short[OF lt less.prems(3) this] False show ?thesis
      by (subst stable_passes.simps) simp
  qed
qed

lemma Stable_stable_of:
  assumes fs: "fs \<noteq> []" and lt: "swo (less_chain fs)"
  shows "\<exists>ys. Stable \<lparr>sorter_t = xs, sorter_less = fs\<rparr> = return \<lparr>sorter_t = ys, sorter_less = fs\<rparr>
     \<and> stable_of (less_chain fs) xs ys"
proof -
  let ?lt = "less_chain fs"
  from stable_insertion_blocks[OF fs lt, of 20 "[]" 0 xs "length xs"]
  obtain X1 X2 Y1 where r: "xs = X1 @ X2" "length X2 < 20" "length Y1 = length X1"
    "stable_insertion \<lparr>sorter_t = xs, sorter_less = fs\<rparr> (length xs) 20 0 20
       = return (\<lparr>sorter_t = Y1 @ X2, sorter_less = fs\<rparr>, length X1)"
    "\<forall>Y2. stable_of ?lt X2 Y2 \<longrightarrow> blocked ?lt 20 xs (Y1 @ Y2)"
    by auto
  define Y2 where "Y2 = rev (foldl (\<lambda>acc x. ins ?lt x acc) [] X2)"
  have s2: "stable_of ?lt X2 Y2" unfolding Y2_def by (rule stable_of_isort[OF lt])
  have isrt: "insertionSort \<lparr>sorter_t = Y1 @ X2 @ [], sorter_less = fs\<rparr> (length X1) (length xs)
      = Ok \<lparr>sorter_t = Y1 @ Y2 @ [], sorter_less = fs\<rparr>"
    unfolding Y2_def using r(1,3) by (intro insertionSort_blocks[OF fs]) auto
  from r(5) s2 have bl: "blocked ?lt 20 xs (Y1 @ Y2)" by blast
  from blocked_length[OF lt bl] have "length (Y1 @ Y2) = length xs" .
  from stable_passes_blocks[OF fs lt _ this bl] obtain Z where
    "stable_passes \<lparr>sorter_t = Y1 @ Y2, sorter_less = fs\<rparr> (length xs) 20
       = return \<lparr>sorter_t = Z, sorter_less = fs\<rparr>" "stable_of ?lt xs Z" by auto
  with r(4) isrt show ?thesis by (auto simp: Stable_def stable_def Len_def)
qed

lemma by_Sort_stable_of:
  assumes "fs \<noteq> []" and "swo (less_chain fs)"
  shows "\<exists>ys. by_Sort fs xs = return ys \<and> stable_of (less_chain fs) xs ys"
  using Stable_stable_of[OF assms, of xs] by (auto simp: by_Sort_def)

lemma by_Sort_short:
  assumes "fs \<noteq> []" and "length t < 20"
  shows "by_Sort fs t = return (rev (foldl (\<lambda>acc x. ins (less_chain fs) x acc) [] t))"
proof -
  have "insertionSort \<lparr>sorter_t = [] @ t @ [], sorter_less = fs\<rparr> 0 (length t)
      = Ok \<lparr>sorter_t = [] @ rev (foldl (\<lambda>acc x. ins (less_chain fs) x acc) [] t) @ [],
           sorter_less = fs\<rparr>"
    by (intro insertionSort_blocks[OF assms(1)]) auto
  with assms(2) show ?thesis
    by (simp add: by_Sort_def Stable_def stable_def Len_def stable_insertion.simps
        stable_passes.simps)
qed

lemma by_Sort_no_comparators: "by_Sort [] [x, y] = panic"
  by (simp add: by_Sort_def Stable_def stable_def Len_def stable_insertion.simps
        insertionSort_def
        insertionSort_outer.simps[of _ 0 "Suc (Suc 0)" "Suc 0"]
        insertionSort_inner.simps[of _ 0 "Suc 0"]
        Less_no_comparators)

lemma drains_sortBy_it: "drains (sortBy_it a i) (drop i a)"
proof (induction "length a - i" arbitrary: i)
  case 0
  then show ?case by (simp add: drains_Nil next_sortBy)
next
  case (Suc k)
  then have lt: "i < length a" by simp
  from Suc have "drains (sortBy_it a (Suc i)) (drop (Suc i) a)" by simp
  with lt show ?case
    by (simp add: drains_Cons next_sortBy Cons_nth_drop_Suc[symmetric])
qed

lemma ToSlice_Sort:
  assumes "ToSlice q = return xs" and "by_Sort fs xs = return ys"
  shows "ToSlice (Sort q fs) = return ys"
proof -
  from assms have "Iterate (Sort q fs) () = return (sortBy_it ys 0)"
    by (simp add: Sort_def sortBy_def)
  with drains_sortBy_it[of ys 0] show ?thesis by (simp add: ToSlice_iff)
qed

lemma ToSlice_Sort_Panic:
  assumes "ToSlice q = return xs" and "by_Sort fs xs = panic"
  shows "ToSlice (Sort q fs) = panic"
proof -
  from assms have "Iterate (Sort q fs) () = panic"
    by (simp add: Sort_def sortBy_def)
  then show ?thesis by (simp add: ToSlice_def)
qed

text \<open>
  Claim C2. \<^verbatim>\<open>Sort\<close> with no comparator on the two-element sequence \<open>[1, 2]\<close>
  does not return the elements in their original order: the first comparison of
  the sort calls \<^verbatim>\<open>Less\<close>, whose loop bound \<^verbatim>\<open>len(s.less)-1\<close> is \<open>-1\<close> and whose
  final \<^verbatim>\<open>s.less[k]\<close> indexes the empty comparator list at 0, and the call
  panics.
\<close>

theorem Sort_without_comparators_panics:
  "ToSlice (Sort (From [Some (1::nat), Some 2]) []) = panic"
proof -
  have "by_Sort [] [Some (1::nat), Some 2] = panic"
    by (rule by_Sort_no_comparators)
  with ToSlice_From show ?thesis by (rule ToSlice_Sort_Panic)
qed

text \<open>
  Claim C5, as stated for every non-empty comparator chain, fails for a
  comparator that is not a strict weak order.
  \<^item> With the single comparator \<^verbatim>\<open>e+1 < f\<close> on integers (asymmetric and
    transitive, but 3 and 2, and 2 and 1, are tied while 1 is before 3), the
    sequence \<open>[3, 2, 1]\<close> is returned unchanged: the insertion sort compares
    only neighbours and finds them tied. The only comparator, hence the last,
    puts 1 before 3, and the output has 3 before 1.
  \<^item> With the single comparator \<^verbatim>\<open><=\<close> on the first component, the two elements
    \<open>(1, 0)\<close> and \<open>(1, 1)\<close> are exchanged, since \<^verbatim>\<open>Less(1, 0)\<close> holds: the
    comparator puts \<open>(1, 0)\<close> before \<open>(1, 1)\<close>, and the output has it after.
\<close>

theorem Sort_comparator_not_weak_order_counterexample:
  "ToSlice (Sort (From [Some (3::nat), Some 2, Some 1]) [\<lambda>e f. the e + 1 < the f])
      = return [Some 3, Some 2, Some 1]
   \<and> (\<lambda>e f. the e + 1 < the f) (Some (1::nat)) (Some 3)
   \<and> ToSlice (Sort (From [Some (1::nat, 0::nat), Some (1, 1)]) [\<lambda>e f. fst (the e) \<le> fst (the f)])
      = return [Some (1, 1), Some (1, 0)]
   \<and> (\<lambda>e f. fst (the e) \<le> fst (the f)) (Some (1::nat, 0::nat)) (Some (1, 1))"
proof -
  have "by_Sort [\<lambda>e f. the e + 1 < the f] [Some (3::nat), Some 2, Some 1]
      = return [Some 3, Some 2, Some 1]"
    by (simp add: by_Sort_short)
  from ToSlice_Sort[OF ToSlice_From this]
  have a: "ToSlice (Sort (From [Some (3::nat), Some 2, Some 1]) [\<lambda>e f. the e + 1 < the f])
      = return [Some 3, Some 2, Some 1]" .
  have "by_Sort [\<lambda>e f. fst (the e) \<le> fst (the f)] [Some (1::nat, 0::nat), Some (1, 1)]
      = return [Some (1, 1), Some (1, 0)]"
    by (simp add: by_Sort_short)
  from ToSlice_Sort[OF ToSlice_From this]
  have b: "ToSlice (Sort (From [Some (1::nat, 0::nat), Some (1, 1)])
        [\<lambda>e f. fst (the e) \<le> fst (the f)])
      = return [Some (1, 1), Some (1, 0)]" .
  from a b show ?thesis by simp
qed

text \<open>
  Claim C5, amended. Let the upstream query be a finite sequence with elements
  \<open>xs\<close> and let the comparator list be non-empty, each comparator a strict weak
  order. Then \<^verbatim>\<open>Sort\<close> returns a rearrangement \<open>ys\<close> of \<open>xs\<close> such that
  \<^item> whenever two elements of \<open>ys\<close> are tied under every comparator except the
    last and the last comparator puts the first before the second, the first
    stands before the second in \<open>ys\<close>;
  \<^item> the elements tied with any given \<open>x\<close> under every comparator occur in
    \<open>ys\<close> in the same order as in \<open>xs\<close>.
\<close>

theorem Sort_stable:
  assumes "ToSlice q = return xs" and "fs \<noteq> []" and "\<forall>f\<in>set fs. swo f"
  shows "\<exists>ys. ToSlice (Sort q fs) = return ys \<and> mset ys = mset xs
     \<and> (\<forall>i<length ys. \<forall>j<length ys.
           (\<forall>f\<in>set (butlast fs). tied f (ys ! i) (ys ! j)) \<and> last fs (ys ! i) (ys ! j) \<longrightarrow> i < j)
     \<and> (\<forall>x. filter (\<lambda>y. \<forall>f\<in>set fs. tied f x y) ys = filter (\<lambda>y. \<forall>f\<in>set fs. tied f x y) xs)"
proof -
  let ?lt = "less_chain fs"
  have lt: "swo ?lt" by (rule swo_less_chain[OF assms(2,3)])
  from by_Sort_stable_of[OF assms(2) lt, of xs] obtain ys
    where bs: "by_Sort fs xs = return ys" and st: "stable_of ?lt xs ys" by blast
  have out: "ToSlice (Sort q fs) = return ys"
    by (rule ToSlice_Sort[OF assms(1) bs])
  have perm: "mset ys = mset xs" by (rule stable_of_mset[OF lt st])
  from st have sorted: "sorted_wrt (\<lambda>a b. \<not> ?lt b a) ys"
    by (simp add: stable_of_def srt_def)
  have order: "i < j" if i: "i < length ys" and j: "j < length ys"
    and t: "\<forall>f\<in>set (butlast fs). tied f (ys ! i) (ys ! j)" and l: "last fs (ys ! i) (ys ! j)"
    for i j
  proof (rule ccontr)
    assume "\<not> i < j"
    then consider "i = j" | "j < i" by linarith
    then show False
    proof cases
      case 1
      from less_chain_last[OF assms(2) t] l have "?lt (ys ! i) (ys ! j)" by simp
      with 1 swo_asym[OF lt, of "ys ! i" "ys ! i"] show False by auto
    next
      case 2
      from less_chain_last[OF assms(2) t] l have "?lt (ys ! i) (ys ! j)" by simp
      moreover from sorted_wrt_nth_less[OF sorted 2 i] have "\<not> ?lt (ys ! i) (ys ! j)" .
      ultimately show False by simp
    qed
  qed
  have stable: "filter (\<lambda>y. \<forall>f\<in>set fs. tied f x y) ys = filter (\<lambda>y. \<forall>f\<in>set fs. tied f x y) xs"
    for x
  proof -
    have e: "(\<lambda>y. \<forall>f\<in>set fs. tied f x y) = (\<lambda>y. \<not> ?lt x y \<and> \<not> ?lt y x)"
      using less_chain_tied[OF assms(2), of x] by auto
    from st show ?thesis unfolding e by (simp add: stable_of_def)
  qed
  from out perm order stable show ?thesis by blast
qed

lemma swo_key: "swo (\<lambda>a b. (k a :: nat) < k b)"
  unfolding swo_def by auto

theorem Sort_stable_witness:
  "ToSlice (From [Some (2::nat, 1::nat), Some (1, 2), Some (1, 1)])
       = return [Some (2, 1), Some (1, 2), Some (1, 1)]
   \<and> [\<lambda>(a::(nat \<times> nat) T) b. fst (the a) < fst (the b), \<lambda>a b. snd (the a) < snd (the b)] \<noteq> []
   \<and> ToSlice (Sort (From [Some (2::nat, 1::nat), Some (1, 2), Some (1, 1)])
         [\<lambda>(a::(nat \<times> nat) T) b. fst (the a) < fst (the b), \<lambda>a b. snd (the a) < snd (the b)])
       = return [Some (1, 1), Some (1, 2), Some (2, 1)]
   \<and> mset [Some (1::nat, 1::nat), Some (1, 2), Some (2, 1)]
       = mset [Some (2, 1), Some (1, 2), Some (1, 1)]"
proof -
  let ?xs = "[Some (2::nat, 1::nat), Some (1, 2), Some (1, 1)]"
  let ?fs = "[\<lambda>(a::(nat \<times> nat) T) b. fst (the a) < fst (the b), \<lambda>a b. snd (the a) < snd (the b)]
             :: ((nat \<times> nat) T \<Rightarrow> (nat \<times> nat) T \<Rightarrow> bool) list"
  have a: "ToSlice (From ?xs) = return ?xs" by (rule ToSlice_From)
  have b: "?fs \<noteq> []" by simp
  have c: "\<forall>f\<in>set ?fs. swo f" by (simp add: swo_key)
  from Sort_stable[OF a b c] obtain ys where ys: "ToSlice (Sort (From ?xs) ?fs) = return ys"
    and m: "mset ys = mset ?xs" by blast
  have "by_Sort ?fs ?xs = return [Some (1, 1), Some (1, 2), Some (2, 1)]"
    by (simp add: by_Sort_short)
  from ToSlice_Sort[OF a this] ys have e: "ys = [Some (1, 1), Some (1, 2), Some (2, 1)]" by simp
  show ?thesis by (intro conjI a b ys[unfolded e] m[unfolded e])
qed

section \<open>The store embedding simulates the first one, and conversely\<close>

lemma same_outside_refl: "same_outside A \<sigma> \<sigma>"
  by (simp add: same_outside_def)

lemma same_outside_trans:
  "same_outside A \<sigma> \<sigma>1 \<Longrightarrow> same_outside A \<sigma>1 \<sigma>2 \<Longrightarrow> same_outside A \<sigma> \<sigma>2"
  by (simp add: same_outside_def)

lemma same_outside_mono: "same_outside A \<sigma> \<sigma>' \<Longrightarrow> A \<subseteq> B \<Longrightarrow> same_outside B \<sigma> \<sigma>'"
  unfolding same_outside_def by blast

lemma same_outside_upd:
  "p \<in> A \<Longrightarrow> same_outside A \<sigma> (\<sigma>\<lparr>st_ints := (st_ints \<sigma>)(p := v)\<rparr>)"
  "p \<in> A \<Longrightarrow> same_outside A \<sigma> (\<sigma>\<lparr>st_idxs := (st_idxs \<sigma>)(p := w)\<rparr>)"
  "p \<in> A \<Longrightarrow> same_outside A \<sigma> (\<sigma>\<lparr>st_exps := (st_exps \<sigma>)(p := x)\<rparr>)"
  "p \<in> A \<Longrightarrow> same_outside A \<sigma> (\<sigma>\<lparr>st_joins := (st_joins \<sigma>)(p := y)\<rparr>)"
  by (auto simp: same_outside_def)

lemma abs_cl_frame:
  "same_outside A \<sigma> \<sigma>' \<Longrightarrow> cells c \<inter> A = {} \<Longrightarrow> abs_cl \<sigma>' c = abs_cl \<sigma> c"
  by (induction c) (auto simp: same_outside_def)

lemma abs_cl_upd:
  "p \<notin> cells c \<Longrightarrow> abs_cl (\<sigma>\<lparr>st_ints := (st_ints \<sigma>)(p := v)\<rparr>) c = abs_cl \<sigma> c"
  "p \<notin> cells c \<Longrightarrow> abs_cl (\<sigma>\<lparr>st_idxs := (st_idxs \<sigma>)(p := w)\<rparr>) c = abs_cl \<sigma> c"
  "p \<notin> cells c \<Longrightarrow> abs_cl (\<sigma>\<lparr>st_exps := (st_exps \<sigma>)(p := x)\<rparr>) c = abs_cl \<sigma> c"
  "p \<notin> cells c \<Longrightarrow> abs_cl (\<sigma>\<lparr>st_joins := (st_joins \<sigma>)(p := y)\<rparr>) c = abs_cl \<sigma> c"
  by (induction c) auto

lemma sim_Panic [simp]: "sim c \<sigma> Panic rp \<longleftrightarrow> rp = Panic"
  by (simp add: sim_def)

lemma sim_Ok [simp]:
  "sim c \<sigma> (Ok ((e, ok), \<sigma>')) rp \<longleftrightarrow>
     rp = Ok ((e, ok), abs_cl \<sigma>' c) \<and> same_outside (cells c) \<sigma> \<sigma>'"
  by (simp add: sim_def)

lemma sim_trans:
  "same_outside (cells c) \<sigma> \<sigma>1 \<Longrightarrow> sim c \<sigma>1 rs rp \<Longrightarrow> sim c \<sigma> rs rp"
  by (cases rs) (auto intro: same_outside_trans)

lemma frame_step:
  assumes "same_outside (cells nxt) \<sigma> \<sigma>'" and "cells nxt \<subseteq> A" and "p \<in> A"
  shows "same_outside A \<sigma> (\<sigma>'\<lparr>st_ints := (st_ints \<sigma>')(p := v)\<rparr>)"
    and "same_outside A \<sigma> (\<sigma>'\<lparr>st_idxs := (st_idxs \<sigma>')(p := w)\<rparr>)"
    and "same_outside A \<sigma> (\<sigma>'\<lparr>st_exps := (st_exps \<sigma>')(p := x)\<rparr>)"
    and "same_outside A \<sigma> (\<sigma>'\<lparr>st_joins := (st_joins \<sigma>')(p := y)\<rparr>)"
  using assms unfolding same_outside_def by auto

lemma frame_keeps:
  assumes "same_outside (cells nxt) \<sigma> \<sigma>'" and "p \<notin> cells nxt"
  shows "st_ints \<sigma>' p = st_ints \<sigma> p" and "st_idxs \<sigma>' p = st_idxs \<sigma> p"
    and "st_exps \<sigma>' p = st_exps \<sigma> p" and "st_joins \<sigma>' p = st_joins \<sigma> p"
  using assms unfolding same_outside_def by auto

lemma frame_up:
  "same_outside (cells nxt) \<sigma> \<sigma>' \<Longrightarrow> same_outside (insert p (cells nxt)) \<sigma> \<sigma>'"
  by (rule same_outside_mono) auto

lemma join_emit_sim:
  assumes "join_emit_st resultSel ps \<sigma> = Some rs" and "ps \<notin> cells nxt"
  shows "\<exists>rp. join_emit (abs_cl \<sigma> nxt) lut oks resultSel (st_joins \<sigma> ps) = Some rp
            \<and> sim (join_cl nxt lut oks resultSel ps) \<sigma> rs rp"
  using assms
  by (auto simp: join_emit_st_def join_emit_def Let_def abs_cl_upd same_outside_upd
      split: if_splits)

lemma next_st_sim:
  assumes "next_st c \<sigma> = Some rs"
  shows "wf_cl c \<longrightarrow> (\<exists>rp. next_it (abs_cl \<sigma> c) = Some rp \<and> sim c \<sigma> rs rp)"
proof (rule next_st.raw_induct[where P = "\<lambda>c \<sigma> rs.
         wf_cl c \<longrightarrow> (\<exists>rp. next_it (abs_cl \<sigma> c) = Some rp \<and> sim c \<sigma> rs rp)", OF _ assms],
       goal_cases)
  case (1 nx c \<sigma> rs)
  note IH = 1(1) and body = 1(2)
  show ?case
  proof (intro impI, cases c)
    case (from_cl pa pi)
    with body show "\<exists>rp. next_it (abs_cl \<sigma> c) = Some rp \<and> sim c \<sigma> rs rp"
      by (auto simp: next_from same_outside_upd same_outside_refl split: if_splits)
  next
    case (where_cl nxt f)
    assume wf: "wf_cl c"
    with where_cl have wfn: "wf_cl nxt" by simp
    from body where_cl consider "nx nxt \<sigma> = panic" "rs = Panic"
      | e ok \<sigma>' where "nx nxt \<sigma> = return ((e, ok), \<sigma>')"
          "(if ok then (if all_pass f e then return ((e, True), \<sigma>')
              else nx (where_cl nxt f) \<sigma>')
           else return ((e, False), \<sigma>')) = Some rs"
      by (auto simp: bind_res_eq_Some)
    then show "\<exists>rp. next_it (abs_cl \<sigma> c) = Some rp \<and> sim c \<sigma> rs rp"
    proof cases
      case 1
      from IH[OF 1(1)] wfn have "next_it (abs_cl \<sigma> nxt) = panic" by simp
      with 1 where_cl show ?thesis by (simp add: next_where)
    next
      case 2
      from IH[OF 2(1)] wfn have up: "next_it (abs_cl \<sigma> nxt) = return ((e, ok), abs_cl \<sigma>' nxt)"
        and fr: "same_outside (cells nxt) \<sigma> \<sigma>'" by auto
      show ?thesis
      proof (cases "ok \<and> \<not> all_pass f e")
        case True
        with 2(2) have "nx (where_cl nxt f) \<sigma>' = Some rs" by simp
        from IH[OF this] wfn obtain rp
          where rp: "next_it (where_it (abs_cl \<sigma>' nxt) f) = Some rp"
            and s: "sim (where_cl nxt f) \<sigma>' rs rp" by auto
        from up True rp have "next_it (where_it (abs_cl \<sigma> nxt) f) = Some rp"
          by (simp add: next_where[of "abs_cl \<sigma> nxt"])
        moreover from sim_trans[OF _ s] fr have "sim (where_cl nxt f) \<sigma> rs rp" by simp
        ultimately show ?thesis using where_cl by auto
      next
        case False
        with 2(2) up fr where_cl show ?thesis
          by (auto simp: next_where[of "abs_cl \<sigma> nxt"] split: if_splits)
      qed
    qed
  next
    case (mapTo_cl nxt f)
    assume wf: "wf_cl c"
    with mapTo_cl have wfn: "wf_cl nxt" by simp
    from body mapTo_cl consider "nx nxt \<sigma> = panic" "rs = Panic"
      | e ok \<sigma>' where "nx nxt \<sigma> = return ((e, ok), \<sigma>')"
          "(if ok then
             (case e of None \<Rightarrow> panic
              | Some _ \<Rightarrow> return ((f e, ok), \<sigma>'))
           else return ((e, ok), \<sigma>')) = Some rs"
      by (auto simp: bind_res_eq_Some)
    then show "\<exists>rp. next_it (abs_cl \<sigma> c) = Some rp \<and> sim c \<sigma> rs rp"
    proof cases
      case 1
      from IH[OF 1(1)] wfn have "next_it (abs_cl \<sigma> nxt) = panic" by simp
      with 1 mapTo_cl show ?thesis by (simp add: next_mapTo)
    next
      case 2
      from IH[OF 2(1)] wfn have up: "next_it (abs_cl \<sigma> nxt) = return ((e, ok), abs_cl \<sigma>' nxt)"
        and fr: "same_outside (cells nxt) \<sigma> \<sigma>'" by auto
      with 2(2) mapTo_cl show ?thesis
        by (auto simp: next_mapTo[of "abs_cl \<sigma> nxt"] split: if_splits option.splits)
    qed
  next
    case (expand_cl nxt f ps)
    assume wf: "wf_cl c"
    with expand_cl have wfn: "wf_cl nxt" and ps: "ps \<notin> cells nxt" by simp_all
    let ?s = "st_exps \<sigma> ps"
    show "\<exists>rp. next_it (abs_cl \<sigma> c) = Some rp \<and> sim c \<sigma> rs rp"
    proof (cases "exp_len ?s \<le> exp_i ?s")
      case ge: True
      with body expand_cl consider "nx nxt \<sigma> = panic" "rs = Panic"
        | e ok \<sigma>' where "nx nxt \<sigma> = return ((e, ok), \<sigma>')"
          "(if \<not> ok then return ((None, False),
                 \<sigma>'\<lparr>st_exps := (st_exps \<sigma>')(ps := (st_exps \<sigma>' ps)\<lparr>exp_outer := e\<rparr>)\<rparr>)
              else nx (expand_cl nxt f ps)
                 (\<sigma>'\<lparr>st_exps := (st_exps \<sigma>')(ps := (st_exps \<sigma>' ps)
                     \<lparr>exp_outer := e, exp_inner := f e,
                      exp_len := length (f e), exp_i := 0\<rparr>)\<rparr>)) = Some rs"
        by (auto simp: bind_res_eq_Some)
      then show ?thesis
      proof cases
        case 1
        from IH[OF 1(1)] wfn have "next_it (abs_cl \<sigma> nxt) = panic" by simp
        with 1 expand_cl ge show ?thesis by (simp add: next_expand)
      next
        case 2
        from IH[OF 2(1)] wfn have up: "next_it (abs_cl \<sigma> nxt) = return ((e, ok), abs_cl \<sigma>' nxt)"
          and fr: "same_outside (cells nxt) \<sigma> \<sigma>'" by auto
        from frame_keeps(3)[OF fr ps] have keep: "st_exps \<sigma>' ps = ?s" .
        show ?thesis
        proof (cases ok)
          case True
          let ?\<sigma>'' = "\<sigma>'\<lparr>st_exps := (st_exps \<sigma>')(ps := (st_exps \<sigma>' ps)
                     \<lparr>exp_outer := e, exp_inner := f e,
                      exp_len := length (f e), exp_i := 0\<rparr>)\<rparr>"
          from True 2(2) have "nx (expand_cl nxt f ps) ?\<sigma>'' = Some rs" by simp
          from IH[OF this] wfn ps obtain rp
            where rp: "next_it (abs_cl ?\<sigma>'' (expand_cl nxt f ps)) = Some rp"
              and s: "sim (expand_cl nxt f ps) ?\<sigma>'' rs rp" by auto
          have fr2: "same_outside (cells (expand_cl nxt f ps)) \<sigma> ?\<sigma>''"
            by (rule frame_step(3)[OF fr]) auto
          from up True rp ge keep ps
          have "next_it (expand_it (abs_cl \<sigma> nxt) f ?s) = Some rp"
            by (simp add: next_expand[of "abs_cl \<sigma> nxt"] abs_cl_upd)
          with sim_trans[OF fr2 s] expand_cl show ?thesis by auto
        next
          case False
          let ?\<sigma>'' = "\<sigma>'\<lparr>st_exps := (st_exps \<sigma>')(ps := (st_exps \<sigma>' ps)\<lparr>exp_outer := e\<rparr>)\<rparr>"
          have fr2: "same_outside (cells (expand_cl nxt f ps)) \<sigma> ?\<sigma>''"
            by (rule frame_step(3)[OF fr]) auto
          from False 2(2) have rs: "rs = Ok ((None, False), ?\<sigma>'')" by simp
          from up False ge keep ps fr2 show ?thesis unfolding rs expand_cl
            by (simp add: next_expand[of "abs_cl \<sigma> nxt"] abs_cl_upd)
        qed
      qed
    next
      case False
      with body expand_cl ps show ?thesis
        by (auto simp: next_expand abs_cl_upd same_outside_upd split: if_splits)
    qed
  next
    case (join_cl nxt lut oks rsel ps)
    assume wf: "wf_cl c"
    with join_cl have wfn: "wf_cl nxt" and ps: "ps \<notin> cells nxt" by simp_all
    let ?s = "st_joins \<sigma> ps"
    show "\<exists>rp. next_it (abs_cl \<sigma> c) = Some rp \<and> sim c \<sigma> rs rp"
    proof (cases "join_len ?s \<le> join_i ?s")
      case ge: True
      with body join_cl consider "nx nxt \<sigma> = panic" "rs = Panic"
        | e ok \<sigma>' where "nx nxt \<sigma> = return ((e, ok), \<sigma>')"
          "(if \<not> ok then return ((None, False),
                 \<sigma>'\<lparr>st_joins := (st_joins \<sigma>')(ps := (st_joins \<sigma>' ps)\<lparr>join_outer := e\<rparr>)\<rparr>)
              else (case lut_index lut (oks e) of
                  Panic \<Rightarrow> panic
                | Ok None \<Rightarrow> nx (join_cl nxt lut oks rsel ps)
                     (\<sigma>'\<lparr>st_joins := (st_joins \<sigma>')(ps := (st_joins \<sigma>' ps)
                        \<lparr>join_outer := e, join_inner := [], join_len := 0, join_i := 0\<rparr>)\<rparr>)
                | Ok (Some g) \<Rightarrow> join_emit_st rsel ps
                     (\<sigma>'\<lparr>st_joins := (st_joins \<sigma>')(ps := (st_joins \<sigma>' ps)
                        \<lparr>join_outer := e, join_inner := g, join_len := length g, join_i := 0\<rparr>)\<rparr>))) = Some rs"
        by (auto simp: bind_res_eq_Some)
      then show ?thesis
      proof cases
        case 1
        from IH[OF 1(1)] wfn have "next_it (abs_cl \<sigma> nxt) = panic" by simp
        with 1 join_cl ge show ?thesis by (simp add: next_join)
      next
        case 2
        from IH[OF 2(1)] wfn have up: "next_it (abs_cl \<sigma> nxt) = return ((e, ok), abs_cl \<sigma>' nxt)"
          and fr: "same_outside (cells nxt) \<sigma> \<sigma>'" by auto
        from frame_keeps(4)[OF fr ps] have keep: "st_joins \<sigma>' ps = ?s" .
        show ?thesis
        proof (cases ok)
          case ok: True
          show ?thesis
          proof (cases rule: lut_index_cases[of lut "oks e"])
            case Panic
            from ok Panic 2(2) have rs: "rs = Panic" by simp
            from up ok Panic ge keep ps show ?thesis unfolding rs join_cl
              by (simp add: next_join[of "abs_cl \<sigma> nxt"] abs_cl_upd sim_def)
          next
            case None
            let ?\<sigma>'' = "\<sigma>'\<lparr>st_joins := (st_joins \<sigma>')(ps := (st_joins \<sigma>' ps)
                        \<lparr>join_outer := e, join_inner := [], join_len := 0, join_i := 0\<rparr>)\<rparr>"
            from ok None 2(2) have "nx (join_cl nxt lut oks rsel ps) ?\<sigma>'' = Some rs" by simp
            from IH[OF this] wfn ps obtain rp
              where rp: "next_it (abs_cl ?\<sigma>'' (join_cl nxt lut oks rsel ps)) = Some rp"
                and s: "sim (join_cl nxt lut oks rsel ps) ?\<sigma>'' rs rp" by auto
            have fr2: "same_outside (cells (join_cl nxt lut oks rsel ps)) \<sigma> ?\<sigma>''"
              by (rule frame_step(4)[OF fr]) auto
            from up ok None rp ge keep ps
            have "next_it (join_it (abs_cl \<sigma> nxt) lut oks rsel ?s) = Some rp"
              by (simp add: next_join[of "abs_cl \<sigma> nxt"] abs_cl_upd)
            with sim_trans[OF fr2 s] join_cl show ?thesis by auto
          next
            case (Some g)
            let ?\<sigma>'' = "\<sigma>'\<lparr>st_joins := (st_joins \<sigma>')(ps := (st_joins \<sigma>' ps)
                        \<lparr>join_outer := e, join_inner := g, join_len := length g, join_i := 0\<rparr>)\<rparr>"
            from ok Some 2(2) have "join_emit_st rsel ps ?\<sigma>'' = Some rs" by simp
            from join_emit_sim[OF this ps, of lut oks] obtain rp
              where rp: "join_emit (abs_cl ?\<sigma>'' nxt) lut oks rsel (st_joins ?\<sigma>'' ps) = Some rp"
                and s: "sim (join_cl nxt lut oks rsel ps) ?\<sigma>'' rs rp" by blast
            have fr2: "same_outside (cells (join_cl nxt lut oks rsel ps)) \<sigma> ?\<sigma>''"
              by (rule frame_step(4)[OF fr]) auto
            from up ok Some rp ge keep ps
            have "next_it (join_it (abs_cl \<sigma> nxt) lut oks rsel ?s) = Some rp"
              by (simp add: next_join[of "abs_cl \<sigma> nxt"] abs_cl_upd)
            with sim_trans[OF fr2 s] join_cl show ?thesis by auto
          qed
        next
          case False
          let ?\<sigma>'' = "\<sigma>'\<lparr>st_joins := (st_joins \<sigma>')(ps := (st_joins \<sigma>' ps)\<lparr>join_outer := e\<rparr>)\<rparr>"
          have fr2: "same_outside (cells (join_cl nxt lut oks rsel ps)) \<sigma> ?\<sigma>''"
            by (rule frame_step(4)[OF fr]) auto
          from False 2(2) have rs: "rs = Ok ((None, False), ?\<sigma>'')" by simp
          from up False ge keep ps fr2 show ?thesis unfolding rs join_cl
            by (simp add: next_join[of "abs_cl \<sigma> nxt"] abs_cl_upd)
        qed
      qed
    next
      case False
      with body join_cl have "join_emit_st rsel ps \<sigma> = Some rs" by simp
      from join_emit_sim[OF this ps, of lut oks] False join_cl show ?thesis
        by (auto simp: next_join)
    qed
  next
    case (skip_cl nxt pn)
    assume wf: "wf_cl c"
    with skip_cl have wfn: "wf_cl nxt" and pn: "pn \<notin> cells nxt" by simp_all
    let ?n = "st_ints \<sigma> pn"
    consider "?n < 0" | "?n > 0" | "?n = 0" by linarith
    then show "\<exists>rp. next_it (abs_cl \<sigma> c) = Some rp \<and> sim c \<sigma> rs rp"
    proof cases
      case 1
      with body skip_cl show ?thesis by (auto simp: next_skip same_outside_refl)
    next
      case pos: 2
      with body skip_cl consider "nx nxt \<sigma> = panic" "rs = Panic"
        | e ok \<sigma>' where "nx nxt \<sigma> = return ((e, ok), \<sigma>')"
          "(if \<not> ok then return ((None, False), \<sigma>')
              else nx (skip_cl nxt pn)
                     (\<sigma>'\<lparr>st_ints := (st_ints \<sigma>')(pn := st_ints \<sigma>' pn - 1)\<rparr>)) = Some rs"
        by (auto simp: bind_res_eq_Some)
      then show ?thesis
      proof cases
        case 1
        from IH[OF 1(1)] wfn have "next_it (abs_cl \<sigma> nxt) = panic" by simp
        with 1 skip_cl pos show ?thesis by (simp add: next_skip)
      next
        case 2
        from IH[OF 2(1)] wfn have up: "next_it (abs_cl \<sigma> nxt) = return ((e, ok), abs_cl \<sigma>' nxt)"
          and fr: "same_outside (cells nxt) \<sigma> \<sigma>'" by auto
        from frame_keeps(1)[OF fr pn] have keep: "st_ints \<sigma>' pn = ?n" .
        show ?thesis
        proof (cases ok)
          case True
          let ?\<sigma>'' = "\<sigma>'\<lparr>st_ints := (st_ints \<sigma>')(pn := st_ints \<sigma>' pn - 1)\<rparr>"
          from True 2(2) have "nx (skip_cl nxt pn) ?\<sigma>'' = Some rs" by simp
          from IH[OF this] wfn pn obtain rp
            where rp: "next_it (abs_cl ?\<sigma>'' (skip_cl nxt pn)) = Some rp"
              and s: "sim (skip_cl nxt pn) ?\<sigma>'' rs rp" by auto
          have fr2: "same_outside (cells (skip_cl nxt pn)) \<sigma> ?\<sigma>''"
            by (rule frame_step(1)[OF fr]) auto
          from up True rp pos keep pn
          have "next_it (skip_it (abs_cl \<sigma> nxt) ?n) = Some rp"
            by (simp add: next_skip[of "abs_cl \<sigma> nxt"] abs_cl_upd)
          with sim_trans[OF fr2 s] skip_cl show ?thesis by auto
        next
          case False
          from False 2(2) have rs: "rs = Ok ((None, False), \<sigma>')" by simp
          from up False pos keep pn frame_up[OF fr, of pn] show ?thesis unfolding rs skip_cl
            by (simp add: next_skip[of "abs_cl \<sigma> nxt"])
        qed
      qed
    next
      case zero: 3
      with body skip_cl have "nx nxt \<sigma> = Some rs" by simp
      from IH[OF this] wfn obtain rp1 where rp1: "next_it (abs_cl \<sigma> nxt) = Some rp1"
        and s1: "sim nxt \<sigma> rs rp1" by auto
      show ?thesis
      proof (cases rs)
        case Panic
        with s1 rp1 zero skip_cl show ?thesis by (simp add: next_skip)
      next
        case (Ok x)
        then obtain e ok \<sigma>' where x: "rs = Ok ((e, ok), \<sigma>')" by (cases x) auto
        with s1 have r: "rp1 = Ok ((e, ok), abs_cl \<sigma>' nxt)"
          and fr: "same_outside (cells nxt) \<sigma> \<sigma>'" by auto
        from frame_keeps(1)[OF fr pn] have keep: "st_ints \<sigma>' pn = ?n" .
        from rp1 r zero keep frame_up[OF fr, of pn] show ?thesis unfolding x skip_cl
          by (simp add: next_skip[of "abs_cl \<sigma> nxt"])
      qed
    qed
  next
    case (take_cl nxt pn)
    assume wf: "wf_cl c"
    with take_cl have wfn: "wf_cl nxt" and pn: "pn \<notin> cells nxt" by simp_all
    let ?n = "st_ints \<sigma> pn"
    show "\<exists>rp. next_it (abs_cl \<sigma> c) = Some rp \<and> sim c \<sigma> rs rp"
    proof (cases "?n \<le> 0")
      case True
      with body take_cl show ?thesis by (auto simp: next_take same_outside_refl)
    next
      case pos: False
      let ?\<sigma>0 = "\<sigma>\<lparr>st_ints := (st_ints \<sigma>)(pn := ?n - 1)\<rparr>"
      from pos body take_cl have "nx nxt ?\<sigma>0 = Some rs" by simp
      from IH[OF this] wfn pn obtain rp1 where rp1: "next_it (abs_cl \<sigma> nxt) = Some rp1"
        and s1: "sim nxt ?\<sigma>0 rs rp1" by (auto simp: abs_cl_upd)
      show ?thesis
      proof (cases rs)
        case Panic
        with s1 rp1 pos take_cl show ?thesis by (simp add: next_take)
      next
        case (Ok x)
        then obtain e ok \<sigma>' where x: "rs = Ok ((e, ok), \<sigma>')" by (cases x) auto
        with s1 have r: "rp1 = Ok ((e, ok), abs_cl \<sigma>' nxt)"
          and fr: "same_outside (cells nxt) ?\<sigma>0 \<sigma>'" by auto
        from frame_keeps(1)[OF fr pn] have keep: "st_ints \<sigma>' pn = ?n - 1" by simp
        have "same_outside (insert pn (cells nxt)) \<sigma> ?\<sigma>0"
          by (rule same_outside_upd) simp
        from same_outside_trans[OF this frame_up[OF fr, of pn]]
        have fr2: "same_outside (insert pn (cells nxt)) \<sigma> \<sigma>'" .
        from rp1 r pos keep fr2 show ?thesis unfolding x take_cl
          by (simp add: next_take[of "abs_cl \<sigma> nxt"])
      qed
    qed
  next
    case (sortBy_cl pa pi)
    with body show "\<exists>rp. next_it (abs_cl \<sigma> c) = Some rp \<and> sim c \<sigma> rs rp"
      by (auto simp: next_sortBy same_outside_upd same_outside_refl split: if_splits)
  qed
qed

lemma next_st_from:
  "next_st (from_cl pa pi) \<sigma> =
         (if st_idxs \<sigma> pi < length (st_slices \<sigma> pa)
          then return ((st_slices \<sigma> pa ! st_idxs \<sigma> pi, True),
                       \<sigma>\<lparr>st_idxs := (st_idxs \<sigma>)(pi := st_idxs \<sigma> pi + 1)\<rparr>)
          else return ((None, False), \<sigma>))"
  by (subst next_st.simps) simp

lemma next_st_sortBy:
  "next_st (sortBy_cl pa pi) \<sigma> =
         (if st_idxs \<sigma> pi < length (st_slices \<sigma> pa)
          then return ((st_slices \<sigma> pa ! st_idxs \<sigma> pi, True),
                       \<sigma>\<lparr>st_idxs := (st_idxs \<sigma>)(pi := st_idxs \<sigma> pi + 1)\<rparr>)
          else return ((None, False), \<sigma>))"
  by (subst next_st.simps) simp

lemma next_st_where:
  "next_st (where_cl nxt f) \<sigma> =
         bind_res (next_st nxt \<sigma>) (\<lambda>((elem, ok), \<sigma>').
           if ok then
             (if all_pass f elem then return ((elem, True), \<sigma>')
              else next_st (where_cl nxt f) \<sigma>')
           else return ((elem, False), \<sigma>'))"
  by (subst next_st.simps) simp

lemma next_st_mapTo:
  "next_st (mapTo_cl nxt f) \<sigma> =
         bind_res (next_st nxt \<sigma>) (\<lambda>((elem, ok), \<sigma>').
           if ok then
             (case elem of None \<Rightarrow> panic
              | Some _ \<Rightarrow> return ((f elem, ok), \<sigma>'))
           else return ((elem, ok), \<sigma>'))"
  by (subst next_st.simps) simp

lemma next_st_expand:
  "next_st (expand_cl nxt f ps) \<sigma> =
         (if exp_i (st_exps \<sigma> ps) \<ge> exp_len (st_exps \<sigma> ps) then
            bind_res (next_st nxt \<sigma>) (\<lambda>((outer, ok), \<sigma>').
              if \<not> ok then return ((None, False),
                 \<sigma>'\<lparr>st_exps := (st_exps \<sigma>')(ps := (st_exps \<sigma>' ps)\<lparr>exp_outer := outer\<rparr>)\<rparr>)
              else next_st (expand_cl nxt f ps)
                 (\<sigma>'\<lparr>st_exps := (st_exps \<sigma>')(ps := (st_exps \<sigma>' ps)
                     \<lparr>exp_outer := outer, exp_inner := f outer,
                      exp_len := length (f outer), exp_i := 0\<rparr>)\<rparr>))
          else if exp_i (st_exps \<sigma> ps) < length (exp_inner (st_exps \<sigma> ps))
          then return ((exp_inner (st_exps \<sigma> ps) ! exp_i (st_exps \<sigma> ps), True),
                 \<sigma>\<lparr>st_exps := (st_exps \<sigma>)(ps := (st_exps \<sigma> ps)
                     \<lparr>exp_i := exp_i (st_exps \<sigma> ps) + 1\<rparr>)\<rparr>)
          else panic)"
  by (subst next_st.simps) simp

lemma next_st_join:
  "next_st (join_cl nxt lut outKeySel resultSel ps) \<sigma> =
         (if join_i (st_joins \<sigma> ps) \<ge> join_len (st_joins \<sigma> ps) then
            bind_res (next_st nxt \<sigma>) (\<lambda>((outer, ok), \<sigma>').
              if \<not> ok then return ((None, False),
                 \<sigma>'\<lparr>st_joins := (st_joins \<sigma>')(ps := (st_joins \<sigma>' ps)\<lparr>join_outer := outer\<rparr>)\<rparr>)
              else (case lut_index lut (outKeySel outer) of
                  Panic \<Rightarrow> panic
                | Ok None \<Rightarrow> next_st (join_cl nxt lut outKeySel resultSel ps)
                     (\<sigma>'\<lparr>st_joins := (st_joins \<sigma>')(ps := (st_joins \<sigma>' ps)
                        \<lparr>join_outer := outer, join_inner := [], join_len := 0, join_i := 0\<rparr>)\<rparr>)
                | Ok (Some g) \<Rightarrow> join_emit_st resultSel ps
                     (\<sigma>'\<lparr>st_joins := (st_joins \<sigma>')(ps := (st_joins \<sigma>' ps)
                        \<lparr>join_outer := outer, join_inner := g, join_len := length g, join_i := 0\<rparr>)\<rparr>)))
          else join_emit_st resultSel ps \<sigma>)"
  by (subst next_st.simps) simp

lemma next_st_skip:
  "next_st (skip_cl nxt pn) \<sigma> =
         (if st_ints \<sigma> pn < 0 then return ((None, False), \<sigma>)
          else if st_ints \<sigma> pn > 0 then
            bind_res (next_st nxt \<sigma>) (\<lambda>((_, ok), \<sigma>').
              if \<not> ok then return ((None, False), \<sigma>')
              else next_st (skip_cl nxt pn)
                     (\<sigma>'\<lparr>st_ints := (st_ints \<sigma>')(pn := st_ints \<sigma>' pn - 1)\<rparr>))
          else next_st nxt \<sigma>)"
  by (subst next_st.simps) simp

lemma next_st_take:
  "next_st (take_cl nxt pn) \<sigma> =
         (if st_ints \<sigma> pn \<le> 0 then return ((None, False), \<sigma>)
          else next_st nxt (\<sigma>\<lparr>st_ints := (st_ints \<sigma>)(pn := st_ints \<sigma> pn - 1)\<rparr>))"
  by (subst next_st.simps) simp

lemma sim_PanicD: "sim c \<sigma> rs Panic \<Longrightarrow> rs = Panic"
  by (cases rs) (auto simp: sim_def)

lemma sim_OkD:
  "sim c \<sigma> rs (Ok ((e, ok), it')) \<Longrightarrow>
     \<exists>\<sigma>'. rs = Ok ((e, ok), \<sigma>') \<and> it' = abs_cl \<sigma>' c \<and> same_outside (cells c) \<sigma> \<sigma>'"
  by (cases rs) (auto simp: sim_def)

lemma join_emit_sim':
  assumes "join_emit (abs_cl \<sigma> nxt) lut oks resultSel (st_joins \<sigma> ps) = Some rp"
    and "ps \<notin> cells nxt"
  shows "\<exists>rs. join_emit_st resultSel ps \<sigma> = Some rs
            \<and> sim (join_cl nxt lut oks resultSel ps) \<sigma> rs rp"
  using assms
  by (auto simp: join_emit_st_def join_emit_def Let_def abs_cl_upd same_outside_upd
      split: if_splits)

lemma next_it_sim:
  assumes "next_it it = Some rp"
  shows "\<forall>c \<sigma>. wf_cl c \<and> abs_cl \<sigma> c = it \<longrightarrow> (\<exists>rs. next_st c \<sigma> = Some rs \<and> sim c \<sigma> rs rp)"
proof (rule next_it.raw_induct[where P = "\<lambda>it rp.
         \<forall>c \<sigma>. wf_cl c \<and> abs_cl \<sigma> c = it \<longrightarrow> (\<exists>rs. next_st c \<sigma> = Some rs \<and> sim c \<sigma> rs rp)",
         OF _ assms], goal_cases)
  case (1 nx it rp)
  note IH = 1(1)[rule_format, OF _ conjI] and body = 1(2)
  show ?case
  proof (intro allI impI, elim conjE)
    fix c :: "'a closure" and \<sigma>
    assume wf: "wf_cl c" and ab: "abs_cl \<sigma> c = it"
    show "\<exists>rs. next_st c \<sigma> = Some rs \<and> sim c \<sigma> rs rp"
    proof (cases c)
      case (from_cl pa pi)
      with body ab show ?thesis
        by (auto simp: next_st_from same_outside_upd same_outside_refl split: if_splits)
    next
      case (where_cl nxt f)
      with wf have wfn: "wf_cl nxt" by simp
      from body ab where_cl consider "nx (abs_cl \<sigma> nxt) = panic" "rp = Panic"
        | e ok nxt' where "nx (abs_cl \<sigma> nxt) = return ((e, ok), nxt')"
            "(if ok then (if all_pass f e then return ((e, True), where_it nxt' f)
                else nx (where_it nxt' f))
             else return ((e, False), where_it nxt' f)) = Some rp"
        by (auto simp: bind_res_eq_Some)
      then show ?thesis
      proof cases
        case 1
        from IH[OF 1(1) wfn refl] have "next_st nxt \<sigma> = panic" by (auto dest: sim_PanicD)
        with 1 where_cl show ?thesis by (simp add: next_st_where)
      next
        case 2
        from IH[OF 2(1) wfn refl] obtain \<sigma>' where up: "next_st nxt \<sigma> = return ((e, ok), \<sigma>')"
          and nxt': "nxt' = abs_cl \<sigma>' nxt" and fr: "same_outside (cells nxt) \<sigma> \<sigma>'"
          by (auto dest: sim_OkD)
        show ?thesis
        proof (cases "ok \<and> \<not> all_pass f e")
          case True
          with 2(2) have "nx (where_it nxt' f) = Some rp" by simp
          from IH[OF this, of "where_cl nxt f" \<sigma>'] wfn nxt' obtain rs
            where rs: "next_st (where_cl nxt f) \<sigma>' = Some rs"
              and s: "sim (where_cl nxt f) \<sigma>' rs rp" by auto
          from up True rs have "next_st (where_cl nxt f) \<sigma> = Some rs"
            by (simp add: next_st_where[of nxt f \<sigma>])
          moreover from sim_trans[OF _ s] fr have "sim (where_cl nxt f) \<sigma> rs rp" by simp
          ultimately show ?thesis using where_cl by auto
        next
          case False
          with 2(2) up fr nxt' where_cl show ?thesis
            by (auto simp: next_st_where[of nxt f \<sigma>] split: if_splits)
        qed
      qed
    next
      case (mapTo_cl nxt f)
      with wf have wfn: "wf_cl nxt" by simp
      from body ab mapTo_cl consider "nx (abs_cl \<sigma> nxt) = panic" "rp = Panic"
        | e ok nxt' where "nx (abs_cl \<sigma> nxt) = return ((e, ok), nxt')"
            "(if ok then
               (case e of None \<Rightarrow> panic
                | Some _ \<Rightarrow> return ((f e, ok), mapTo_it nxt' f))
             else return ((e, ok), mapTo_it nxt' f)) = Some rp"
        by (auto simp: bind_res_eq_Some)
      then show ?thesis
      proof cases
        case 1
        from IH[OF 1(1) wfn refl] have "next_st nxt \<sigma> = panic" by (auto dest: sim_PanicD)
        with 1 mapTo_cl show ?thesis by (simp add: next_st_mapTo)
      next
        case 2
        from IH[OF 2(1) wfn refl] obtain \<sigma>' where up: "next_st nxt \<sigma> = return ((e, ok), \<sigma>')"
          and nxt': "nxt' = abs_cl \<sigma>' nxt" and fr: "same_outside (cells nxt) \<sigma> \<sigma>'"
          by (auto dest: sim_OkD)
        with 2(2) mapTo_cl show ?thesis
          by (auto simp: next_st_mapTo[of nxt f \<sigma>] split: if_splits option.splits)
      qed
    next
      case (expand_cl nxt f ps)
      with wf have wfn: "wf_cl nxt" and ps: "ps \<notin> cells nxt" by simp_all
      let ?s = "st_exps \<sigma> ps"
      show ?thesis
      proof (cases "exp_len ?s \<le> exp_i ?s")
        case ge: True
        with body ab expand_cl consider "nx (abs_cl \<sigma> nxt) = panic" "rp = Panic"
          | e ok nxt' where "nx (abs_cl \<sigma> nxt) = return ((e, ok), nxt')"
            "(if \<not> ok then return ((None, False), expand_it nxt' f (?s\<lparr>exp_outer := e\<rparr>))
              else nx (expand_it nxt' f
                     (?s\<lparr>exp_outer := e, exp_inner := f e,
                        exp_len := length (f e), exp_i := 0\<rparr>))) = Some rp"
          by (auto simp: bind_res_eq_Some)
        then show ?thesis
        proof cases
          case 1
          from IH[OF 1(1) wfn refl] have "next_st nxt \<sigma> = panic" by (auto dest: sim_PanicD)
          with 1 expand_cl ge show ?thesis by (simp add: next_st_expand)
        next
          case 2
          from IH[OF 2(1) wfn refl] obtain \<sigma>' where up: "next_st nxt \<sigma> = return ((e, ok), \<sigma>')"
            and nxt': "nxt' = abs_cl \<sigma>' nxt" and fr: "same_outside (cells nxt) \<sigma> \<sigma>'"
            by (auto dest: sim_OkD)
          from frame_keeps(3)[OF fr ps] have keep: "st_exps \<sigma>' ps = ?s" .
          show ?thesis
          proof (cases ok)
            case True
            let ?\<sigma>'' = "\<sigma>'\<lparr>st_exps := (st_exps \<sigma>')(ps := (st_exps \<sigma>' ps)
                     \<lparr>exp_outer := e, exp_inner := f e,
                      exp_len := length (f e), exp_i := 0\<rparr>)\<rparr>"
            from True 2(2) have "nx (expand_it nxt' f
                     (?s\<lparr>exp_outer := e, exp_inner := f e,
                        exp_len := length (f e), exp_i := 0\<rparr>)) = Some rp" by simp
            from IH[OF this, of "expand_cl nxt f ps" ?\<sigma>''] wfn ps nxt' keep obtain rs
              where rs: "next_st (expand_cl nxt f ps) ?\<sigma>'' = Some rs"
                and s: "sim (expand_cl nxt f ps) ?\<sigma>'' rs rp" by (auto simp: abs_cl_upd)
            have fr2: "same_outside (cells (expand_cl nxt f ps)) \<sigma> ?\<sigma>''"
              by (rule frame_step(3)[OF fr]) auto
            from up True rs ge
            have "next_st (expand_cl nxt f ps) \<sigma> = Some rs"
              by (simp add: next_st_expand[of nxt f ps \<sigma>])
            with sim_trans[OF fr2 s] expand_cl show ?thesis by auto
          next
            case False
            let ?\<sigma>'' = "\<sigma>'\<lparr>st_exps := (st_exps \<sigma>')(ps := (st_exps \<sigma>' ps)\<lparr>exp_outer := e\<rparr>)\<rparr>"
            have fr2: "same_outside (cells (expand_cl nxt f ps)) \<sigma> ?\<sigma>''"
              by (rule frame_step(3)[OF fr]) auto
            from False 2(2) have rp: "rp = Ok ((None, False), expand_it nxt' f (?s\<lparr>exp_outer := e\<rparr>))"
              by simp
            from up False ge keep ps fr2 nxt' show ?thesis unfolding rp expand_cl
              by (simp add: next_st_expand[of nxt f ps \<sigma>] abs_cl_upd)
          qed
        qed
      next
        case False
        with body ab expand_cl ps show ?thesis
          by (auto simp: next_st_expand abs_cl_upd same_outside_upd split: if_splits)
      qed
    next
      case (join_cl nxt lut oks rsel ps)
      with wf have wfn: "wf_cl nxt" and ps: "ps \<notin> cells nxt" by simp_all
      let ?s = "st_joins \<sigma> ps"
      show ?thesis
      proof (cases "join_len ?s \<le> join_i ?s")
        case ge: True
        with body ab join_cl consider "nx (abs_cl \<sigma> nxt) = panic" "rp = Panic"
          | e ok nxt' where "nx (abs_cl \<sigma> nxt) = return ((e, ok), nxt')"
            "(if \<not> ok then return ((None, False),
                 join_it nxt' lut oks rsel (?s\<lparr>join_outer := e\<rparr>))
              else (case lut_index lut (oks e) of
                  Panic \<Rightarrow> panic
                | Ok None \<Rightarrow> nx (join_it nxt' lut oks rsel
                     (?s\<lparr>join_outer := e, join_inner := [], join_len := 0, join_i := 0\<rparr>))
                | Ok (Some g) \<Rightarrow> join_emit nxt' lut oks rsel
                     (?s\<lparr>join_outer := e, join_inner := g, join_len := length g, join_i := 0\<rparr>))) = Some rp"
          by (auto simp: bind_res_eq_Some)
        then show ?thesis
        proof cases
          case 1
          from IH[OF 1(1) wfn refl] have "next_st nxt \<sigma> = panic" by (auto dest: sim_PanicD)
          with 1 join_cl ge show ?thesis by (simp add: next_st_join)
        next
          case 2
          from IH[OF 2(1) wfn refl] obtain \<sigma>' where up: "next_st nxt \<sigma> = return ((e, ok), \<sigma>')"
            and nxt': "nxt' = abs_cl \<sigma>' nxt" and fr: "same_outside (cells nxt) \<sigma> \<sigma>'"
            by (auto dest: sim_OkD)
          from frame_keeps(4)[OF fr ps] have keep: "st_joins \<sigma>' ps = ?s" .
          show ?thesis
          proof (cases ok)
            case ok: True
            show ?thesis
            proof (cases rule: lut_index_cases[of lut "oks e"])
              case Panic
              from ok Panic 2(2) have rp: "rp = Panic" by simp
              from up ok Panic ge show ?thesis unfolding rp join_cl
                by (simp add: next_st_join[of nxt lut oks rsel ps \<sigma>] sim_def)
            next
              case None
              let ?\<sigma>'' = "\<sigma>'\<lparr>st_joins := (st_joins \<sigma>')(ps := (st_joins \<sigma>' ps)
                        \<lparr>join_outer := e, join_inner := [], join_len := 0, join_i := 0\<rparr>)\<rparr>"
              from ok None 2(2) have "nx (join_it nxt' lut oks rsel
                     (?s\<lparr>join_outer := e, join_inner := [], join_len := 0, join_i := 0\<rparr>)) = Some rp"
                by simp
              from IH[OF this, of "join_cl nxt lut oks rsel ps" ?\<sigma>''] wfn ps nxt' keep obtain rs
                where rs: "next_st (join_cl nxt lut oks rsel ps) ?\<sigma>'' = Some rs"
                  and s: "sim (join_cl nxt lut oks rsel ps) ?\<sigma>'' rs rp" by (auto simp: abs_cl_upd)
              have fr2: "same_outside (cells (join_cl nxt lut oks rsel ps)) \<sigma> ?\<sigma>''"
                by (rule frame_step(4)[OF fr]) auto
              from up ok None rs ge
              have "next_st (join_cl nxt lut oks rsel ps) \<sigma> = Some rs"
                by (simp add: next_st_join[of nxt lut oks rsel ps \<sigma>])
              with sim_trans[OF fr2 s] join_cl show ?thesis by auto
            next
              case (Some g)
              let ?\<sigma>'' = "\<sigma>'\<lparr>st_joins := (st_joins \<sigma>')(ps := (st_joins \<sigma>' ps)
                        \<lparr>join_outer := e, join_inner := g, join_len := length g, join_i := 0\<rparr>)\<rparr>"
              from ok Some 2(2) nxt' keep ps
              have "join_emit (abs_cl ?\<sigma>'' nxt) lut oks rsel (st_joins ?\<sigma>'' ps) = Some rp"
                by (simp add: abs_cl_upd)
              from join_emit_sim'[OF this ps] obtain rs
                where rs: "join_emit_st rsel ps ?\<sigma>'' = Some rs"
                  and s: "sim (join_cl nxt lut oks rsel ps) ?\<sigma>'' rs rp" by blast
              have fr2: "same_outside (cells (join_cl nxt lut oks rsel ps)) \<sigma> ?\<sigma>''"
                by (rule frame_step(4)[OF fr]) auto
              from up ok Some rs ge
              have "next_st (join_cl nxt lut oks rsel ps) \<sigma> = Some rs"
                by (simp add: next_st_join[of nxt lut oks rsel ps \<sigma>])
              with sim_trans[OF fr2 s] join_cl show ?thesis by auto
            qed
          next
            case False
            let ?\<sigma>'' = "\<sigma>'\<lparr>st_joins := (st_joins \<sigma>')(ps := (st_joins \<sigma>' ps)\<lparr>join_outer := e\<rparr>)\<rparr>"
            have fr2: "same_outside (cells (join_cl nxt lut oks rsel ps)) \<sigma> ?\<sigma>''"
              by (rule frame_step(4)[OF fr]) auto
            from False 2(2) have rp: "rp = Ok ((None, False),
                 join_it nxt' lut oks rsel (?s\<lparr>join_outer := e\<rparr>))" by simp
            from up False ge keep ps fr2 nxt' show ?thesis unfolding rp join_cl
              by (simp add: next_st_join[of nxt lut oks rsel ps \<sigma>] abs_cl_upd)
          qed
        qed
      next
        case False
        with body ab join_cl
        have "join_emit (abs_cl \<sigma> nxt) lut oks rsel (st_joins \<sigma> ps) = Some rp" by auto
        from join_emit_sim'[OF this ps] False join_cl show ?thesis
          by (auto simp: next_st_join)
      qed
    next
      case (skip_cl nxt pn)
      with wf have wfn: "wf_cl nxt" and pn: "pn \<notin> cells nxt" by simp_all
      let ?n = "st_ints \<sigma> pn"
      consider "?n < 0" | "?n > 0" | "?n = 0" by linarith
      then show ?thesis
      proof cases
        case 1
        with body ab skip_cl show ?thesis by (auto simp: next_st_skip same_outside_refl)
      next
        case pos: 2
        with body ab skip_cl consider "nx (abs_cl \<sigma> nxt) = panic" "rp = Panic"
          | e ok nxt' where "nx (abs_cl \<sigma> nxt) = return ((e, ok), nxt')"
            "(if \<not> ok then return ((None, False), skip_it nxt' ?n)
              else nx (skip_it nxt' (?n - 1))) = Some rp"
          by (auto simp: bind_res_eq_Some)
        then show ?thesis
        proof cases
          case 1
          from IH[OF 1(1) wfn refl] have "next_st nxt \<sigma> = panic" by (auto dest: sim_PanicD)
          with 1 skip_cl pos show ?thesis by (simp add: next_st_skip)
        next
          case 2
          from IH[OF 2(1) wfn refl] obtain \<sigma>' where up: "next_st nxt \<sigma> = return ((e, ok), \<sigma>')"
            and nxt': "nxt' = abs_cl \<sigma>' nxt" and fr: "same_outside (cells nxt) \<sigma> \<sigma>'"
            by (auto dest: sim_OkD)
          from frame_keeps(1)[OF fr pn] have keep: "st_ints \<sigma>' pn = ?n" .
          show ?thesis
          proof (cases ok)
            case True
            let ?\<sigma>'' = "\<sigma>'\<lparr>st_ints := (st_ints \<sigma>')(pn := st_ints \<sigma>' pn - 1)\<rparr>"
            from True 2(2) have "nx (skip_it nxt' (?n - 1)) = Some rp" by simp
            from IH[OF this, of "skip_cl nxt pn" ?\<sigma>''] wfn pn nxt' keep obtain rs
              where rs: "next_st (skip_cl nxt pn) ?\<sigma>'' = Some rs"
                and s: "sim (skip_cl nxt pn) ?\<sigma>'' rs rp" by (auto simp: abs_cl_upd)
            have fr2: "same_outside (cells (skip_cl nxt pn)) \<sigma> ?\<sigma>''"
              by (rule frame_step(1)[OF fr]) auto
            from up True rs pos
            have "next_st (skip_cl nxt pn) \<sigma> = Some rs"
              by (simp add: next_st_skip[of nxt pn \<sigma>])
            with sim_trans[OF fr2 s] skip_cl show ?thesis by auto
          next
            case False
            from False 2(2) have rp: "rp = Ok ((None, False), skip_it nxt' ?n)" by simp
            from up False pos keep pn frame_up[OF fr, of pn] nxt' show ?thesis unfolding rp skip_cl
              by (simp add: next_st_skip[of nxt pn \<sigma>])
          qed
        qed
      next
        case zero: 3
        with body ab skip_cl consider "nx (abs_cl \<sigma> nxt) = panic" "rp = Panic"
          | e ok nxt' where "nx (abs_cl \<sigma> nxt) = return ((e, ok), nxt')"
            "rp = Ok ((e, ok), skip_it nxt' ?n)"
          by (auto simp: bind_res_eq_Some)
        then show ?thesis
        proof cases
          case 1
          from IH[OF 1(1) wfn refl] have "next_st nxt \<sigma> = panic" by (auto dest: sim_PanicD)
          with 1 skip_cl zero show ?thesis by (simp add: next_st_skip)
        next
          case 2
          from IH[OF 2(1) wfn refl] obtain \<sigma>' where up: "next_st nxt \<sigma> = return ((e, ok), \<sigma>')"
            and nxt': "nxt' = abs_cl \<sigma>' nxt" and fr: "same_outside (cells nxt) \<sigma> \<sigma>'"
            by (auto dest: sim_OkD)
          from frame_keeps(1)[OF fr pn] have keep: "st_ints \<sigma>' pn = ?n" .
          from up zero keep frame_up[OF fr, of pn] nxt' 2(2) show ?thesis unfolding skip_cl
            by (simp add: next_st_skip[of nxt pn \<sigma>])
        qed
      qed
    next
      case (take_cl nxt pn)
      with wf have wfn: "wf_cl nxt" and pn: "pn \<notin> cells nxt" by simp_all
      let ?n = "st_ints \<sigma> pn"
      show ?thesis
      proof (cases "?n \<le> 0")
        case True
        with body ab take_cl show ?thesis by (auto simp: next_st_take same_outside_refl)
      next
        case pos: False
        let ?\<sigma>0 = "\<sigma>\<lparr>st_ints := (st_ints \<sigma>)(pn := ?n - 1)\<rparr>"
        have ab0: "abs_cl ?\<sigma>0 nxt = abs_cl \<sigma> nxt" using pn by (simp add: abs_cl_upd)
        have fr0: "same_outside (insert pn (cells nxt)) \<sigma> ?\<sigma>0"
          by (rule same_outside_upd) simp
        from pos body ab take_cl consider "nx (abs_cl \<sigma> nxt) = panic" "rp = Panic"
          | e ok nxt' where "nx (abs_cl \<sigma> nxt) = return ((e, ok), nxt')"
            "rp = Ok ((e, ok), take_it nxt' (?n - 1))"
          by (auto simp: bind_res_eq_Some)
        then show ?thesis
        proof cases
          case 1
          from IH[OF 1(1) wfn ab0] have "next_st nxt ?\<sigma>0 = panic" by (auto dest: sim_PanicD)
          with 1 take_cl pos show ?thesis by (simp add: next_st_take)
        next
          case 2
          from IH[OF 2(1) wfn ab0] obtain \<sigma>' where up: "next_st nxt ?\<sigma>0 = return ((e, ok), \<sigma>')"
            and nxt': "nxt' = abs_cl \<sigma>' nxt" and fr: "same_outside (cells nxt) ?\<sigma>0 \<sigma>'"
            by (auto dest: sim_OkD)
          from frame_keeps(1)[OF fr pn] have keep: "st_ints \<sigma>' pn = ?n - 1" by simp
          from same_outside_trans[OF fr0 frame_up[OF fr, of pn]]
          have fr2: "same_outside (insert pn (cells nxt)) \<sigma> \<sigma>'" .
          from up pos keep fr2 nxt' 2(2) show ?thesis unfolding take_cl
            by (simp add: next_st_take[of nxt pn \<sigma>])
        qed
      qed
    next
      case (sortBy_cl pa pi)
      with body ab show ?thesis
        by (auto simp: next_st_sortBy same_outside_upd same_outside_refl split: if_splits)
    qed
  qed
qed

lemma next_st_return:
  assumes "wf_cl c" and "next_st c \<sigma> = return ((e, ok), \<sigma>')"
  shows "next_it (abs_cl \<sigma> c) = return ((e, ok), abs_cl \<sigma>' c)"
    and "same_outside (cells c) \<sigma> \<sigma>'"
  using next_st_sim[OF assms(2)] assms(1) by auto

lemma next_it_return:
  assumes "wf_cl c" and "next_it (abs_cl \<sigma> c) = return ((e, ok), it')"
  shows "\<exists>\<sigma>'. next_st c \<sigma> = return ((e, ok), \<sigma>') \<and> abs_cl \<sigma>' c = it'
           \<and> same_outside (cells c) \<sigma> \<sigma>'"
  using next_it_sim[OF assms(2), rule_format, of c \<sigma>] assms(1) by (auto dest: sim_OkD)

lemma ToSlice_st_loop_pure:
  assumes "ToSlice_st_loop c acc \<sigma> = Some r"
  shows "\<forall>ys \<sigma>'. wf_cl c \<and> r = Ok (ys, \<sigma>') \<longrightarrow>
           ToSlice_loop (abs_cl \<sigma> c) acc = return ys \<and> same_outside (cells c) \<sigma> \<sigma>'"
proof (rule ToSlice_st_loop.raw_induct[where P = "\<lambda>c acc \<sigma> r. \<forall>ys \<sigma>'. wf_cl c \<and> r = Ok (ys, \<sigma>') \<longrightarrow>
           ToSlice_loop (abs_cl \<sigma> c) acc = return ys \<and> same_outside (cells c) \<sigma> \<sigma>'", OF _ assms],
       goal_cases)
  case (1 loop c acc \<sigma> r)
  show ?case
  proof (intro allI impI, elim conjE)
    fix ys \<sigma>' assume wf: "wf_cl c" and r: "r = Ok (ys, \<sigma>')"
    from 1(2) r obtain e ok \<sigma>1 where nx: "next_st c \<sigma> = return ((e, ok), \<sigma>1)"
      and b: "(if ok then loop c (acc @ [e]) \<sigma>1 else return (acc, \<sigma>1)) = return (ys, \<sigma>')"
      by (auto simp: bind_res_eq_return)
    note p = next_st_return[OF wf nx]
    show "ToSlice_loop (abs_cl \<sigma> c) acc = return ys \<and> same_outside (cells c) \<sigma> \<sigma>'"
    proof (cases ok)
      case True
      with b have "loop c (acc @ [e]) \<sigma>1 = return (ys, \<sigma>')" by simp
      from 1(1)[OF this, rule_format, of ys \<sigma>'] wf
      have "ToSlice_loop (abs_cl \<sigma>1 c) (acc @ [e]) = return ys"
        and "same_outside (cells c) \<sigma>1 \<sigma>'" by auto
      with p True show ?thesis
        by (subst ToSlice_loop.simps) (auto intro: same_outside_trans)
    next
      case False
      with b p show ?thesis by (subst ToSlice_loop.simps) auto
    qed
  qed
qed

lemma ToSlice_loop_store:
  assumes "ToSlice_loop it acc = Some r"
  shows "\<forall>c \<sigma> ys. wf_cl c \<and> abs_cl \<sigma> c = it \<and> r = Ok ys \<longrightarrow>
           (\<exists>\<sigma>'. ToSlice_st_loop c acc \<sigma> = return (ys, \<sigma>') \<and> same_outside (cells c) \<sigma> \<sigma>')"
proof (rule ToSlice_loop.raw_induct[where P = "\<lambda>it acc r. \<forall>c \<sigma> ys. wf_cl c \<and> abs_cl \<sigma> c = it \<and> r = Ok ys \<longrightarrow>
           (\<exists>\<sigma>'. ToSlice_st_loop c acc \<sigma> = return (ys, \<sigma>') \<and> same_outside (cells c) \<sigma> \<sigma>')",
         OF _ assms], goal_cases)
  case (1 loop it acc r)
  show ?case
  proof (intro allI impI, elim conjE)
    fix c :: "'a closure" and \<sigma> ys
    assume wf: "wf_cl c" and ab: "abs_cl \<sigma> c = it" and r: "r = Ok ys"
    from 1(2) r obtain e ok it' where nx: "next_it it = return ((e, ok), it')"
      and b: "(if ok then loop it' (acc @ [e]) else return acc) = return ys"
      by (auto simp: bind_res_eq_return)
    from next_it_return[OF wf nx[folded ab]] obtain \<sigma>1
      where s: "next_st c \<sigma> = return ((e, ok), \<sigma>1)" and ab1: "abs_cl \<sigma>1 c = it'"
        and fr: "same_outside (cells c) \<sigma> \<sigma>1" by blast
    show "\<exists>\<sigma>'. ToSlice_st_loop c acc \<sigma> = return (ys, \<sigma>') \<and> same_outside (cells c) \<sigma> \<sigma>'"
    proof (cases ok)
      case True
      with b have "loop it' (acc @ [e]) = return ys" by simp
      from 1(1)[OF this, rule_format, of c \<sigma>1 ys] wf ab1 obtain \<sigma>'
        where "ToSlice_st_loop c (acc @ [e]) \<sigma>1 = return (ys, \<sigma>')"
          and "same_outside (cells c) \<sigma>1 \<sigma>'" by auto
      with s True fr show ?thesis
        by (subst ToSlice_st_loop.simps) (auto intro: same_outside_trans)
    next
      case False
      with b s fr show ?thesis by (subst ToSlice_st_loop.simps) auto
    qed
  qed
qed

lemma makeLut_st_loop_pure:
  assumes "makeLut_st_loop c f m \<sigma> = Some r"
  shows "\<forall>lut \<sigma>'. wf_cl c \<and> r = Ok (lut, \<sigma>') \<longrightarrow>
           makeLut_loop (abs_cl \<sigma> c) f m = return lut \<and> same_outside (cells c) \<sigma> \<sigma>'"
proof (rule makeLut_st_loop.raw_induct[where P = "\<lambda>c f m \<sigma> r. \<forall>lut \<sigma>'. wf_cl c \<and> r = Ok (lut, \<sigma>') \<longrightarrow>
           makeLut_loop (abs_cl \<sigma> c) f m = return lut \<and> same_outside (cells c) \<sigma> \<sigma>'", OF _ assms],
       goal_cases)
  case (1 loop c f m \<sigma> r)
  show ?case
  proof (intro allI impI, elim conjE)
    fix lut \<sigma>' assume wf: "wf_cl c" and r: "r = Ok (lut, \<sigma>')"
    from 1(2) r obtain e ok \<sigma>1 where nx: "next_st c \<sigma> = return ((e, ok), \<sigma>1)"
      and b: "(if ok then (case lut_append m (f e) e of Panic \<Rightarrow> panic
                           | Ok m' \<Rightarrow> loop c f m' \<sigma>1)
               else return (m, \<sigma>1)) = return (lut, \<sigma>')"
      by (auto simp: bind_res_eq_return fun_upd_def)
    note p = next_st_return[OF wf nx]
    show "makeLut_loop (abs_cl \<sigma> c) f m = return lut \<and> same_outside (cells c) \<sigma> \<sigma>'"
    proof (cases ok)
      case True
      with b obtain m' where la: "lut_append m (f e) e = Ok m'"
        and lp: "loop c f m' \<sigma>1 = return (lut, \<sigma>')" by (auto split: res.splits)
      from 1(1)[OF lp, rule_format, of lut \<sigma>'] wf
      have "makeLut_loop (abs_cl \<sigma>1 c) f m' = return lut"
        and "same_outside (cells c) \<sigma>1 \<sigma>'" by auto
      with p True la show ?thesis
        by (subst makeLut_loop.simps) (auto intro: same_outside_trans)
    next
      case False
      with b p show ?thesis by (subst makeLut_loop.simps) auto
    qed
  qed
qed

lemma makeLut_loop_store:
  assumes "makeLut_loop it f m = Some r"
  shows "\<forall>c \<sigma> lut. wf_cl c \<and> abs_cl \<sigma> c = it \<and> r = Ok lut \<longrightarrow>
           (\<exists>\<sigma>'. makeLut_st_loop c f m \<sigma> = return (lut, \<sigma>') \<and> same_outside (cells c) \<sigma> \<sigma>')"
proof (rule makeLut_loop.raw_induct[where P = "\<lambda>it f m r. \<forall>c \<sigma> lut. wf_cl c \<and> abs_cl \<sigma> c = it \<and> r = Ok lut \<longrightarrow>
           (\<exists>\<sigma>'. makeLut_st_loop c f m \<sigma> = return (lut, \<sigma>') \<and> same_outside (cells c) \<sigma> \<sigma>')",
         OF _ assms], goal_cases)
  case (1 loop it f m r)
  show ?case
  proof (intro allI impI, elim conjE)
    fix c :: "'a closure" and \<sigma> lut
    assume wf: "wf_cl c" and ab: "abs_cl \<sigma> c = it" and r: "r = Ok lut"
    from 1(2) r obtain e ok it' where nx: "next_it it = return ((e, ok), it')"
      and b: "(if ok then (case lut_append m (f e) e of Panic \<Rightarrow> panic
                           | Ok m' \<Rightarrow> loop it' f m')
               else return m) = return lut"
      by (auto simp: bind_res_eq_return fun_upd_def)
    from next_it_return[OF wf nx[folded ab]] obtain \<sigma>1
      where s: "next_st c \<sigma> = return ((e, ok), \<sigma>1)" and ab1: "abs_cl \<sigma>1 c = it'"
        and fr: "same_outside (cells c) \<sigma> \<sigma>1" by blast
    show "\<exists>\<sigma>'. makeLut_st_loop c f m \<sigma> = return (lut, \<sigma>') \<and> same_outside (cells c) \<sigma> \<sigma>'"
    proof (cases ok)
      case True
      with b obtain m' where la: "lut_append m (f e) e = Ok m'"
        and lp: "loop it' f m' = return lut" by (auto split: res.splits)
      from 1(1)[OF lp, rule_format, of c \<sigma>1 lut] wf ab1 obtain \<sigma>'
        where "makeLut_st_loop c f m' \<sigma>1 = return (lut, \<sigma>')"
          and "same_outside (cells c) \<sigma>1 \<sigma>'" by auto
      with s True fr la show ?thesis
        by (subst makeLut_st_loop.simps) (auto intro: same_outside_trans)
    next
      case False
      with b s fr show ?thesis by (subst makeLut_st_loop.simps) auto
    qed
  qed
qed

lemma abs_cl_agree:
  assumes "\<And>p. p \<in> cells c \<Longrightarrow> st_ints \<sigma>' p = st_ints \<sigma> p \<and> st_idxs \<sigma>' p = st_idxs \<sigma> p
              \<and> st_exps \<sigma>' p = st_exps \<sigma> p \<and> st_joins \<sigma>' p = st_joins \<sigma> p"
    and "\<And>p. p \<in> reads c \<Longrightarrow> st_slices \<sigma>' p = st_slices \<sigma> p"
  shows "abs_cl \<sigma>' c = abs_cl \<sigma> c"
  using assms by (induction c) auto

lemma abs_q_agree:
  assumes "\<And>p. p \<in> sources q \<Longrightarrow> st_slices \<sigma>' p = st_slices \<sigma> p"
  shows "abs_q \<sigma>' q = abs_q \<sigma> q"
  using assms by (induction q) auto

lemma extends_refl: "extends \<sigma> \<sigma>"
  by (simp add: extends_def)

lemma extends_trans: "extends \<sigma> \<sigma>1 \<Longrightarrow> extends \<sigma>1 \<sigma>2 \<Longrightarrow> extends \<sigma> \<sigma>2"
  unfolding extends_def by auto

lemma extends_free: "extends \<sigma> \<sigma>' \<Longrightarrow> st_free \<sigma> \<le> st_free \<sigma>'"
  by (simp add: extends_def)

lemma extends_new:
  "extends \<sigma> (snd (new_int v \<sigma>))" "extends \<sigma> (snd (new_idx w \<sigma>))"
  "extends \<sigma> (snd (new_exp x \<sigma>))" "extends \<sigma> (snd (new_join y \<sigma>))"
  "extends \<sigma> (snd (new_slice z \<sigma>))"
  by (simp_all add: extends_def new_int_def new_idx_def new_exp_def new_join_def new_slice_def)

lemma extends_same_outside:
  assumes "extends \<sigma> \<sigma>1" and "same_outside A \<sigma>1 \<sigma>2" and "A \<inter> {..<st_free \<sigma>} = {}"
  shows "extends \<sigma> \<sigma>2"
  using assms unfolding extends_def same_outside_def by auto

lemma abs_cl_extends:
  assumes "extends \<sigma> \<sigma>'" and "cells c \<subseteq> {..<st_free \<sigma>}" and "reads c \<subseteq> {..<st_free \<sigma>}"
  shows "abs_cl \<sigma>' c = abs_cl \<sigma> c"
  using assms by (intro abs_cl_agree) (auto simp: extends_def)

lemma abs_q_extends:
  assumes "extends \<sigma> \<sigma>'" and "sources q \<subseteq> {..<st_free \<sigma>}"
  shows "abs_q \<sigma>' q = abs_q \<sigma> q"
  using assms by (intro abs_q_agree) (auto simp: extends_def)

lemma fresh_clD:
  assumes "fresh_cl \<sigma> c \<sigma>'"
  shows "wf_cl c"
    and "\<And>p. p \<in> cells c \<Longrightarrow> st_free \<sigma> \<le> p"
    and "\<And>p. p \<in> cells c \<Longrightarrow> p < st_free \<sigma>'"
    and "\<And>p. p \<in> reads c \<Longrightarrow> p < st_free \<sigma>'"
    and "extends \<sigma> \<sigma>'" and "st_free \<sigma> \<le> st_free \<sigma>'"
    and "st_free \<sigma>' \<notin> cells c"
  using assms by (auto simp: fresh_cl_def extends_def)

lemma Iterate_ops:
  "Iterate (Where q f) () = bind_res (Iterate q ()) (\<lambda>nxt. return (where_it nxt f))"
  "Iterate (MapTo q g) () = bind_res (Iterate q ()) (\<lambda>nxt. return (mapTo_it nxt g))"
  "Iterate (Expand q h) () = bind_res (Iterate q ()) (\<lambda>nxt.
     return (expand_it nxt h \<lparr>exp_outer = None, exp_inner = [], exp_i = 0, exp_len = 0\<rparr>))"
  "Iterate (Skip q n) () = bind_res (Iterate q ()) (\<lambda>nxt. return (skip_it nxt n))"
  "Iterate (Take q n) () = bind_res (Iterate q ()) (\<lambda>nxt. return (take_it nxt n))"
  "Iterate (Join q inner oks iks rsel) () =
     bind_res (Iterate q ()) (\<lambda>nxt.
     bind_res (Iterate inner ()) (\<lambda>it.
     bind_res (makeLut it iks) (\<lambda>lut.
       return (join_it nxt lut oks rsel
                 \<lparr>join_outer = None, join_inner = [], join_i = 0, join_len = 0\<rparr>))))"
  by (simp_all add: Where_def where'_def MapTo_def mapTo_def Expand_def expand_def
      Skip_def skip_def Take_def take'_def Join_def join_def)

lemma Iterate_Sort:
  "Iterate (Sort q fs) () =
     bind_res (Iterate q ()) (\<lambda>nxt.
     bind_res (ToSlice_loop nxt []) (\<lambda>a.
     bind_res (by_Sort fs a) (\<lambda>a'.
       return (sortBy_it a' 0))))"
proof (cases "Iterate q ()")
  case None
  then show ?thesis by (simp add: Sort_def sortBy_def ToSlice_def)
next
  case (Some r)
  then show ?thesis by (cases r) (simp_all add: Sort_def sortBy_def ToSlice_def)
qed

lemma new_simps:
  "fst (new_int v \<sigma>) = st_free \<sigma>" "fst (new_idx w \<sigma>) = st_free \<sigma>"
  "fst (new_exp x \<sigma>) = st_free \<sigma>" "fst (new_join y \<sigma>) = st_free \<sigma>"
  "fst (new_slice z \<sigma>) = st_free \<sigma>"
  "st_free (snd (new_int v \<sigma>)) = Suc (st_free \<sigma>)" "st_free (snd (new_idx w \<sigma>)) = Suc (st_free \<sigma>)"
  "st_free (snd (new_exp x \<sigma>)) = Suc (st_free \<sigma>)" "st_free (snd (new_join y \<sigma>)) = Suc (st_free \<sigma>)"
  "st_free (snd (new_slice z \<sigma>)) = Suc (st_free \<sigma>)"
  "st_ints (snd (new_int v \<sigma>)) (st_free \<sigma>) = v" "st_idxs (snd (new_idx w \<sigma>)) (st_free \<sigma>) = w"
  "st_exps (snd (new_exp x \<sigma>)) (st_free \<sigma>) = x" "st_joins (snd (new_join y \<sigma>)) (st_free \<sigma>) = y"
  "st_slices (snd (new_slice z \<sigma>)) (st_free \<sigma>) = z"
  "st_slices (snd (new_idx w \<sigma>)) = st_slices \<sigma>"
  by (simp_all add: new_int_def new_idx_def new_exp_def new_join_def new_slice_def)

lemma abs_cl_new:
  "st_free \<sigma> \<notin> cells c \<Longrightarrow> abs_cl (snd (new_int v \<sigma>)) c = abs_cl \<sigma> c"
  "st_free \<sigma> \<notin> cells c \<Longrightarrow> abs_cl (snd (new_idx w \<sigma>)) c = abs_cl \<sigma> c"
  "st_free \<sigma> \<notin> cells c \<Longrightarrow> abs_cl (snd (new_exp x \<sigma>)) c = abs_cl \<sigma> c"
  "st_free \<sigma> \<notin> cells c \<Longrightarrow> abs_cl (snd (new_join y \<sigma>)) c = abs_cl \<sigma> c"
  by (rule abs_cl_agree; auto simp: new_int_def new_idx_def new_exp_def new_join_def)+

lemma fresh_cl_unary:
  assumes "fresh_cl \<sigma> nxt \<sigma>1"
  shows "fresh_cl \<sigma> (where_cl nxt f) \<sigma>1" and "fresh_cl \<sigma> (mapTo_cl nxt g) \<sigma>1"
  using assms by (simp_all add: fresh_cl_def)

lemma fresh_cl_new:
  assumes "fresh_cl \<sigma> nxt \<sigma>1"
  shows "fresh_cl \<sigma> (skip_cl nxt (st_free \<sigma>1)) (snd (new_int n \<sigma>1))"
    and "fresh_cl \<sigma> (take_cl nxt (st_free \<sigma>1)) (snd (new_int n \<sigma>1))"
    and "fresh_cl \<sigma> (expand_cl nxt h (st_free \<sigma>1)) (snd (new_exp x \<sigma>1))"
    and "fresh_cl \<sigma> (join_cl nxt lut oks rsel (st_free \<sigma>1)) (snd (new_join y \<sigma>1))"
proof -
  note d = fresh_clD[OF assms]
  have e: "extends \<sigma> (snd (new_int n \<sigma>1))" "extends \<sigma> (snd (new_exp x \<sigma>1))"
    "extends \<sigma> (snd (new_join y \<sigma>1))"
    using extends_trans[OF d(5)] extends_new by blast+
  have lt: "p < Suc (st_free \<sigma>1)" if "p \<in> cells nxt \<or> p \<in> reads nxt" for p
    using that d(3,4) less_SucI by blast
  from d(1,2,6,7) e lt
  show "fresh_cl \<sigma> (skip_cl nxt (st_free \<sigma>1)) (snd (new_int n \<sigma>1))"
    and "fresh_cl \<sigma> (take_cl nxt (st_free \<sigma>1)) (snd (new_int n \<sigma>1))"
    and "fresh_cl \<sigma> (expand_cl nxt h (st_free \<sigma>1)) (snd (new_exp x \<sigma>1))"
    and "fresh_cl \<sigma> (join_cl nxt lut oks rsel (st_free \<sigma>1)) (snd (new_join y \<sigma>1))"
    by (simp_all add: fresh_cl_def new_simps)
qed

lemma fresh_cl_weaken:
  assumes "fresh_cl \<sigma> c \<sigma>1" and "extends \<sigma> \<sigma>2" and "st_free \<sigma>1 \<le> st_free \<sigma>2"
  shows "fresh_cl \<sigma> c \<sigma>2"
  using assms unfolding fresh_cl_def by (meson less_le_trans)

lemma fresh_cl_extends_later:
  assumes "fresh_cl \<sigma> c \<sigma>1" and "extends \<sigma>1 \<sigma>2"
  shows "abs_cl \<sigma>2 c = abs_cl \<sigma>1 c"
  using fresh_clD(3,4)[OF assms(1)] by (intro abs_cl_extends[OF assms(2)]) auto

lemma fresh_cl_frame_later:
  assumes "fresh_cl \<sigma> c \<sigma>1" and "fresh_cl \<sigma>1 c' \<sigma>2" and "same_outside (cells c') \<sigma>2 \<sigma>3"
  shows "abs_cl \<sigma>3 c = abs_cl \<sigma>2 c" and "extends \<sigma>1 \<sigma>3"
proof -
  have "cells c \<inter> cells c' = {}"
    using fresh_clD(3)[OF assms(1)] fresh_clD(2)[OF assms(2)] by fastforce
  then show "abs_cl \<sigma>3 c = abs_cl \<sigma>2 c" by (rule abs_cl_frame[OF assms(3)])
  have "cells c' \<inter> {..<st_free \<sigma>1} = {}"
    using fresh_clD(2)[OF assms(2)] by fastforce
  then show "extends \<sigma>1 \<sigma>3"
    by (rule extends_same_outside[OF fresh_clD(5)[OF assms(2)] assms(3)])
qed

lemma fresh_cl_drained:
  assumes "fresh_cl \<sigma> c \<sigma>1" and "same_outside (cells c) \<sigma>1 \<sigma>2"
  shows "extends \<sigma> \<sigma>2" and "st_free \<sigma>2 = st_free \<sigma>1"
proof -
  have "cells c \<inter> {..<st_free \<sigma>} = {}"
    using fresh_clD(2)[OF assms(1)] by fastforce
  then show "extends \<sigma> \<sigma>2"
    by (rule extends_same_outside[OF fresh_clD(5)[OF assms(1)] assms(2)])
  from assms(2) show "st_free \<sigma>2 = st_free \<sigma>1" by (simp add: same_outside_def)
qed

lemma new_eq:
  "new_int v \<sigma> = (p, \<sigma>') \<longleftrightarrow> p = st_free \<sigma> \<and> \<sigma>' = snd (new_int v \<sigma>)"
  "new_idx w \<sigma> = (p, \<sigma>') \<longleftrightarrow> p = st_free \<sigma> \<and> \<sigma>' = snd (new_idx w \<sigma>)"
  "new_exp x \<sigma> = (p, \<sigma>') \<longleftrightarrow> p = st_free \<sigma> \<and> \<sigma>' = snd (new_exp x \<sigma>)"
  "new_join y \<sigma> = (p, \<sigma>') \<longleftrightarrow> p = st_free \<sigma> \<and> \<sigma>' = snd (new_join y \<sigma>)"
  "new_slice z \<sigma> = (p, \<sigma>') \<longleftrightarrow> p = st_free \<sigma> \<and> \<sigma>' = snd (new_slice z \<sigma>)"
  by (auto simp: new_int_def new_idx_def new_exp_def new_join_def new_slice_def)

lemma Iterate_st_From:
  "Iterate_st (From_f pa) \<sigma> = return (from_cl pa (st_free \<sigma>), snd (new_idx 0 \<sigma>))"
  by (simp add: new_idx_def)

lemma Iterate_st_pure:
  "Iterate_st q \<sigma> = return (c, \<sigma>') \<Longrightarrow> sources q \<subseteq> {..<st_free \<sigma>} \<Longrightarrow>
     Iterate (abs_q \<sigma> q) () = return (abs_cl \<sigma>' c) \<and> fresh_cl \<sigma> c \<sigma>'"
proof (induction q arbitrary: \<sigma> c \<sigma>')
  case (From_f pa)
  then have c: "c = from_cl pa (st_free \<sigma>)" and s: "\<sigma>' = snd (new_idx 0 \<sigma>)"
    by (auto simp: new_eq split: prod.splits)
  from From_f.prems(2) show ?case unfolding c s
    by (simp add: Iterate_From new_simps fresh_cl_def extends_new)
next
  case (Where_f q f)
  then obtain nxt where it: "Iterate_st q \<sigma> = return (nxt, \<sigma>')" and c: "c = where_cl nxt f"
    by (auto simp: bind_res_eq_return)
  from Where_f.IH[OF it] Where_f.prems(2) show ?case unfolding c
    by (simp add: Iterate_ops fresh_cl_unary)
next
  case (MapTo_f q f)
  then obtain nxt where it: "Iterate_st q \<sigma> = return (nxt, \<sigma>')" and c: "c = mapTo_cl nxt f"
    by (auto simp: bind_res_eq_return)
  from MapTo_f.IH[OF it] MapTo_f.prems(2) show ?case unfolding c
    by (simp add: Iterate_ops fresh_cl_unary)
next
  case (Expand_f q f)
  let ?s0 = "\<lparr>exp_outer = None, exp_inner = [], exp_i = 0, exp_len = 0\<rparr> :: 'a expState"
  from Expand_f.prems(1) obtain nxt \<sigma>1 where it: "Iterate_st q \<sigma> = return (nxt, \<sigma>1)"
    and c: "c = expand_cl nxt f (st_free \<sigma>1)" and s: "\<sigma>' = snd (new_exp ?s0 \<sigma>1)"
    by (auto simp: bind_res_eq_return new_eq split: prod.splits)
  from Expand_f.IH[OF it] Expand_f.prems(2)
  have p: "Iterate (abs_q \<sigma> q) () = return (abs_cl \<sigma>1 nxt)" and f: "fresh_cl \<sigma> nxt \<sigma>1" by auto
  from p fresh_clD(7)[OF f] fresh_cl_new(3)[OF f] show ?case unfolding c s
    by (simp add: Iterate_ops abs_cl_new new_simps)
next
  case (Join_f q inner oks iks rsel)
  let ?s0 = "\<lparr>join_outer = None, join_inner = [], join_i = 0, join_len = 0\<rparr> :: 'a joinState"
  from Join_f.prems(1) obtain nxt \<sigma>1 it \<sigma>2 lut \<sigma>3
    where a: "Iterate_st q \<sigma> = return (nxt, \<sigma>1)" and b: "Iterate_st inner \<sigma>1 = return (it, \<sigma>2)"
      and m: "makeLut_st_loop it iks Map.empty \<sigma>2 = return (lut, \<sigma>3)"
      and c: "c = join_cl nxt lut oks rsel (st_free \<sigma>3)" and s: "\<sigma>' = snd (new_join ?s0 \<sigma>3)"
    by (auto simp: bind_res_eq_return new_eq makeLut_st_def split: prod.splits)
  from Join_f.prems(2) have src: "sources q \<subseteq> {..<st_free \<sigma>}" "sources inner \<subseteq> {..<st_free \<sigma>}"
    by auto
  from Join_f.IH(1)[OF a src(1)]
  have p1: "Iterate (abs_q \<sigma> q) () = return (abs_cl \<sigma>1 nxt)" and f1: "fresh_cl \<sigma> nxt \<sigma>1" by auto
  note d1 = fresh_clD[OF f1]
  from src(2) d1(6) have src1: "sources inner \<subseteq> {..<st_free \<sigma>1}" by auto
  from Join_f.IH(2)[OF b src1]
  have p2: "Iterate (abs_q \<sigma>1 inner) () = return (abs_cl \<sigma>2 it)" and f2: "fresh_cl \<sigma>1 it \<sigma>2" by auto
  note d2 = fresh_clD[OF f2]
  from abs_q_extends[OF d1(5) src(2)] p2
  have p2': "Iterate (abs_q \<sigma> inner) () = return (abs_cl \<sigma>2 it)" by simp
  from makeLut_st_loop_pure[OF m] d2(1)
  have p3: "makeLut (abs_cl \<sigma>2 it) iks = return lut" and fr: "same_outside (cells it) \<sigma>2 \<sigma>3"
    by (auto simp: makeLut_def)
  from fr have free3: "st_free \<sigma>3 = st_free \<sigma>2" by (simp add: same_outside_def)
  note n2 = fresh_cl_extends_later[OF f1 d2(5)]
  note n3 = fresh_cl_frame_later[OF f1 f2 fr]
  have f3: "fresh_cl \<sigma> nxt \<sigma>3"
    using d2(6) free3 by (intro fresh_cl_weaken[OF f1 extends_trans[OF d1(5) n3(2)]]) simp
  have n4: "abs_cl \<sigma>' nxt = abs_cl \<sigma>3 nxt" unfolding s
    by (rule abs_cl_new(4)[OF fresh_clD(7)[OF f3]])
  have "Iterate (abs_q \<sigma> (Join_f q inner oks iks rsel)) () = return (abs_cl \<sigma>' c)"
    using p1 p2' p3 n2 n3(1) n4 unfolding c s by (simp add: Iterate_ops new_simps)
  with fresh_cl_new(4)[OF f3] show ?case unfolding c s by simp
next
  case (Skip_f q n)
  from Skip_f.prems(1) obtain nxt \<sigma>1 where it: "Iterate_st q \<sigma> = return (nxt, \<sigma>1)"
    and c: "c = skip_cl nxt (st_free \<sigma>1)" and s: "\<sigma>' = snd (new_int n \<sigma>1)"
    by (auto simp: bind_res_eq_return new_eq split: prod.splits)
  from Skip_f.IH[OF it] Skip_f.prems(2)
  have p: "Iterate (abs_q \<sigma> q) () = return (abs_cl \<sigma>1 nxt)" and f: "fresh_cl \<sigma> nxt \<sigma>1" by auto
  from p fresh_clD(7)[OF f] fresh_cl_new(1)[OF f] show ?case unfolding c s
    by (simp add: Iterate_ops abs_cl_new new_simps)
next
  case (Sort_f q fs)
  from Sort_f.prems(1) obtain nxt \<sigma>1 a \<sigma>2 \<sigma>4
    where i: "Iterate_st q \<sigma> = return (nxt, \<sigma>1)"
      and l: "ToSlice_st_loop nxt [] \<sigma>1 = return (a, \<sigma>2)"
      and b: "by_Sort_st fs (st_free \<sigma>2) (snd (new_slice a \<sigma>2)) = return \<sigma>4"
      and c: "c = sortBy_cl (st_free \<sigma>2) (st_free \<sigma>4)" and s: "\<sigma>' = snd (new_idx 0 \<sigma>4)"
    by (auto simp: bind_res_eq_return new_eq split: prod.splits res.splits)
  from Sort_f.IH[OF i] Sort_f.prems(2)
  have p: "Iterate (abs_q \<sigma> q) () = return (abs_cl \<sigma>1 nxt)" and f: "fresh_cl \<sigma> nxt \<sigma>1" by auto
  from ToSlice_st_loop_pure[OF l] fresh_clD(1)[OF f]
  have p2: "ToSlice_loop (abs_cl \<sigma>1 nxt) [] = return a" and fr: "same_outside (cells nxt) \<sigma>1 \<sigma>2"
    by auto
  note e2 = fresh_cl_drained[OF f fr]
  from b obtain a' where srt: "by_Sort fs a = return a'"
    and s4: "\<sigma>4 = (snd (new_slice a \<sigma>2))\<lparr>st_slices :=
                (st_slices (snd (new_slice a \<sigma>2)))(st_free \<sigma>2 := a')\<rparr>"
    by (auto simp: by_Sort_st_def new_simps bind_res_eq_return)
  have free4: "st_free \<sigma>4 = Suc (st_free \<sigma>2)" unfolding s4 by (simp add: new_simps)
  have "st_slices \<sigma>4 (st_free \<sigma>2) = a'" unfolding s4 by simp
  then have sl: "st_slices \<sigma>' (st_free \<sigma>2) = a'" "st_idxs \<sigma>' (st_free \<sigma>4) = 0"
    unfolding s by (simp_all add: new_simps)
  have e24: "extends \<sigma>2 \<sigma>4" unfolding s4
    by (simp add: extends_def new_slice_def)
  have e: "extends \<sigma> \<sigma>'" unfolding s
    using extends_trans[OF extends_trans[OF e2(1) e24] extends_new(2)] .
  have fresh: "fresh_cl \<sigma> c \<sigma>'"
    using e fresh_clD(6)[OF f] e2(2) free4 unfolding c s
    by (simp add: fresh_cl_def new_simps)
  have "Iterate (abs_q \<sigma> (Sort_f q fs)) () = return (abs_cl \<sigma>' c)"
    using p p2 srt sl unfolding c by (simp add: Iterate_Sort)
  with fresh show ?case by simp
next
  case (Take_f q n)
  from Take_f.prems(1) obtain nxt \<sigma>1 where it: "Iterate_st q \<sigma> = return (nxt, \<sigma>1)"
    and c: "c = take_cl nxt (st_free \<sigma>1)" and s: "\<sigma>' = snd (new_int n \<sigma>1)"
    by (auto simp: bind_res_eq_return new_eq split: prod.splits)
  from Take_f.IH[OF it] Take_f.prems(2)
  have p: "Iterate (abs_q \<sigma> q) () = return (abs_cl \<sigma>1 nxt)" and f: "fresh_cl \<sigma> nxt \<sigma>1" by auto
  from p fresh_clD(7)[OF f] fresh_cl_new(2)[OF f] show ?case unfolding c s
    by (simp add: Iterate_ops abs_cl_new new_simps)
qed

lemma Iterate_pure_st:
  "Iterate (abs_q \<sigma> q) () = return it \<Longrightarrow> sources q \<subseteq> {..<st_free \<sigma>} \<Longrightarrow>
     \<exists>c \<sigma>'. Iterate_st q \<sigma> = return (c, \<sigma>')"
proof (induction q arbitrary: \<sigma> it)
  case (From_f pa)
  show ?case by (simp add: Iterate_st_From del: Iterate_st.simps)
next
  case (Where_f q f)
  from Where_f.prems(1) obtain nxt0 where "Iterate (abs_q \<sigma> q) () = return nxt0"
    by (auto simp: Iterate_ops bind_res_eq_return)
  from Where_f.IH[OF this] Where_f.prems(2) show ?case by auto
next
  case (MapTo_f q f)
  from MapTo_f.prems(1) obtain nxt0 where "Iterate (abs_q \<sigma> q) () = return nxt0"
    by (auto simp: Iterate_ops bind_res_eq_return)
  from MapTo_f.IH[OF this] MapTo_f.prems(2) show ?case by auto
next
  case (Expand_f q f)
  from Expand_f.prems(1) obtain nxt0 where "Iterate (abs_q \<sigma> q) () = return nxt0"
    by (auto simp: Iterate_ops bind_res_eq_return)
  from Expand_f.IH[OF this] Expand_f.prems(2) show ?case by (auto split: prod.splits)
next
  case (Join_f q inner oks iks rsel)
  from Join_f.prems(2) have src: "sources q \<subseteq> {..<st_free \<sigma>}" "sources inner \<subseteq> {..<st_free \<sigma>}"
    by auto
  from Join_f.prems(1) obtain nxt0 it0 lut
    where p1: "Iterate (abs_q \<sigma> q) () = return nxt0"
      and p2: "Iterate (abs_q \<sigma> inner) () = return it0"
      and p3: "makeLut_loop it0 iks Map.empty = return lut"
    by (auto simp: Iterate_ops bind_res_eq_return makeLut_def)
  from Join_f.IH(1)[OF p1 src(1)] obtain nxt \<sigma>1 where a: "Iterate_st q \<sigma> = return (nxt, \<sigma>1)"
    by blast
  from Iterate_st_pure[OF a src(1)] have f1: "fresh_cl \<sigma> nxt \<sigma>1" by simp
  note d1 = fresh_clD[OF f1]
  from src(2) d1(6) have src1: "sources inner \<subseteq> {..<st_free \<sigma>1}" by auto
  from abs_q_extends[OF d1(5) src(2)] p2
  have p2': "Iterate (abs_q \<sigma>1 inner) () = return it0" by simp
  from Join_f.IH(2)[OF p2' src1] obtain itc \<sigma>2 where b: "Iterate_st inner \<sigma>1 = return (itc, \<sigma>2)"
    by blast
  from Iterate_st_pure[OF b src1] p2' have ab: "abs_cl \<sigma>2 itc = it0" and f2: "fresh_cl \<sigma>1 itc \<sigma>2"
    by simp_all
  from makeLut_loop_store[OF p3, rule_format, of itc \<sigma>2 lut] ab fresh_clD(1)[OF f2]
  obtain \<sigma>3 where "makeLut_st_loop itc iks Map.empty \<sigma>2 = return (lut, \<sigma>3)" by auto
  with a b show ?case by (auto simp: makeLut_st_def split: prod.splits)
next
  case (Skip_f q n)
  from Skip_f.prems(1) obtain nxt0 where "Iterate (abs_q \<sigma> q) () = return nxt0"
    by (auto simp: Iterate_ops bind_res_eq_return)
  from Skip_f.IH[OF this] Skip_f.prems(2) show ?case by (auto split: prod.splits)
next
  case (Sort_f q fs)
  from Sort_f.prems(1) obtain nxt0 a
    where p1: "Iterate (abs_q \<sigma> q) () = return nxt0"
      and p2: "ToSlice_loop nxt0 [] = return a"
      and k: "bind_res (by_Sort fs a) (\<lambda>a'. return (sortBy_it a' 0)) = return it"
    by (auto simp: Iterate_Sort bind_res_eq_return)
  from k obtain a' where p3: "by_Sort fs a = return a'" by (auto simp: bind_res_eq_return)
  from Sort_f.prems(2) have src: "sources q \<subseteq> {..<st_free \<sigma>}" by simp
  from Sort_f.IH[OF p1 src] obtain nxt \<sigma>1 where i: "Iterate_st q \<sigma> = return (nxt, \<sigma>1)"
    by blast
  from Iterate_st_pure[OF i src] p1 have ab: "abs_cl \<sigma>1 nxt = nxt0" and f: "fresh_cl \<sigma> nxt \<sigma>1"
    by simp_all
  from ToSlice_loop_store[OF p2, rule_format, of nxt \<sigma>1 a] ab fresh_clD(1)[OF f]
  obtain \<sigma>2 where l: "ToSlice_st_loop nxt [] \<sigma>1 = return (a, \<sigma>2)" by auto
  have "\<exists>\<sigma>4. by_Sort_st fs (st_free \<sigma>2) (snd (new_slice a \<sigma>2)) = return \<sigma>4"
    using p3 by (simp add: by_Sort_st_def new_simps)
  with i l show ?case
    by (auto simp: new_eq split: prod.splits)
next
  case (Take_f q n)
  from Take_f.prems(1) obtain nxt0 where "Iterate (abs_q \<sigma> q) () = return nxt0"
    by (auto simp: Iterate_ops bind_res_eq_return)
  from Take_f.IH[OF this] Take_f.prems(2) show ?case by (auto split: prod.splits)
qed

lemma ToSlice_st_pure:
  assumes "ToSlice_st q \<sigma> = return (xs, \<sigma>')" and "sources q \<subseteq> {..<st_free \<sigma>}"
  shows "ToSlice (abs_q \<sigma> q) = return xs" and "extends \<sigma> \<sigma>'"
proof -
  from assms(1) obtain c \<sigma>1 where i: "Iterate_st q \<sigma> = return (c, \<sigma>1)"
    and l: "ToSlice_st_loop c [] \<sigma>1 = return (xs, \<sigma>')"
    by (auto simp: ToSlice_st_def bind_res_eq_return)
  from Iterate_st_pure[OF i assms(2)]
  have p: "Iterate (abs_q \<sigma> q) () = return (abs_cl \<sigma>1 c)" and f: "fresh_cl \<sigma> c \<sigma>1" by simp_all
  from ToSlice_st_loop_pure[OF l] fresh_clD(1)[OF f]
  have p2: "ToSlice_loop (abs_cl \<sigma>1 c) [] = return xs" and fr: "same_outside (cells c) \<sigma>1 \<sigma>'"
    by auto
  from p p2 show "ToSlice (abs_q \<sigma> q) = return xs" by (simp add: ToSlice_def)
  from fresh_cl_drained(1)[OF f fr] show "extends \<sigma> \<sigma>'" .
qed

lemma ToSlice_pure_st:
  assumes "ToSlice (abs_q \<sigma> q) = return xs" and "sources q \<subseteq> {..<st_free \<sigma>}"
  shows "\<exists>\<sigma>'. ToSlice_st q \<sigma> = return (xs, \<sigma>')"
proof -
  from assms(1) obtain it0 where p: "Iterate (abs_q \<sigma> q) () = return it0"
    and p2: "ToSlice_loop it0 [] = return xs"
    by (auto simp: ToSlice_def bind_res_eq_return)
  from Iterate_pure_st[OF p assms(2)] obtain c \<sigma>1 where i: "Iterate_st q \<sigma> = return (c, \<sigma>1)"
    by blast
  from Iterate_st_pure[OF i assms(2)] p have ab: "abs_cl \<sigma>1 c = it0" and f: "fresh_cl \<sigma> c \<sigma>1"
    by simp_all
  from ToSlice_loop_store[OF p2, rule_format, of c \<sigma>1 xs] ab fresh_clD(1)[OF f]
  obtain \<sigma>' where "ToSlice_st_loop c [] \<sigma>1 = return (xs, \<sigma>')" by auto
  with i show ?thesis by (auto simp: ToSlice_st_def)
qed

text \<open>
  Claim C9. Let the sources of a query be allocated in the store, and let
  invoking the factory and draining the iterator return the stream \<open>xs\<close>. Then
  invoking the factory again in the store left by the first traversal and
  draining returns the same stream \<open>xs\<close>, and the source slices are what they
  were before the first traversal. The same holds when both iterators are
  created first and drained one after the other: neither traversal changes a
  variable of the other.
\<close>

theorem reiterate_same_stream:
  assumes "sources q \<subseteq> {..<st_free \<sigma>}" and "ToSlice_st q \<sigma> = return (xs, \<sigma>')"
  shows "(\<exists>\<sigma>''. ToSlice_st q \<sigma>' = return (xs, \<sigma>'')
            \<and> (\<forall>p\<in>sources q. st_slices \<sigma>'' p = st_slices \<sigma> p))
       \<and> (\<exists>c1 \<sigma>1 c2 \<sigma>2 \<sigma>3 \<sigma>4.
             Iterate_st q \<sigma> = return (c1, \<sigma>1) \<and> Iterate_st q \<sigma>1 = return (c2, \<sigma>2)
           \<and> ToSlice_st_loop c1 [] \<sigma>2 = return (xs, \<sigma>3)
           \<and> ToSlice_st_loop c2 [] \<sigma>3 = return (xs, \<sigma>4))"
proof
  note r1 = ToSlice_st_pure[OF assms(2,1)]
  from assms(1) extends_free[OF r1(2)] have src': "sources q \<subseteq> {..<st_free \<sigma>'}" by auto
  from abs_q_extends[OF r1(2) assms(1)] r1(1) have "ToSlice (abs_q \<sigma>' q) = return xs" by simp
  from ToSlice_pure_st[OF this src'] obtain \<sigma>'' where r2: "ToSlice_st q \<sigma>' = return (xs, \<sigma>'')"
    by blast
  from ToSlice_st_pure(2)[OF r2 src'] r1(2) have "extends \<sigma> \<sigma>''" by (rule extends_trans[rotated])
  with assms(1) have "\<forall>p\<in>sources q. st_slices \<sigma>'' p = st_slices \<sigma> p"
    by (auto simp: extends_def)
  with r2 show "\<exists>\<sigma>''. ToSlice_st q \<sigma>' = return (xs, \<sigma>'')
            \<and> (\<forall>p\<in>sources q. st_slices \<sigma>'' p = st_slices \<sigma> p)" by blast
next
  from assms(2) obtain c1 \<sigma>1 where i1: "Iterate_st q \<sigma> = return (c1, \<sigma>1)"
    and l1: "ToSlice_st_loop c1 [] \<sigma>1 = return (xs, \<sigma>')"
    by (auto simp: ToSlice_st_def bind_res_eq_return)
  from Iterate_st_pure[OF i1 assms(1)]
  have p1: "Iterate (abs_q \<sigma> q) () = return (abs_cl \<sigma>1 c1)" and f1: "fresh_cl \<sigma> c1 \<sigma>1"
    by simp_all
  from ToSlice_st_loop_pure[OF l1] fresh_clD(1)[OF f1]
  have d1: "ToSlice_loop (abs_cl \<sigma>1 c1) [] = return xs" by auto
  from assms(1) fresh_clD(6)[OF f1] have src1: "sources q \<subseteq> {..<st_free \<sigma>1}" by auto
  from abs_q_extends[OF fresh_clD(5)[OF f1] assms(1)] p1
  have p1': "Iterate (abs_q \<sigma>1 q) () = return (abs_cl \<sigma>1 c1)" by simp
  from Iterate_pure_st[OF p1' src1] obtain c2 \<sigma>2 where i2: "Iterate_st q \<sigma>1 = return (c2, \<sigma>2)"
    by blast
  from Iterate_st_pure[OF i2 src1] p1'
  have ab2: "abs_cl \<sigma>2 c2 = abs_cl \<sigma>1 c1" and f2: "fresh_cl \<sigma>1 c2 \<sigma>2" by simp_all
  from fresh_cl_extends_later[OF f1 fresh_clD(5)[OF f2]]
  have ab1: "abs_cl \<sigma>2 c1 = abs_cl \<sigma>1 c1" .
  from ToSlice_loop_store[OF d1, rule_format, of c1 \<sigma>2 xs] ab1 fresh_clD(1)[OF f1]
  obtain \<sigma>3 where l3: "ToSlice_st_loop c1 [] \<sigma>2 = return (xs, \<sigma>3)"
    and fr: "same_outside (cells c1) \<sigma>2 \<sigma>3" by auto
  have "cells c2 \<inter> cells c1 = {}"
    using fresh_clD(3)[OF f1] fresh_clD(2)[OF f2] by fastforce
  from abs_cl_frame[OF fr this] ab2 have ab3: "abs_cl \<sigma>3 c2 = abs_cl \<sigma>1 c1" by simp
  from ToSlice_loop_store[OF d1, rule_format, of c2 \<sigma>3 xs] ab3 fresh_clD(1)[OF f2]
  obtain \<sigma>4 where "ToSlice_st_loop c2 [] \<sigma>3 = return (xs, \<sigma>4)" by auto
  with i1 i2 l3 show "\<exists>c1 \<sigma>1 c2 \<sigma>2 \<sigma>3 \<sigma>4.
             Iterate_st q \<sigma> = return (c1, \<sigma>1) \<and> Iterate_st q \<sigma>1 = return (c2, \<sigma>2)
           \<and> ToSlice_st_loop c1 [] \<sigma>2 = return (xs, \<sigma>3)
           \<and> ToSlice_st_loop c2 [] \<sigma>3 = return (xs, \<sigma>4)" by blast
qed

theorem reiterate_same_stream_witness:
  "\<exists>\<sigma>' \<sigma>''.
     ToSlice_st (Take_f (Skip_f (From_f 0) 1) 2) example_store = return ([Some 3, Some 7], \<sigma>')
   \<and> ToSlice_st (Take_f (Skip_f (From_f 0) 1) 2) \<sigma>' = return ([Some 3, Some 7], \<sigma>'')
   \<and> st_slices \<sigma>'' 0 = [Some 4, Some 3, Some 7, Some 2]"
proof -
  let ?q = "Take_f (Skip_f (From_f 0) 1) 2 :: nat factory"
  have src: "sources ?q \<subseteq> {..<st_free example_store}" by (simp add: example_store_def)
  have "ToSlice (From [Some (4::nat), Some 3, Some 7, Some 2]) = return [Some 4, Some 3, Some 7, Some 2]"
    by (rule ToSlice_From)
  from ToSlice_Take[OF ToSlice_Skip[OF this, of 1], of 2]
  have "ToSlice (abs_q example_store ?q) = return [Some 3, Some 7]"
    by (simp add: example_store_def)
  from ToSlice_pure_st[OF this src] obtain \<sigma>'
    where r1: "ToSlice_st ?q example_store = return ([Some 3, Some 7], \<sigma>')" by blast
  from reiterate_same_stream[OF src r1] obtain \<sigma>''
    where "ToSlice_st ?q \<sigma>' = return ([Some 3, Some 7], \<sigma>'')"
      and "\<forall>p\<in>sources ?q. st_slices \<sigma>'' p = st_slices example_store p" by blast
  with r1 show ?thesis by (auto simp: example_store_def)
qed

end
